theory Spec2Isabelle
  imports Main "HOL-Library.Word" "HOL-Library.Monad_Syntax"
begin

section \<open>Return codes\<close>

text \<open>
  The codes of the public interface (\<open>ReturnCode\<close>) and the codes that node operations
  hand to the tree (\<open>NodeRC\<close>).  Both enumerations are declared in \<open>common.hpp\<close>;
  the constructors below are the names \<open>b_tree.hpp\<close> uses.
\<close>

datatype ReturnCode = kSuccess | kKeyNotExist | kKeyExist

datatype NodeRC =
    kCompleted
  | kKeyNotInserted
  | kKeyAlreadyInserted
  | kNeedSplit
  | kNeedMerge
  | kAbortMerge
  | kNeedRetry

section \<open>Pages and nodes\<close>

text \<open>
  A page is addressed by a natural number.  A slot holds a key, a payload and the
  delete flag; in inner nodes the payload is a child reference.  The key of a slot
  is optional: the leftmost slot of an inner node carries no key.
\<close>

type_synonym ptr = nat

datatype 'v pay = Val 'v | Child ptr

datatype ('k, 'v) slot = Slot (skey: "'k option") (spay: "'v pay") (sdel: bool)

record ('k, 'v) node =
  is_inner :: bool
  slots :: "('k, 'v) slot list"
  high_key :: "'k option"
  next_ptr :: "ptr option"
  ver :: "64 word"
  s_locks :: nat
  is_removed :: bool

text \<open>
  The tree: the page store, the root reference, the allocator's next fresh page,
  the pages handed to the reclaimer, and the number of live epoch guards.
\<close>

record ('k, 'v) btree =
  heap :: "ptr \<Rightarrow> ('k, 'v) node option"
  root :: ptr
  next_page :: ptr
  garbage :: "ptr list"
  guards :: nat

definition set_node :: "ptr \<Rightarrow> ('k, 'v) node \<Rightarrow> ('k, 'v) btree \<Rightarrow> ('k, 'v) btree" where
  "set_node p n t = t\<lparr>heap := (heap t)(p := Some n)\<rparr>"

section \<open>Record iterator\<close>

text \<open>
  The members of \<open>RecordIterator\<close> (record_iterator.hpp, lines 145-158): the current
  node, the current position, the end position in the node, the end key with its
  inclusivity flag, and the flag saying that the node is the last one of the range.
\<close>

record 'k iter =
  it_node :: ptr
  it_pos :: nat
  it_end_pos :: nat
  it_end_key :: "('k \<times> bool) option"
  it_is_end :: bool

text \<open>
  The inner loop of \<open>HasNext\<close> (lines 102-104):
  \<open>while (pos_ < end_pos_ && node_->RecordIsDeleted(pos_)) ++pos_\<close>.
  A read of a slot beyond the record count has no defined result and is \<open>None\<close>.
\<close>

function skip_deleted :: "('k, 'v) slot list \<Rightarrow> nat \<Rightarrow> nat \<Rightarrow> nat option" where
  "skip_deleted ss pos end_pos =
     (if pos < end_pos then
        (if pos < length ss then
           (if sdel (ss ! pos) then skip_deleted ss (Suc pos) end_pos else Some pos)
         else None)
      else Some pos)"
  by pat_completeness auto
termination
  by (relation "measure (\<lambda>(ss, pos, end_pos). end_pos - pos)") auto

declare skip_deleted.simps [simp del]

text \<open>
  Modelled from the spec: \<open>Node::ReleaseSharedLock\<close>, \<open>Node::GetNextNodeForRead\<close> and
  \<open>Node::SearchEndPositionFor\<close> live in the node headers, which are not part of the
  sources at hand.  Section 4.4: "follow the sibling pointer under lock-coupling
  (acquire S on right sibling, release S on current), recompute end slot and
  last-leaf flag against the end key".  A node is the last of the range when it has
  no right sibling, or when an end key is given and lies below the node's high key
  (the high key being above every key of the node); in the last node the end slot is the position of the end key (one further when
  the end key is stored and the range is closed), elsewhere it is the record count.
\<close>

definition ReleaseSharedLock :: "ptr \<Rightarrow> ('k, 'v) btree \<Rightarrow> ('k, 'v) btree option" where
  "ReleaseSharedLock p t =
     (case heap t p of
        None \<Rightarrow> None
      | Some n \<Rightarrow> Some (set_node p (n\<lparr>s_locks := s_locks n - 1\<rparr>) t))"

definition AcquireSharedLock :: "ptr \<Rightarrow> ('k, 'v) btree \<Rightarrow> ('k, 'v) btree option" where
  "AcquireSharedLock p t =
     (case heap t p of
        None \<Rightarrow> None
      | Some n \<Rightarrow> Some (set_node p (n\<lparr>s_locks := Suc (s_locks n)\<rparr>) t))"

definition GetNextNodeForRead :: "ptr \<Rightarrow> ('k, 'v) btree \<Rightarrow> (ptr \<times> ('k, 'v) btree) option" where
  "GetNextNodeForRead p t =
     (case heap t p of
        None \<Rightarrow> None
      | Some n \<Rightarrow>
          (case next_ptr n of
             None \<Rightarrow> None
           | Some q \<Rightarrow>
               (case AcquireSharedLock q t of
                  None \<Rightarrow> None
                | Some t1 \<Rightarrow>
                    (case ReleaseSharedLock p t1 of
                       None \<Rightarrow> None
                     | Some t2 \<Rightarrow> Some (q, t2)))))"

definition key_lt :: "'k::linorder option \<Rightarrow> 'k \<Rightarrow> bool" where
  "key_lt ko k = (case ko of None \<Rightarrow> True | Some k' \<Rightarrow> k' < k)"

definition key_le :: "'k::linorder option \<Rightarrow> 'k \<Rightarrow> bool" where
  "key_le ko k = (case ko of None \<Rightarrow> True | Some k' \<Rightarrow> k' \<le> k)"

text \<open>
  Modelled from the spec: \<open>Node::SearchRecord\<close> (node headers absent).  The position
  of a key in a node is the number of slots whose key is below it, which is what the
  binary search of the spec returns on a node ordered by key; the code tells whether
  a slot with that key stands there.
\<close>

definition lower_pos :: "('k::linorder, 'v) slot list \<Rightarrow> 'k \<Rightarrow> nat" where
  "lower_pos ss k = length (takeWhile (\<lambda>s. key_lt (skey s) k) ss)"

definition SearchRecord :: "('k::linorder, 'v) node \<Rightarrow> 'k \<Rightarrow> NodeRC \<times> nat" where
  "SearchRecord n k =
     (let pos = lower_pos (slots n) k in
      if pos < length (slots n) \<and> skey (slots n ! pos) = Some k
      then (kKeyAlreadyInserted, pos) else (kKeyNotInserted, pos))"

definition IsRightmostOf :: "('k::linorder, 'v) node \<Rightarrow> ('k \<times> bool) option \<Rightarrow> bool" where
  "IsRightmostOf n end_key =
     (case next_ptr n of
        None \<Rightarrow> True
      | Some q \<Rightarrow>
          (case end_key of
             None \<Rightarrow> False
           | Some (ek, closed) \<Rightarrow>
               (case high_key n of None \<Rightarrow> True | Some hk \<Rightarrow> ek < hk)))"

definition SearchEndPositionFor ::
  "('k::linorder, 'v) node \<Rightarrow> ('k \<times> bool) option \<Rightarrow> bool \<times> nat" where
  "SearchEndPositionFor n end_key =
     (let is_end = IsRightmostOf n end_key in
      case end_key of
        None \<Rightarrow> (is_end, length (slots n))
      | Some (ek, closed) \<Rightarrow>
          if is_end then
            (case SearchRecord n ek of
               (rc, pos) \<Rightarrow>
                 (is_end, if rc = kKeyAlreadyInserted \<and> closed then Suc pos else pos))
          else (is_end, length (slots n)))"

text \<open>
  \<open>RecordIterator::HasNext\<close> (record_iterator.hpp, lines 96-118).  The outer loop
  follows sibling pointers and need not end, so the model is a partial function:
  \<open>None\<close> stands for a run that does not return (or that dereferences a page that
  does not exist).  The result is the returned flag, the iterator and the tree.
\<close>

partial_function (option) HasNext ::
  "'k::linorder iter \<Rightarrow> ('k, 'v) btree \<Rightarrow> (bool \<times> 'k iter \<times> ('k, 'v) btree) option" where
  "HasNext it t =
     (case heap t (it_node it) of
        None \<Rightarrow> None
      | Some n \<Rightarrow>
          (case skip_deleted (slots n) (it_pos it) (it_end_pos it) of
             None \<Rightarrow> None
           | Some pos \<Rightarrow>
               if pos < it_end_pos it then Some (True, it\<lparr>it_pos := pos\<rparr>, t)
               else if it_is_end it then
                 (case ReleaseSharedLock (it_node it) t of
                    None \<Rightarrow> None
                  | Some t1 \<Rightarrow> Some (False, it\<lparr>it_pos := pos\<rparr>, t1))
               else
                 (case GetNextNodeForRead (it_node it) t of
                    None \<Rightarrow> None
                  | Some (q, t1) \<Rightarrow>
                      (case heap t1 q of
                         None \<Rightarrow> None
                       | Some m \<Rightarrow>
                           (case SearchEndPositionFor m (it_end_key it) of
                              (e, ep) \<Rightarrow>
                                HasNext (it\<lparr>it_node := q, it_pos := 0, it_end_pos := ep, it_is_end := e\<rparr>) t1)))))"

subsection \<open>A two-leaf chain for the iterator\<close>

definition lock_coupled :: "ptr \<Rightarrow> ('k, 'v) node \<Rightarrow> ptr \<Rightarrow> ('k, 'v) node \<Rightarrow> ('k, 'v) btree \<Rightarrow> ('k, 'v) btree" where
  "lock_coupled p n q m t =
     set_node p (n\<lparr>s_locks := s_locks n - 1\<rparr>) (set_node q (m\<lparr>s_locks := Suc (s_locks m)\<rparr>) t)"

definition C8_leaf0 :: "(nat, nat) node" where
  "C8_leaf0 = \<lparr>is_inner = False,
     slots = [Slot (Some 1) (Val 10) True, Slot (Some 2) (Val 20) False],
     high_key = Some 3, next_ptr = Some 1, ver = 0, s_locks = 1, is_removed = False\<rparr>"

definition C8_leaf1 :: "(nat, nat) node" where
  "C8_leaf1 = \<lparr>is_inner = False,
     slots = [Slot (Some 3) (Val 30) True],
     high_key = None, next_ptr = None, ver = 0, s_locks = 1, is_removed = False\<rparr>"

definition C8_tree :: "(nat, nat) btree" where
  "C8_tree = \<lparr>heap = (\<lambda>p. None)(0 := Some C8_leaf0, 1 := Some C8_leaf1), root = 0,
     next_page = 2, garbage = [], guards = 1\<rparr>"

definition C8_it :: "nat \<Rightarrow> nat \<Rightarrow> nat \<Rightarrow> bool \<Rightarrow> nat iter" where
  "C8_it p i e b = \<lparr>it_node = p, it_pos = i, it_end_pos = e, it_end_key = None, it_is_end = b\<rparr>"

section \<open>Node operations\<close>

text \<open>
  The constants of \<open>common.hpp\<close> that the tree depends on, as parameters: the number of
  records a page holds (\<open>cap\<close>; the static assertion of b_tree.hpp, line 939, makes it
  at least two), the live-record count below which a node asks for a merge
  (\<open>min_recs\<close>), and the node capacities used by bulk loading (\<open>kLeafNodeCap\<close>,
  \<open>kInnerNodeCap\<close>, b_tree.hpp, lines 454 and 457).
\<close>

record config =
  cap :: nat
  min_recs :: nat
  kLeafNodeCap :: nat
  kInnerNodeCap :: nat

text \<open>
  The version counter occupies the bits of the version-and-lock word from bit 18 up
  (\<open>GetPreviousVersion\<close>, b_tree.hpp, lines 468-473); a committed modification adds one
  to it.
\<close>

definition GetPreviousVersion :: "64 word \<Rightarrow> 64 word" where
  "GetPreviousVersion v = push_bit 18 (drop_bit 18 v - 1)"

definition bump :: "('k, 'v) node \<Rightarrow> ('k, 'v) node" where
  "bump n = n\<lparr>ver := ver n + push_bit 18 1\<rparr>"

definition live :: "('k, 'v) slot list \<Rightarrow> ('k, 'v) slot list" where
  "live ss = filter (\<lambda>s. \<not> sdel s) ss"

definition new_node :: "bool \<Rightarrow> ('k, 'v) node" where
  "new_node inner = \<lparr>is_inner = inner, slots = [], high_key = None, next_ptr = None,
     ver = 0, s_locks = 0, is_removed = False\<rparr>"

text \<open>
  \<open>GetNodePage\<close> (b_tree.hpp, lines 480-486) followed by the placement of a node: the
  page is the allocator's next fresh one.  Reuse of reclaimed pages is not modelled;
  a page handed to the reclaimer stays in the store, flagged removed.
\<close>

definition alloc_node :: "('k, 'v) node \<Rightarrow> ('k, 'v) btree \<Rightarrow> ptr \<times> ('k, 'v) btree" where
  "alloc_node n t =
     (next_page t, t\<lparr>heap := (heap t)(next_page t := Some n), next_page := Suc (next_page t)\<rparr>)"

text \<open>
  Modelled from the spec: \<open>Node::CheckKeyRange\<close> and \<open>CheckKeyRangeAndLockForWrite\<close>
  (node headers absent).  Section 4.2: "if key \<ge> high key, release and traverse
  right-sibling chain until a node whose range includes key is found.  Returns that
  node (locked).  If the node is flagged deleted, signal root-retry."  The signal is
  the null pointer b_tree.hpp tests for, here \<open>Some None\<close>; \<open>None\<close> is a walk that
  does not return.  Lock words of writers are not part of the model: in a run
  without other actors every lock taken is free and is given back.
\<close>

partial_function (option) CheckKeyRange ::
  "('k::linorder, 'v) btree \<Rightarrow> ptr \<Rightarrow> 'k \<Rightarrow> ptr option option" where
  "CheckKeyRange t p k =
     (case heap t p of
        None \<Rightarrow> None
      | Some n \<Rightarrow>
          if is_removed n then Some None
          else
            (case high_key n of
               None \<Rightarrow> Some (Some p)
             | Some hk \<Rightarrow>
                 if k < hk then Some (Some p)
                 else (case next_ptr n of None \<Rightarrow> None | Some q \<Rightarrow> CheckKeyRange t q k)))"

text \<open>
  Modelled from the spec: \<open>Node::SearchChild\<close>.  Section 4.2: "returns the child
  pointer for the greatest routing key \<le> key"; the leftmost child serves the keys
  below every routing key.  The node reference is moved by the range recheck and is
  null (\<open>Some None\<close>) on the root-retry signal.
\<close>

definition child_pos :: "('k::linorder, 'v) slot list \<Rightarrow> 'k \<Rightarrow> nat" where
  "child_pos ss k =
     (let c = length (takeWhile (\<lambda>s. key_le (skey s) k) ss) in if c = 0 then 0 else c - 1)"

definition child_at :: "('k, 'v) node \<Rightarrow> nat \<Rightarrow> ptr option" where
  "child_at n i =
     (if i < length (slots n) then
        (case spay (slots n ! i) of Child q \<Rightarrow> Some q | Val v \<Rightarrow> None)
      else None)"

definition SearchChild ::
  "('k::linorder, 'v) btree \<Rightarrow> ptr \<Rightarrow> 'k \<Rightarrow> (ptr \<times> ptr) option option" where
  "SearchChild t p k =
     (case CheckKeyRange t p k of
        None \<Rightarrow> None
      | Some None \<Rightarrow> Some None
      | Some (Some q) \<Rightarrow>
          (case heap t q of
             None \<Rightarrow> None
           | Some n \<Rightarrow>
               (case child_at n (child_pos (slots n) k) of
                  None \<Rightarrow> None
                | Some c \<Rightarrow> Some (Some (q, c)))))"

text \<open>
  Modelled from the spec: \<open>Node::GetLeftmostChild\<close>; null when the node is flagged
  removed.
\<close>

definition GetLeftmostChild :: "('k, 'v) node \<Rightarrow> ptr option option" where
  "GetLeftmostChild n =
     (if is_removed n then Some None
      else (case child_at n 0 of None \<Rightarrow> None | Some c \<Rightarrow> Some (Some c)))"

text \<open>
  The leaf operations reach their node through the range recheck.  A leaf flagged
  removed leaves them with a null node, which they dereference: no result.
\<close>

definition locate :: "('k::linorder, 'v) btree \<Rightarrow> ptr \<Rightarrow> 'k \<Rightarrow> (ptr \<times> ('k, 'v) node) option" where
  "locate t p k =
     (case CheckKeyRange t p k of
        Some (Some q) \<Rightarrow> (case heap t q of None \<Rightarrow> None | Some n \<Rightarrow> Some (q, n))
      | _ \<Rightarrow> None)"

definition CheckKeyRangeAndLockForWrite ::
  "('k::linorder, 'v) btree \<Rightarrow> ptr \<Rightarrow> 'k \<Rightarrow> ptr option option" where
  "CheckKeyRangeAndLockForWrite t p k = CheckKeyRange t p k"

text \<open>
  Modelled from the spec: \<open>Node::Read\<close>.  Section 4.2: "returns key-present with
  payload or key-absent, together with the version observed at completion".  A slot
  marked deleted counts as absent.
\<close>

definition find_live :: "('k::linorder, 'v) node \<Rightarrow> 'k \<Rightarrow> (nat \<times> 'v) option" where
  "find_live n k =
     (case SearchRecord n k of
        (rc, pos) \<Rightarrow>
          if rc = kKeyAlreadyInserted \<and> \<not> sdel (slots n ! pos) then
            (case spay (slots n ! pos) of Val v \<Rightarrow> Some (pos, v) | Child q \<Rightarrow> None)
          else None)"

definition Node_Read ::
  "('k::linorder, 'v) btree \<Rightarrow> ptr \<Rightarrow> 'k \<Rightarrow> (ptr \<times> NodeRC \<times> 64 word \<times> 'v option) option" where
  "Node_Read t p k =
     (case locate t p k of
        None \<Rightarrow> None
      | Some (q, n) \<Rightarrow>
          (case find_live n k of
             Some (pos, v) \<Rightarrow> Some (q, kKeyAlreadyInserted, ver n, Some v)
           | None \<Rightarrow> Some (q, kKeyNotInserted, ver n, None)))"

text \<open>
  Modelled from the spec: \<open>Node::InsertRecord\<close>, \<open>Node::Write\<close> and \<open>Node::Insert\<close>.
  Section 4.2, insert: "if present, return key-present with the existing payload and
  the current version; otherwise determine whether free space suffices.  If not,
  return need-split without mutating.  Otherwise shift slots (variable-length layout
  compacts when needed), write the record, bump version, return success with new
  version."  Write: "if present, overwrite in place; else behaves like insert".
  A slot of the key that is marked deleted is written in place.  A full page is
  compacted (its deleted slots dropped) when that makes room.
\<close>

definition InsertRecord ::
  "('k, 'v) node \<Rightarrow> 'k \<Rightarrow> 'v pay \<Rightarrow> nat \<Rightarrow> ('k, 'v) node" where
  "InsertRecord n k v pos =
     bump (n\<lparr>slots := take pos (slots n) @ [Slot (Some k) v False] @ drop pos (slots n)\<rparr>)"

definition overwrite :: "('k, 'v) node \<Rightarrow> 'k \<Rightarrow> 'v pay \<Rightarrow> nat \<Rightarrow> ('k, 'v) node" where
  "overwrite n k v pos = bump (n\<lparr>slots := (slots n)[pos := Slot (Some k) v False]\<rparr>)"

definition make_room :: "config \<Rightarrow> ('k, 'v) node \<Rightarrow> ('k, 'v) node option" where
  "make_room c n =
     (if length (slots n) < cap c then Some n
      else if length (live (slots n)) < cap c then Some (n\<lparr>slots := live (slots n)\<rparr>)
      else None)"

definition add_record ::
  "config \<Rightarrow> ('k::linorder, 'v) node \<Rightarrow> 'k \<Rightarrow> 'v pay \<Rightarrow> NodeRC \<times> ('k, 'v) node" where
  "add_record c n k v =
     (case make_room c n of
        None \<Rightarrow> (kNeedSplit, n)
      | Some m \<Rightarrow> (kCompleted, InsertRecord m k v (lower_pos (slots m) k)))"

definition node_Write ::
  "config \<Rightarrow> ('k::linorder, 'v) node \<Rightarrow> 'k \<Rightarrow> 'v \<Rightarrow> NodeRC \<times> ('k, 'v) node" where
  "node_Write c n k v =
     (case SearchRecord n k of
        (rc, pos) \<Rightarrow>
          if rc = kKeyAlreadyInserted then (kCompleted, overwrite n k (Val v) pos)
          else add_record c n k (Val v))"

definition Node_Insert ::
  "config \<Rightarrow> ('k::linorder, 'v) btree \<Rightarrow> ptr \<Rightarrow> 'k \<Rightarrow> 'v \<Rightarrow>
     (ptr \<times> NodeRC \<times> 64 word \<times> 'v option \<times> ('k, 'v) btree) option" where
  "Node_Insert c t p k v =
     (case locate t p k of
        None \<Rightarrow> None
      | Some (q, n) \<Rightarrow>
          (case find_live n k of
             Some (pos, old) \<Rightarrow> Some (q, kKeyAlreadyInserted, ver n, Some old, t)
           | None \<Rightarrow>
               (case node_Write c n k v of
                  (rc, m) \<Rightarrow>
                    if rc = kNeedSplit then Some (q, kNeedSplit, ver n, None, t)
                    else Some (q, kCompleted, ver m, None, set_node q m t))))"

text \<open>
  Modelled from the spec: \<open>Node::Update\<close> and \<open>Node::Delete\<close>.  Section 4.2, update:
  "if absent, return key-absent; else overwrite and bump version"; delete: "if
  absent, key-absent.  Otherwise, mark the slot deleted and bump version.  If
  resulting live-record count ... falls below the merge threshold, return
  need-merge."
\<close>

definition Node_Update ::
  "('k::linorder, 'v) btree \<Rightarrow> ptr \<Rightarrow> 'k \<Rightarrow> 'v \<Rightarrow> (ReturnCode \<times> ('k, 'v) btree) option" where
  "Node_Update t p k v =
     (case locate t p k of
        None \<Rightarrow> None
      | Some (q, n) \<Rightarrow>
          (case find_live n k of
             None \<Rightarrow> Some (kKeyNotExist, t)
           | Some (pos, old) \<Rightarrow> Some (kSuccess, set_node q (overwrite n k (Val v) pos) t)))"

definition mark_deleted :: "('k, 'v) node \<Rightarrow> nat \<Rightarrow> ('k, 'v) node" where
  "mark_deleted n pos =
     bump (n\<lparr>slots := (slots n)[pos := Slot (skey (slots n ! pos)) (spay (slots n ! pos)) True]\<rparr>)"

definition Node_Delete ::
  "config \<Rightarrow> ('k::linorder, 'v) btree \<Rightarrow> ptr \<Rightarrow> 'k \<Rightarrow>
     (ptr \<times> NodeRC \<times> ('k, 'v) btree) option" where
  "Node_Delete c t p k =
     (case locate t p k of
        None \<Rightarrow> None
      | Some (q, n) \<Rightarrow>
          (case find_live n k of
             None \<Rightarrow> Some (q, kKeyNotInserted, t)
           | Some (pos, old) \<Rightarrow>
               (let m = mark_deleted n pos in
                Some (q, if length (live (slots m)) < min_recs c then kNeedMerge else kCompleted,
                      set_node q m t))))"

subsection \<open>Structure modification on nodes\<close>

text \<open>
  Modelled from the spec: \<open>Node::Split\<close>.  Section 4.2: "Move the upper half of live
  records to right, set right.right_sibling = self.right_sibling,
  self.right_sibling = right, set high keys, bump versions on both".  The high key
  of the left node becomes the first key of the right node; the right node takes
  the old high key.
\<close>

definition Split :: "ptr \<Rightarrow> ptr \<Rightarrow> ('k, 'v) btree \<Rightarrow> ('k, 'v) btree option" where
  "Split l r t =
     (case heap t l of
        None \<Rightarrow> None
      | Some ln \<Rightarrow>
          (case heap t r of
             None \<Rightarrow> None
           | Some rn \<Rightarrow>
               (let lv = live (slots ln);
                    h = length lv div 2;
                    rs = drop h lv;
                    sep = (case rs of [] \<Rightarrow> high_key ln | s # _ \<Rightarrow> skey s)
                in Some (set_node r
                           (bump (rn\<lparr>slots := rs, high_key := high_key ln, next_ptr := next_ptr ln\<rparr>))
                           (set_node l
                              (bump (ln\<lparr>slots := take h lv, high_key := sep, next_ptr := Some r\<rparr>))
                              t)))))"

text \<open>\<open>HalfSplit\<close> (b_tree.hpp, lines 670-678).\<close>

definition HalfSplit :: "ptr \<Rightarrow> ('k, 'v) btree \<Rightarrow> (ptr \<times> ('k, 'v) btree) option" where
  "HalfSplit l t =
     (case heap t l of
        None \<Rightarrow> None
      | Some ln \<Rightarrow>
          (case alloc_node (new_node (is_inner ln)) t of
             (r, t1) \<Rightarrow> (case Split l r t1 of None \<Rightarrow> None | Some t2 \<Rightarrow> Some (r, t2))))"

text \<open>
  Modelled from the spec: \<open>Node::GetValidSplitNode\<close> and \<open>Node::GetSeparatorKey\<close>.
  After a split the key belongs to the left node when it is below the left node's
  high key, to the right node otherwise.  Section 9: the separator is "the smallest
  key of the right node for went-right cases and the original split boundary
  otherwise".
\<close>

definition GetValidSplitNode :: "('k::linorder, 'v) btree \<Rightarrow> ptr \<Rightarrow> 'k \<Rightarrow> ptr option" where
  "GetValidSplitNode t l k =
     (case heap t l of
        None \<Rightarrow> None
      | Some ln \<Rightarrow>
          (case high_key ln of
             None \<Rightarrow> Some l
           | Some hk \<Rightarrow> if k < hk then Some l else next_ptr ln))"

definition GetSeparatorKey :: "('k, 'v) node \<Rightarrow> bool \<Rightarrow> 'k option" where
  "GetSeparatorKey n is_left =
     (if is_left then high_key n
      else (case slots n of [] \<Rightarrow> None | s # _ \<Rightarrow> skey s))"

text \<open>
  Modelled from the spec: \<open>Node::InsertChild\<close> and \<open>Node::DeleteChild\<close>.  Section 4.2:
  "maintain routing invariants.  Return need-split / need-merge / completed; also
  abort-merge when the sibling is no longer mergeable ... and need-retry when an
  incomplete concurrent SMO is detected".  The comments of b_tree.hpp (lines 738
  and 823) say what is detected: an entry of the separator that is still there when
  a child is inserted (a merge not finished), an entry that is not there yet when a
  child is deleted (a split not finished).  A merge is given up when the right
  child is the leftmost child of the node, its left sibling hanging under another
  parent.
\<close>

definition InsertChild ::
  "config \<Rightarrow> ('k::linorder, 'v) node \<Rightarrow> ptr \<Rightarrow> 'k \<Rightarrow> NodeRC \<times> ('k, 'v) node" where
  "InsertChild c n r k =
     (case SearchRecord n k of
        (rc, pos) \<Rightarrow>
          if rc = kKeyAlreadyInserted then (kNeedRetry, n)
          else if cap c \<le> length (slots n) then (kNeedSplit, n)
          else (kCompleted, InsertRecord n k (Child r) pos))"

definition DeleteChild ::
  "config \<Rightarrow> ('k::linorder, 'v) node \<Rightarrow> 'k \<Rightarrow> NodeRC \<times> ('k, 'v) node" where
  "DeleteChild c n k =
     (case SearchRecord n k of
        (rc, pos) \<Rightarrow>
          if rc \<noteq> kKeyAlreadyInserted then (kNeedRetry, n)
          else if pos = 0 then (kAbortMerge, n)
          else
            (let m = bump (n\<lparr>slots := take pos (slots n) @ drop (Suc pos) (slots n)\<rparr>)
             in (if length (slots m) < min_recs c then kNeedMerge else kCompleted, m)))"

text \<open>
  Modelled from the spec: \<open>Node::GetMergeableSiblingNode\<close> and \<open>Node::Merge\<close>.
  Section 4.3: "returns the right sibling if combined occupancy fits, else nothing";
  section 4.2: "Append right's live records to self; adopt right.high_key and
  right.right_sibling.  Bump version on self.  The right node is flagged deleted and
  handed to the reclaimer by the caller."
\<close>

definition GetMergeableSiblingNode ::
  "config \<Rightarrow> ('k, 'v) btree \<Rightarrow> ('k, 'v) node \<Rightarrow> ptr option" where
  "GetMergeableSiblingNode c t ln =
     (case next_ptr ln of
        None \<Rightarrow> None
      | Some r \<Rightarrow>
          (case heap t r of
             None \<Rightarrow> None
           | Some rn \<Rightarrow>
               if length (slots ln) + length (live (slots rn)) \<le> cap c then Some r else None))"

definition Merge_nodes :: "ptr \<Rightarrow> ptr \<Rightarrow> ('k, 'v) btree \<Rightarrow> ('k, 'v) btree option" where
  "Merge_nodes l r t =
     (case heap t l of
        None \<Rightarrow> None
      | Some ln \<Rightarrow>
          (case heap t r of
             None \<Rightarrow> None
           | Some rn \<Rightarrow>
               Some (set_node r (rn\<lparr>is_removed := True\<rparr>)
                      (set_node l
                         (bump (ln\<lparr>slots := slots ln @ live (slots rn),
                                   high_key := high_key rn, next_ptr := next_ptr rn\<rparr>))
                         t))))"

definition AddGarbage :: "ptr \<Rightarrow> ('k, 'v) btree \<Rightarrow> ('k, 'v) btree" where
  "AddGarbage p t = t\<lparr>garbage := p # garbage t\<rparr>"

text \<open>
  Modelled from the spec: the root constructor \<open>Node{l_key, l_key_len, l_child,
  r_child}\<close> and \<open>Node::RemoveRoot\<close>.  Section 4.3: "a new root node containing two
  children {L, R}"; "retire the old root and publish its sole child as the new
  root".
\<close>

definition root_node :: "'k \<Rightarrow> ptr \<Rightarrow> ptr \<Rightarrow> ('k, 'v) node" where
  "root_node k l r =
     (new_node True)\<lparr>slots := [Slot None (Child l) False, Slot (Some k) (Child r) False]\<rparr>"

definition RemoveRoot :: "ptr \<Rightarrow> ('k, 'v) btree \<Rightarrow> (ptr \<times> ('k, 'v) btree) option" where
  "RemoveRoot p t =
     (case heap t p of
        None \<Rightarrow> None
      | Some n \<Rightarrow>
          (case child_at n 0 of
             None \<Rightarrow> None
           | Some c \<Rightarrow> Some (c, set_node p (n\<lparr>is_removed := True\<rparr>) t)))"

section \<open>The tree\<close>

text \<open>
  The constructor (b_tree.hpp, lines 85-97): one empty leaf as the root.
\<close>

definition empty_tree :: "('k, 'v) btree" where
  "empty_tree =
     \<lparr>heap = (\<lambda>p. None)(0 := Some (new_node False)), root = 0, next_page = 1,
      garbage = [], guards = 0\<rparr>"

subsection \<open>Descent\<close>

text \<open>
  \<open>SearchLeafNode\<close> (lines 494-512), \<open>SearchLeftmostLeaf\<close> (lines 519-532) and
  \<open>SearchLeafNodeForWrite\<close> (lines 540-564).  Each is a loop over pages and is a
  partial function; a stack is a list whose last element is the back of the vector.
\<close>

partial_function (option) SearchLeafNode_loop ::
  "('k::linorder, 'v) btree \<Rightarrow> ptr \<Rightarrow> 'k \<Rightarrow> ptr option" where
  "SearchLeafNode_loop t node k =
     (case heap t node of
        None \<Rightarrow> None
      | Some n \<Rightarrow>
          if is_inner n then
            (case SearchChild t node k of
               None \<Rightarrow> None
             | Some None \<Rightarrow> SearchLeafNode_loop t (root t) k
             | Some (Some (q, child)) \<Rightarrow> SearchLeafNode_loop t child k)
          else Some node)"

definition SearchLeafNode :: "('k::linorder, 'v) btree \<Rightarrow> 'k \<Rightarrow> ptr option" where
  "SearchLeafNode t k = SearchLeafNode_loop t (root t) k"

partial_function (option) SearchLeftmostLeaf_loop ::
  "('k, 'v) btree \<Rightarrow> ptr \<Rightarrow> ptr option" where
  "SearchLeftmostLeaf_loop t node =
     (case heap t node of
        None \<Rightarrow> None
      | Some n \<Rightarrow>
          if is_inner n then
            (case GetLeftmostChild n of
               None \<Rightarrow> None
             | Some None \<Rightarrow> SearchLeftmostLeaf_loop t (root t)
             | Some (Some child) \<Rightarrow> SearchLeftmostLeaf_loop t child)
          else Some node)"

definition SearchLeftmostLeaf :: "('k, 'v) btree \<Rightarrow> ptr option" where
  "SearchLeftmostLeaf t = SearchLeftmostLeaf_loop t (root t)"

partial_function (option) SearchLeafNodeForWrite_loop ::
  "('k::linorder, 'v) btree \<Rightarrow> ptr list \<Rightarrow> ptr \<Rightarrow> 'k \<Rightarrow> ptr list option" where
  "SearchLeafNodeForWrite_loop t stack node k =
     (case heap t node of
        None \<Rightarrow> None
      | Some n \<Rightarrow>
          if is_inner n then
            (case SearchChild t node k of
               None \<Rightarrow> None
             | Some None \<Rightarrow> SearchLeafNodeForWrite_loop t [] (root t) k
             | Some (Some (q, child)) \<Rightarrow> SearchLeafNodeForWrite_loop t (stack @ [q]) child k)
          else Some (stack @ [node]))"

definition SearchLeafNodeForWrite :: "('k::linorder, 'v) btree \<Rightarrow> 'k \<Rightarrow> ptr list option" where
  "SearchLeafNodeForWrite t k = SearchLeafNodeForWrite_loop t [] (root t) k"

text \<open>
  \<open>SearchParentNode\<close> (lines 573-600).  The local \<open>child\<close> starts null and keeps its
  last value when the node at hand is a leaf; following a null \<open>child\<close> has no
  result.
\<close>

partial_function (option) SearchParentNode_loop ::
  "('k::linorder, 'v) btree \<Rightarrow> ptr list \<Rightarrow> ptr \<Rightarrow> ptr option \<Rightarrow> 'k \<Rightarrow> ptr \<Rightarrow> ptr list option" where
  "SearchParentNode_loop t stack node child k target =
     (case heap t node of
        None \<Rightarrow> None
      | Some n \<Rightarrow>
          if is_inner n then
            (case SearchChild t node k of
               None \<Rightarrow> None
             | Some None \<Rightarrow> SearchParentNode_loop t [] (root t) child k target
             | Some (Some (q, c)) \<Rightarrow>
                 if q = target then Some stack
                 else SearchParentNode_loop t (stack @ [q]) c (Some c) k target)
          else
            (case CheckKeyRange t node k of
               None \<Rightarrow> None
             | Some None \<Rightarrow> SearchParentNode_loop t [] (root t) child k target
             | Some (Some q) \<Rightarrow>
                 if q = target then Some stack
                 else
                   (case child of
                      None \<Rightarrow> None
                    | Some c \<Rightarrow> SearchParentNode_loop t (stack @ [q]) c child k target)))"

definition SearchParentNode ::
  "('k::linorder, 'v) btree \<Rightarrow> ptr list \<Rightarrow> 'k \<Rightarrow> ptr \<Rightarrow> ptr list option" where
  "SearchParentNode t stack k target = SearchParentNode_loop t stack (root t) None k target"

subsection \<open>Split completion\<close>

text \<open>\<open>TryRootSplit\<close> (lines 753-768).\<close>

definition TryRootSplit ::
  "('k, 'v) btree \<Rightarrow> ptr \<Rightarrow> ptr \<Rightarrow> 'k \<Rightarrow> bool \<times> ('k, 'v) btree" where
  "TryRootSplit t l_child r_child l_key =
     (if root t \<noteq> l_child then (False, t)
      else
        (case alloc_node (root_node l_key l_child r_child) t of
           (new_root, t1) \<Rightarrow> (True, t1\<lparr>root := new_root\<rparr>)))"

text \<open>
  \<open>CompleteSplit\<close> (lines 689-741).  \<open>CompleteSplit_loop\<close> is the \<open>while (true)\<close> of
  the source with its locals: the stack, the current parent candidate \<open>node\<close> (null
  at first), the two children and the separator.  The recursive call of line 734
  pops the stack and enters the loop again, one level up.
\<close>

partial_function (option) CompleteSplit_loop ::
  "config \<Rightarrow> ('k::linorder, 'v) btree \<Rightarrow> ptr list \<Rightarrow> ptr option \<Rightarrow> ptr \<Rightarrow> ptr \<Rightarrow> 'k \<Rightarrow>
     ('k, 'v) btree option" where
  "CompleteSplit_loop c t stack node l_child r_child l_key =
     (if stack = [] then
        (case TryRootSplit t l_child r_child l_key of
           (done, t1) \<Rightarrow>
             if done then Some t1
             else
               (case SearchParentNode t1 stack l_key r_child of
                  None \<Rightarrow> None
                | Some stack1 \<Rightarrow> CompleteSplit_loop c t1 stack1 node l_child r_child l_key))
      else
        (case CheckKeyRangeAndLockForWrite t (case node of None \<Rightarrow> last stack | Some p \<Rightarrow> p) l_key of
           None \<Rightarrow> None
         | Some None \<Rightarrow>
             (case TryRootSplit t l_child r_child l_key of
                (done, t1) \<Rightarrow>
                  if done then Some t1
                  else
                    (case SearchParentNode t1 stack l_key r_child of
                       None \<Rightarrow> None
                     | Some stack1 \<Rightarrow> CompleteSplit_loop c t1 stack1 None l_child r_child l_key))
         | Some (Some p) \<Rightarrow>
             (case heap t p of
                None \<Rightarrow> None
              | Some n \<Rightarrow>
                  (case InsertChild c n r_child l_key of
                     (rc, n1) \<Rightarrow>
                       if rc = kCompleted then Some (set_node p n1 t)
                       else if rc = kNeedSplit then
                         (case HalfSplit p t of
                            None \<Rightarrow> None
                          | Some (r_node, t1) \<Rightarrow>
                              (case GetValidSplitNode t1 p l_key of
                                 None \<Rightarrow> None
                               | Some target \<Rightarrow>
                                   (case heap t1 target of
                                      None \<Rightarrow> None
                                    | Some tn \<Rightarrow>
                                        (case InsertChild c tn r_child l_key of
                                           (rc2, tn1) \<Rightarrow>
                                             (case GetSeparatorKey tn1 (target = p) of
                                                None \<Rightarrow> None
                                              | Some sep_key \<Rightarrow>
                                                  CompleteSplit_loop c (set_node target tn1 t1)
                                                    (butlast stack) None p r_node sep_key)))))
                       else CompleteSplit_loop c t stack (Some p) l_child r_child l_key))))"

definition CompleteSplit ::
  "config \<Rightarrow> ('k::linorder, 'v) btree \<Rightarrow> ptr list \<Rightarrow> ptr \<Rightarrow> ptr \<Rightarrow> 'k \<Rightarrow> ('k, 'v) btree option" where
  "CompleteSplit c t stack l_child r_child l_key =
     (if stack = [] then None
      else CompleteSplit_loop c t (butlast stack) None l_child r_child l_key)"

subsection \<open>Merge completion\<close>

text \<open>
  \<open>TryShrinkTree\<close> (lines 848-860): the \<open>do ... while\<close> of lines 852-855, then the
  store to the root.
\<close>

partial_function (option) shrink_loop ::
  "('k, 'v) btree \<Rightarrow> ptr \<Rightarrow> (ptr \<times> ('k, 'v) btree) option" where
  "shrink_loop t node =
     (case RemoveRoot node (AddGarbage node t) of
        None \<Rightarrow> None
      | Some (child, t1) \<Rightarrow>
          (case heap t1 child of
             None \<Rightarrow> None
           | Some cn \<Rightarrow>
               if length (slots cn) = 1 \<and> is_inner cn then shrink_loop t1 child
               else Some (child, t1)))"

definition TryShrinkTree :: "('k, 'v) btree \<Rightarrow> ptr \<Rightarrow> ('k, 'v) btree option" where
  "TryShrinkTree t node =
     (case heap t node of
        None \<Rightarrow> None
      | Some n \<Rightarrow>
          if node = root t \<and> length (slots n) = 1 then
            (case shrink_loop t node of
               None \<Rightarrow> None
             | Some (new_root, t1) \<Rightarrow> Some (t1\<lparr>root := new_root\<rparr>))
          else Some t)"

text \<open>
  \<open>Merge\<close> (lines 776-841).  \<open>Merge_loop\<close> is the \<open>while (true)\<close> with its locals:
  the stack, the parent candidate \<open>node\<close> and the left child.
\<close>

partial_function (option) Merge_loop ::
  "config \<Rightarrow> ('k::linorder, 'v) btree \<Rightarrow> ptr list \<Rightarrow> ptr option \<Rightarrow> ptr \<Rightarrow> ('k, 'v) btree option" where
  "Merge_loop c t stack node l_child =
     (case heap t l_child of
        None \<Rightarrow> None
      | Some ln \<Rightarrow>
          (case GetMergeableSiblingNode c t ln of
             None \<Rightarrow> Some t
           | Some r_child \<Rightarrow>
               (case high_key ln of
                  None \<Rightarrow> None
                | Some del_key \<Rightarrow>
                    if stack = [] then
                      (case SearchParentNode t stack del_key r_child of
                         None \<Rightarrow> None
                       | Some stack1 \<Rightarrow> Merge_loop c t stack1 node l_child)
                    else
                      (let nd = (case node of None \<Rightarrow> last stack | Some p \<Rightarrow> p);
                           stack1 = (case node of None \<Rightarrow> butlast stack | Some p \<Rightarrow> stack)
                       in case CheckKeyRangeAndLockForWrite t nd del_key of
                            None \<Rightarrow> None
                          | Some None \<Rightarrow>
                              (case SearchParentNode t stack1 del_key r_child of
                                 None \<Rightarrow> None
                               | Some stack2 \<Rightarrow> Merge_loop c t stack2 None l_child)
                          | Some (Some p) \<Rightarrow>
                              (case heap t p of
                                 None \<Rightarrow> None
                               | Some pn \<Rightarrow>
                                   (case DeleteChild c pn del_key of
                                      (rc, pn1) \<Rightarrow>
                                        if rc = kCompleted then
                                          map_option (AddGarbage r_child)
                                            (Merge_nodes l_child r_child (set_node p pn1 t))
                                        else if rc = kAbortMerge then Some t
                                        else if rc = kNeedRetry then
                                          Merge_loop c t stack1 (Some p) l_child
                                        else
                                          (case map_option (AddGarbage r_child)
                                                  (Merge_nodes l_child r_child (set_node p pn1 t)) of
                                             None \<Rightarrow> None
                                           | Some t1 \<Rightarrow>
                                               if stack1 = [] then TryShrinkTree t1 p
                                               else Merge_loop c t1 stack1 None p)))))))"

definition Merge ::
  "config \<Rightarrow> ('k::linorder, 'v) btree \<Rightarrow> ptr list \<Rightarrow> ptr \<Rightarrow> ('k, 'v) btree option" where
  "Merge c t stack l_child =
     (if stack = [] then None else Merge_loop c t (butlast stack) None l_child)"

subsection \<open>Public operations\<close>

type_synonym NodeInfo = "ptr \<times> 64 word \<times> 64 word"

text \<open>\<open>Read\<close> (lines 131-147): the payload, if any, and the node information.\<close>

definition Read :: "('k::linorder, 'v) btree \<Rightarrow> 'k \<Rightarrow> ('v option \<times> NodeInfo) option" where
  "Read t key =
     (case SearchLeafNode t key of
        None \<Rightarrow> None
      | Some node \<Rightarrow>
          (case Node_Read t node key of
             None \<Rightarrow> None
           | Some (node1, rc, version, payload) \<Rightarrow>
               Some (if rc = kKeyAlreadyInserted then payload else None,
                     (node1, version, version))))"

text \<open>\<open>Write\<close> (lines 182-209).\<close>

definition Write ::
  "config \<Rightarrow> ('k::linorder, 'v) btree \<Rightarrow> 'k \<Rightarrow> 'v \<Rightarrow> (ReturnCode \<times> ('k, 'v) btree) option" where
  "Write c t key payload =
     (case SearchLeafNodeForWrite t key of
        None \<Rightarrow> None
      | Some stack \<Rightarrow>
          (case locate t (last stack) key of
             None \<Rightarrow> None
           | Some (node, n) \<Rightarrow>
               (case node_Write c n key payload of
                  (rc, n1) \<Rightarrow>
                    if rc = kNeedSplit then
                      (case HalfSplit node t of
                         None \<Rightarrow> None
                       | Some (r_node, t1) \<Rightarrow>
                           (case GetValidSplitNode t1 node key of
                              None \<Rightarrow> None
                            | Some target \<Rightarrow>
                                (case heap t1 target of
                                   None \<Rightarrow> None
                                 | Some tn \<Rightarrow>
                                     (let tn1 = InsertRecord tn key (Val payload) (snd (SearchRecord tn key))
                                      in case GetSeparatorKey tn1 (target = node) of
                                           None \<Rightarrow> None
                                         | Some sep_key \<Rightarrow>
                                             map_option (Pair kSuccess)
                                               (CompleteSplit c (set_node target tn1 t1) stack
                                                  node r_node sep_key)))))
                    else Some (kSuccess, set_node node n1 t))))"

text \<open>
  \<open>Insert\<close> (lines 222-257): the code, the payload found (\<open>out_payload\<close>), the node
  information and the tree.
\<close>

definition Insert ::
  "config \<Rightarrow> ('k::linorder, 'v) btree \<Rightarrow> 'k \<Rightarrow> 'v \<Rightarrow>
     (ReturnCode \<times> 'v option \<times> NodeInfo \<times> ('k, 'v) btree) option" where
  "Insert c t key payload =
     (case SearchLeafNodeForWrite t key of
        None \<Rightarrow> None
      | Some stack \<Rightarrow>
          (case Node_Insert c t (last stack) key payload of
             None \<Rightarrow> None
           | Some (node, rc, ver0, out_payload, t0) \<Rightarrow>
               if rc = kKeyAlreadyInserted then Some (kKeyExist, out_payload, (node, ver0, ver0), t0)
               else if rc = kNeedSplit then
                 (case HalfSplit node t0 of
                    None \<Rightarrow> None
                  | Some (r_node, t1) \<Rightarrow>
                      (case GetValidSplitNode t1 node key of
                         None \<Rightarrow> None
                       | Some target \<Rightarrow>
                           (case heap t1 target of
                              None \<Rightarrow> None
                            | Some tn \<Rightarrow>
                                (let tn1 = InsertRecord tn key (Val payload) (snd (SearchRecord tn key))
                                 in case GetSeparatorKey tn1 (target = node) of
                                      None \<Rightarrow> None
                                    | Some sep_key \<Rightarrow>
                                        map_option
                                          (\<lambda>t2. (kSuccess, out_payload,
                                                 (target, ver tn1, GetPreviousVersion (ver tn1)), t2))
                                          (CompleteSplit c (set_node target tn1 t1) stack
                                             node r_node sep_key)))))
               else Some (kSuccess, out_payload, (node, ver0, GetPreviousVersion ver0), t0)))"

text \<open>\<open>Update\<close> (lines 268-279) and \<open>Delete\<close> (lines 289-307).\<close>

definition Update ::
  "('k::linorder, 'v) btree \<Rightarrow> 'k \<Rightarrow> 'v \<Rightarrow> (ReturnCode \<times> ('k, 'v) btree) option" where
  "Update t key payload =
     (case SearchLeafNode t key of
        None \<Rightarrow> None
      | Some node \<Rightarrow> Node_Update t node key payload)"

definition Delete ::
  "config \<Rightarrow> ('k::linorder, 'v) btree \<Rightarrow> 'k \<Rightarrow> (ReturnCode \<times> ('k, 'v) btree) option" where
  "Delete c t key =
     (case SearchLeafNodeForWrite t key of
        None \<Rightarrow> None
      | Some stack \<Rightarrow>
          (case Node_Delete c t (last stack) key of
             None \<Rightarrow> None
           | Some (node, rc, t1) \<Rightarrow>
               if rc = kKeyNotInserted then Some (kKeyNotExist, t1)
               else if rc = kNeedMerge then map_option (Pair kSuccess) (Merge c t1 stack node)
               else Some (kSuccess, t1)))"

subsection \<open>Scan\<close>

text \<open>
  \<open>Scan\<close> (lines 157-168) takes an epoch guard, descends to the leaf of the begin key
  (or to the leftmost leaf) and builds the iterator, which keeps the guard.
  Modelled from the spec: the construction of the iterator out of the node and the
  two scan keys is in a header that is absent.  Section 4.4 names what the cursor
  holds; the start position is the position of the begin key in the node (one
  further when the key is stored and the range is open), the node is held in S
  mode, and the end position and last-leaf flag are those of
  \<open>SearchEndPositionFor\<close>.
\<close>

type_synonym 'k ScanKey = "('k \<times> bool) option"

definition Scan ::
  "('k::linorder, 'v) btree \<Rightarrow> 'k ScanKey \<Rightarrow> 'k ScanKey \<Rightarrow> ('k iter \<times> ('k, 'v) btree) option" where
  "Scan t begin_key end_key =
     (case (case begin_key of
              None \<Rightarrow> SearchLeftmostLeaf t
            | Some (bk, closed) \<Rightarrow>
                (case SearchLeafNode t bk of
                   None \<Rightarrow> None
                 | Some p \<Rightarrow> map_option fst (locate t p bk))) of
        None \<Rightarrow> None
      | Some node \<Rightarrow>
          (case heap t node of
             None \<Rightarrow> None
           | Some n \<Rightarrow>
               (let begin_pos =
                      (case begin_key of
                         None \<Rightarrow> 0
                       | Some (bk, closed) \<Rightarrow>
                           (case SearchRecord n bk of
                              (rc, pos) \<Rightarrow>
                                if rc = kKeyAlreadyInserted \<and> \<not> closed then Suc pos else pos))
                in case SearchEndPositionFor n end_key of
                     (is_end, end_pos) \<Rightarrow>
                       map_option
                         (\<lambda>t1. (\<lparr>it_node = node, it_pos = begin_pos, it_end_pos = end_pos,
                                  it_end_key = end_key, it_is_end = is_end\<rparr>,
                                t1\<lparr>guards := Suc (guards t1)\<rparr>))
                         (AcquireSharedLock node t))))"

text \<open>
  The dereference \<open>operator*\<close> (record_iterator.hpp, lines 73-78) and the way a caller
  drains an iterator: \<open>while (iter.HasNext()) { use *iter; ++iter; }\<close>.
\<close>

definition GetRecord :: "('k, 'v) btree \<Rightarrow> 'k iter \<Rightarrow> ('k \<times> 'v) option" where
  "GetRecord t it =
     (case heap t (it_node it) of
        None \<Rightarrow> None
      | Some n \<Rightarrow>
          if it_pos it < length (slots n) then
            (case slots n ! it_pos it of
               Slot (Some k) (Val v) d \<Rightarrow> Some (k, v)
             | _ \<Rightarrow> None)
          else None)"

partial_function (option) drain ::
  "'k::linorder iter \<Rightarrow> ('k, 'v) btree \<Rightarrow> (('k \<times> 'v) list \<times> ('k, 'v) btree) option" where
  "drain it t =
     (case HasNext it t of
        None \<Rightarrow> None
      | Some (has, it1, t1) \<Rightarrow>
          if has then
            (case GetRecord t1 it1 of
               None \<Rightarrow> None
             | Some r \<Rightarrow>
                 Option.bind (drain (it1\<lparr>it_pos := Suc (it_pos it1)\<rparr>) t1)
                   (\<lambda>(rs, t2). Some (r # rs, t2)))
          else Some ([], t1))"

definition scan_all ::
  "('k::linorder, 'v) btree \<Rightarrow> 'k ScanKey \<Rightarrow> 'k ScanKey \<Rightarrow> ('k \<times> 'v) list option" where
  "scan_all t begin_key end_key =
     (case Scan t begin_key end_key of
        None \<Rightarrow> None
      | Some (it, t1) \<Rightarrow> map_option fst (drain it t1))"

subsection \<open>Bulk loading\<close>

text \<open>
  Modelled from the spec: \<open>Node::Bulkload\<close>, \<open>Node::LinkVerticalBorderNodes\<close> and
  \<open>Node::RemoveLeftmostKeys\<close> (node headers absent).  Section 4.2: "fill the node
  greedily up to a target occupancy ..., link prev.right_sibling = self, push a
  routing entry (first_key_of_self, self, first_key_len) into out_nodes"; the
  previous node's high key becomes the first key of the node.  Section 4.5: "the
  rightmost spine of partial i is linked to the leftmost spine of partial i+1 at
  each level"; "Strip the leftmost key of the root".  The entries of a layer are
  given as slots: key and payload for a leaf, key and child for an inner node.
\<close>

definition link_prev :: "ptr option \<Rightarrow> ptr \<Rightarrow> 'k option \<Rightarrow> ('k, 'v) btree \<Rightarrow> ('k, 'v) btree" where
  "link_prev prev p k t =
     (case prev of
        None \<Rightarrow> t
      | Some q \<Rightarrow>
          (case heap t q of
             None \<Rightarrow> t
           | Some qn \<Rightarrow> set_node q (qn\<lparr>next_ptr := Some p, high_key := k\<rparr>) t))"

definition first_key :: "('k, 'v) slot list \<Rightarrow> 'k option" where
  "first_key ss = (case ss of [] \<Rightarrow> None | s # _ \<Rightarrow> skey s)"

definition Node_Bulkload ::
  "nat \<Rightarrow> ptr \<Rightarrow> ('k, 'v) slot list \<Rightarrow> ptr option \<Rightarrow> ('k, 'v) slot list \<Rightarrow> ('k, 'v) btree \<Rightarrow>
     ('k, 'v) slot list \<times> ('k, 'v) slot list \<times> ('k, 'v) btree" where
  "Node_Bulkload fill p entries prev nodes t =
     (case heap t p of
        None \<Rightarrow> (entries, nodes, t)
      | Some n \<Rightarrow>
          (let mine = take fill entries;
               t1 = set_node p (n\<lparr>slots := mine\<rparr>) t
           in (drop fill entries,
               nodes @ [Slot (first_key mine) (Child p) False],
               link_prev prev p (first_key mine) t1)))"

text \<open>\<open>ConstructSingleLayer\<close> (lines 906-932).\<close>

partial_function (option) ConstructSingleLayer_loop ::
  "config \<Rightarrow> bool \<Rightarrow> ('k, 'v) slot list \<Rightarrow> ptr option \<Rightarrow> ('k, 'v) slot list \<Rightarrow> ('k, 'v) btree \<Rightarrow>
     (('k, 'v) slot list \<times> ('k, 'v) btree) option" where
  "ConstructSingleLayer_loop c inner entries prev nodes t =
     (if entries = [] then Some (nodes, t)
      else
        (case alloc_node (new_node inner) t of
           (p, t1) \<Rightarrow>
             (case Node_Bulkload (if inner then kInnerNodeCap c else kLeafNodeCap c)
                     p entries prev nodes t1 of
                (rest, nodes1, t2) \<Rightarrow> ConstructSingleLayer_loop c inner rest (Some p) nodes1 t2)))"

definition ConstructSingleLayer ::
  "config \<Rightarrow> bool \<Rightarrow> ('k, 'v) slot list \<Rightarrow> ('k, 'v) btree \<Rightarrow>
     (('k, 'v) slot list \<times> ('k, 'v) btree) option" where
  "ConstructSingleLayer c inner entries t = ConstructSingleLayer_loop c inner entries None [] t"

text \<open>\<open>BulkloadWithSingleThread\<close> (lines 878-896): the height and the top layer.\<close>

partial_function (option) index_layers ::
  "config \<Rightarrow> nat \<Rightarrow> ('k, 'v) slot list \<Rightarrow> ('k, 'v) btree \<Rightarrow>
     (nat \<times> ('k, 'v) slot list \<times> ('k, 'v) btree) option" where
  "index_layers c height nodes t =
     (if kInnerNodeCap c < length nodes then
        (case ConstructSingleLayer c True nodes t of
           None \<Rightarrow> None
         | Some (nodes1, t1) \<Rightarrow> index_layers c (Suc height) nodes1 t1)
      else Some (height, nodes, t))"

definition BulkloadWithSingleThread ::
  "config \<Rightarrow> ('k, 'v) slot list \<Rightarrow> ('k, 'v) btree \<Rightarrow>
     (nat \<times> ('k, 'v) slot list \<times> ('k, 'v) btree) option" where
  "BulkloadWithSingleThread c entries t =
     (case ConstructSingleLayer c False entries t of
        None \<Rightarrow> None
      | Some (nodes, t1) \<Rightarrow> index_layers c 1 nodes t1)"

definition slot_child :: "('k, 'v) slot \<Rightarrow> ptr option" where
  "slot_child s = (case spay s of Child q \<Rightarrow> Some q | Val v \<Rightarrow> None)"

partial_function (option) LinkVerticalBorderNodes ::
  "('k, 'v) btree \<Rightarrow> ptr \<Rightarrow> ptr \<Rightarrow> ('k, 'v) btree option" where
  "LinkVerticalBorderNodes t l r =
     (case heap t l of
        None \<Rightarrow> None
      | Some ln \<Rightarrow>
          (case heap t r of
             None \<Rightarrow> None
           | Some rn \<Rightarrow>
               (let t1 = set_node l (ln\<lparr>next_ptr := Some r, high_key := first_key (slots rn)\<rparr>) t
                in if is_inner ln then
                     (case (child_at ln (length (slots ln) - 1), child_at rn 0) of
                        (Some lc, Some rc) \<Rightarrow> LinkVerticalBorderNodes t1 lc rc
                      | _ \<Rightarrow> None)
                   else Some t1)))"

partial_function (option) RemoveLeftmostKeys ::
  "('k, 'v) btree \<Rightarrow> ptr \<Rightarrow> ('k, 'v) btree option" where
  "RemoveLeftmostKeys t p =
     (case heap t p of
        None \<Rightarrow> None
      | Some n \<Rightarrow>
          if is_inner n then
            (case slots n of
               [] \<Rightarrow> None
             | s # ss \<Rightarrow>
                 (case slot_child s of
                    None \<Rightarrow> None
                  | Some c \<Rightarrow>
                      RemoveLeftmostKeys
                        (set_node p (n\<lparr>slots := Slot None (spay s) (sdel s) # ss\<rparr>) t) c))
          else Some t)"

text \<open>
  \<open>Bulkload\<close> (lines 321-394).  The workers of lines 347-356 share nothing but the
  page allocator; the model runs them one after the other, worker \<open>i\<close> on the next
  \<open>(rec_num + i) / thread_num\<close> entries.
\<close>

function partial_trees ::
  "config \<Rightarrow> nat \<Rightarrow> nat \<Rightarrow> nat \<Rightarrow> ('k, 'v) slot list \<Rightarrow> ('k, 'v) btree \<Rightarrow>
     ((nat \<times> ('k, 'v) slot list) list \<times> ('k, 'v) btree) option" where
  "partial_trees c thread_num n_recs i entries t =
     (if i < thread_num then
        (let n = (n_recs + i) div thread_num in
         case BulkloadWithSingleThread c (take n entries) t of
           None \<Rightarrow> None
         | Some (h, nodes, t1) \<Rightarrow>
             (case partial_trees c thread_num n_recs (Suc i) (drop n entries) t1 of
                None \<Rightarrow> None
              | Some (rest, t2) \<Rightarrow> Some ((h, nodes) # rest, t2)))
      else Some ([], t))"
  by pat_completeness auto
termination
  by (relation "measure (\<lambda>(c, thread_num, n_recs, i, entries, t). thread_num - i)") auto

declare partial_trees.simps [simp del]

definition max_height :: "(nat \<times> ('k, 'v) slot list) list \<Rightarrow> nat" where
  "max_height trees = foldl (\<lambda>height (p_height, p_nodes). if height < p_height then p_height else height) 1 trees"

function align_height ::
  "config \<Rightarrow> nat \<Rightarrow> nat \<Rightarrow> ('k, 'v) slot list \<Rightarrow> ('k, 'v) btree \<Rightarrow>
     (('k, 'v) slot list \<times> ('k, 'v) btree) option" where
  "align_height c height p_height p_nodes t =
     (if p_height < height then
        (case ConstructSingleLayer c True p_nodes t of
           None \<Rightarrow> None
         | Some (nodes1, t1) \<Rightarrow> align_height c height (Suc p_height) nodes1 t1)
      else Some (p_nodes, t))"
  by pat_completeness auto
termination
  by (relation "measure (\<lambda>(c, height, p_height, p_nodes, t). height - p_height)") auto

declare align_height.simps [simp del]

fun align_trees ::
  "config \<Rightarrow> nat \<Rightarrow> (nat \<times> ('k, 'v) slot list) list \<Rightarrow> ptr option \<Rightarrow> ('k, 'v) slot list \<Rightarrow>
     ('k, 'v) btree \<Rightarrow> (('k, 'v) slot list \<times> ('k, 'v) btree) option" where
  "align_trees c height [] prev_node nodes t = Some (nodes, t)"
| "align_trees c height ((p_height, p_nodes) # rest) prev_node nodes t =
     (case align_height c height p_height p_nodes t of
        None \<Rightarrow> None
      | Some (p_nodes1, t1) \<Rightarrow>
          (if p_nodes1 = [] then None
           else
             (case (slot_child (hd p_nodes1), slot_child (last p_nodes1)) of
                (Some front, Some back) \<Rightarrow>
                  (case (case prev_node of
                           None \<Rightarrow> Some t1
                         | Some q \<Rightarrow> LinkVerticalBorderNodes t1 q front) of
                     None \<Rightarrow> None
                   | Some t2 \<Rightarrow> align_trees c height rest (Some back) (nodes @ p_nodes1) t2)
              | _ \<Rightarrow> None)))"

partial_function (option) upper_layers ::
  "config \<Rightarrow> ('k, 'v) slot list \<Rightarrow> ('k, 'v) btree \<Rightarrow> (('k, 'v) slot list \<times> ('k, 'v) btree) option" where
  "upper_layers c nodes t =
     (if 1 < length nodes then
        (case ConstructSingleLayer c True nodes t of
           None \<Rightarrow> None
         | Some (nodes1, t1) \<Rightarrow> upper_layers c nodes1 t1)
      else Some (nodes, t))"

definition entry_slots :: "('k \<times> 'v) list \<Rightarrow> ('k, 'v) slot list" where
  "entry_slots entries = map (\<lambda>(k, v). Slot (Some k) (Val v) False) entries"

definition Bulkload ::
  "config \<Rightarrow> ('k, 'v) btree \<Rightarrow> ('k \<times> 'v) list \<Rightarrow> nat \<Rightarrow> (ReturnCode \<times> ('k, 'v) btree) option" where
  "Bulkload c t entries thread_num =
     (if entries = [] then Some (kSuccess, t)
      else
        (let n_recs = length entries in
         case (if thread_num \<le> 1 \<or> n_recs < thread_num then
                 map_option snd (BulkloadWithSingleThread c (entry_slots entries) t)
               else
                 (case partial_trees c thread_num n_recs 0 (entry_slots entries) t of
                    None \<Rightarrow> None
                  | Some (trees, t1) \<Rightarrow> align_trees c (max_height trees) trees None [] t1)) of
           None \<Rightarrow> None
         | Some (nodes, t2) \<Rightarrow>
             (case upper_layers c nodes t2 of
                None \<Rightarrow> None
              | Some (nodes1, t3) \<Rightarrow>
                  (case nodes1 of
                     [] \<Rightarrow> None
                   | s # ss \<Rightarrow>
                       (case slot_child s of
                          None \<Rightarrow> None
                        | Some new_root \<Rightarrow>
                            map_option (Pair kSuccess)
                              (RemoveLeftmostKeys (t3\<lparr>root := new_root\<rparr>) new_root))))))"

section \<open>Well-formed trees\<close>

text \<open>
  The invariants of section 3 of the spec, for a tree at rest.  A node at height
  \<open>h\<close> (leaves have height 0) covers the keys from its low bound \<open>lo\<close> (\<open>None\<close>: no
  bound) up to, and excluding, its high key \<open>hi\<close> (\<open>None\<close>: the rightmost node of its
  level).  Slots are in strict key order; the first slot of an inner node carries
  the low bound of the node, each child covers the keys from its own slot key to
  the next slot key, and the right-sibling pointers chain every level from left to
  right: \<open>bs\<close> lists, level by level, the nodes that follow the subtree on its
  right.  No page belongs to two nodes of the tree.
\<close>

definition olt :: "'k::linorder option \<Rightarrow> 'k option \<Rightarrow> bool" where
  "olt a b = (case b of None \<Rightarrow> False | Some y \<Rightarrow> (case a of None \<Rightarrow> True | Some x \<Rightarrow> x < y))"

definition hi_gt :: "'k::linorder option \<Rightarrow> 'k \<Rightarrow> bool" where
  "hi_gt hi k = (case hi of None \<Rightarrow> True | Some h \<Rightarrow> k < h)"

definition kid :: "('k, 'v) slot \<Rightarrow> ptr" where
  "kid s = (case spay s of Child q \<Rightarrow> q | Val v \<Rightarrow> 0)"

definition is_child :: "('k, 'v) slot \<Rightarrow> bool" where
  "is_child s = (case spay s of Child q \<Rightarrow> True | Val v \<Rightarrow> False)"

definition leaf_ok :: "'k::linorder option \<Rightarrow> 'k option \<Rightarrow> ('k, 'v) slot list \<Rightarrow> bool" where
  "leaf_ok lo hi ss =
     (sorted_wrt olt (map skey ss) \<and>
      (\<forall>s\<in>set ss. \<not> is_child s \<and>
         (case skey s of None \<Rightarrow> False | Some k \<Rightarrow> key_le lo k \<and> hi_gt hi k)))"

definition inner_ok :: "config \<Rightarrow> 'k::linorder option \<Rightarrow> 'k option \<Rightarrow> ('k, 'v) slot list \<Rightarrow> bool" where
  "inner_ok c lo hi ss =
     (ss \<noteq> [] \<and> length ss \<le> cap c \<and> skey (hd ss) = lo \<and> sorted_wrt olt (map skey ss) \<and>
      (\<forall>s\<in>set ss. is_child s \<and> \<not> sdel s \<and>
         (case skey s of None \<Rightarrow> True | Some k \<Rightarrow> hi_gt hi k)))"

definition node_ok :: "('k, 'v) node \<Rightarrow> 'k option \<Rightarrow> ptr option \<Rightarrow> bool" where
  "node_ok n hi nx =
     (\<not> is_removed n \<and> high_key n = hi \<and> next_ptr n = nx \<and> (hi = None \<longleftrightarrow> nx = None))"

fun lspine :: "('k, 'v) btree \<Rightarrow> nat \<Rightarrow> ptr \<Rightarrow> ptr option list" where
  "lspine t 0 p = [Some p]"
| "lspine t (Suc h) p =
     Some p #
       (case heap t p of
          None \<Rightarrow> replicate (Suc h) None
        | Some n \<Rightarrow>
            (case slots n of [] \<Rightarrow> replicate (Suc h) None | s # ss \<Rightarrow> lspine t h (kid s)))"

fun fp :: "('k, 'v) btree \<Rightarrow> nat \<Rightarrow> ptr \<Rightarrow> ptr set" where
  "fp t 0 p = {p}"
| "fp t (Suc h) p =
     insert p (case heap t p of None \<Rightarrow> {} | Some n \<Rightarrow> (\<Union>s\<in>set (slots n). fp t h (kid s)))"

definition slot_rec :: "('k, 'v) slot \<Rightarrow> ('k \<times> 'v) option" where
  "slot_rec s =
     (case s of
        Slot (Some k) (Val v) d \<Rightarrow> if d then None else Some (k, v)
      | _ \<Rightarrow> None)"

fun recs_of :: "('k, 'v) btree \<Rightarrow> nat \<Rightarrow> ptr \<Rightarrow> ('k \<times> 'v) list" where
  "recs_of t 0 p = (case heap t p of None \<Rightarrow> [] | Some n \<Rightarrow> List.map_filter slot_rec (slots n))"
| "recs_of t (Suc h) p =
     (case heap t p of
        None \<Rightarrow> []
      | Some n \<Rightarrow> concat (map (\<lambda>s. recs_of t h (kid s)) (slots n)))"

definition hi_at :: "('k, 'v) slot list \<Rightarrow> nat \<Rightarrow> 'k option \<Rightarrow> 'k option" where
  "hi_at ss i hi = (if Suc i < length ss then skey (ss ! Suc i) else hi)"

definition bs_at ::
  "('k, 'v) btree \<Rightarrow> nat \<Rightarrow> ('k, 'v) slot list \<Rightarrow> nat \<Rightarrow> ptr option list \<Rightarrow> ptr option list" where
  "bs_at t h ss i bs = (if Suc i < length ss then lspine t h (kid (ss ! Suc i)) else bs)"

definition apart :: "('k, 'v) btree \<Rightarrow> nat \<Rightarrow> ptr \<Rightarrow> ('k, 'v) slot list \<Rightarrow> bool" where
  "apart t h p ss =
     (\<forall>i<length ss. p \<notin> fp t h (kid (ss ! i)) \<and>
        (\<forall>j<i. fp t h (kid (ss ! i)) \<inter> fp t h (kid (ss ! j)) = {}))"

fun wf_sub ::
  "config \<Rightarrow> ('k::linorder, 'v) btree \<Rightarrow> nat \<Rightarrow> ptr \<Rightarrow> 'k option \<Rightarrow> 'k option \<Rightarrow> ptr option list \<Rightarrow> bool" where
  "wf_sub c t 0 p lo hi bs =
     (case heap t p of
        None \<Rightarrow> False
      | Some n \<Rightarrow>
          \<not> is_inner n \<and> bs = [next_ptr n] \<and> node_ok n hi (next_ptr n) \<and> leaf_ok lo hi (slots n))"
| "wf_sub c t (Suc h) p lo hi bs =
     (case heap t p of
        None \<Rightarrow> False
      | Some n \<Rightarrow>
          is_inner n \<and> bs \<noteq> [] \<and> node_ok n hi (hd bs) \<and> inner_ok c lo hi (slots n) \<and>
          apart t h p (slots n) \<and>
          (\<forall>i<length (slots n).
             wf_sub c t h (kid (slots n ! i)) (skey (slots n ! i))
               (hi_at (slots n) i hi) (bs_at t h (slots n) i (tl bs))))"

definition inv :: "config \<Rightarrow> ('k::linorder, 'v) btree \<Rightarrow> nat \<Rightarrow> bool" where
  "inv c t h =
     (2 \<le> cap c \<and> wf_sub c t h (root t) None None (replicate (Suc h) None) \<and>
      (\<forall>p. next_page t \<le> p \<longrightarrow> heap t p = None))"

text \<open>
  The records of a tree are the live records of its leaves, from left to right; in a
  well-formed tree they are in strict key order.  \<open>upsert\<close> puts a record into such
  a list, in place of the record of the same key if there is one.
\<close>

definition lrecs :: "('k, 'v) slot list \<Rightarrow> ('k \<times> 'v) list" where
  "lrecs ss = List.map_filter slot_rec ss"

fun upsert :: "'k::linorder \<Rightarrow> 'v \<Rightarrow> ('k \<times> 'v) list \<Rightarrow> ('k \<times> 'v) list" where
  "upsert k v [] = [(k, v)]"
| "upsert k v ((a, b) # xs) =
     (if a < k then (a, b) # upsert k v xs
      else if a = k then (k, v) # xs
      else (k, v) # (a, b) # xs)"

subsection \<open>Children of an inner node, slot by slot\<close>

text \<open>
  The conditions on the children of a node, stated along the list of its slots:
  every child is well formed between its own key and the key of the next slot (or
  the high key of the node), and the pages of different children are disjoint.
\<close>

fun kids_ok ::
  "config \<Rightarrow> ('k::linorder, 'v) btree \<Rightarrow> nat \<Rightarrow> ('k, 'v) slot list \<Rightarrow> 'k option \<Rightarrow> ptr option list \<Rightarrow> bool" where
  "kids_ok c t h [] hi bs = True"
| "kids_ok c t h [s] hi bs = wf_sub c t h (kid s) (skey s) hi bs"
| "kids_ok c t h (s # s' # ss) hi bs =
     (wf_sub c t h (kid s) (skey s) (skey s') (lspine t h (kid s')) \<and> kids_ok c t h (s' # ss) hi bs)"

fun kids_apart :: "('k, 'v) btree \<Rightarrow> nat \<Rightarrow> ('k, 'v) slot list \<Rightarrow> bool" where
  "kids_apart t h [] = True"
| "kids_apart t h (s # ss) =
     ((\<forall>s'\<in>set ss. fp t h (kid s) \<inter> fp t h (kid s') = {}) \<and> kids_apart t h ss)"

definition kids_fp :: "('k, 'v) btree \<Rightarrow> nat \<Rightarrow> ('k, 'v) slot list \<Rightarrow> ptr set" where
  "kids_fp t h ss = (\<Union>s\<in>set ss. fp t h (kid s))"

definition kids_recs :: "('k, 'v) btree \<Rightarrow> nat \<Rightarrow> ('k, 'v) slot list \<Rightarrow> ('k \<times> 'v) list" where
  "kids_recs t h ss = concat (map (\<lambda>s. recs_of t h (kid s)) ss)"

subsection \<open>A subtree before and after an operation\<close>

text \<open>
  \<open>evolves t0 t1 S\<close>: from \<open>t0\<close> to \<open>t1\<close> only pages of \<open>S\<close> and pages allocated in
  between have changed.  \<open>done_sub\<close>: the subtree at \<open>p\<close> is again well formed, within
  the same bounds, and holds the records \<open>rs\<close>.  \<open>pend_sub\<close>: the node at \<open>p\<close> has been
  split, the right half \<open>r\<close> with separator \<open>sep\<close> is not yet known to the parent.
\<close>

definition fresh_in :: "('k, 'v) btree \<Rightarrow> ('k, 'v) btree \<Rightarrow> ptr set" where
  "fresh_in t0 t1 = {next_page t0..<next_page t1}"

definition evolves :: "('k, 'v) btree \<Rightarrow> ('k, 'v) btree \<Rightarrow> ptr set \<Rightarrow> bool" where
  "evolves t0 t1 S =
     (root t1 = root t0 \<and> next_page t0 \<le> next_page t1 \<and>
      (\<forall>x. x < next_page t0 \<and> x \<notin> S \<longrightarrow> heap t1 x = heap t0 x) \<and>
      (\<forall>x. next_page t1 \<le> x \<longrightarrow> heap t1 x = None))"

definition done_sub ::
  "config \<Rightarrow> ('k::linorder, 'v) btree \<Rightarrow> ('k, 'v) btree \<Rightarrow> nat \<Rightarrow> ptr \<Rightarrow> 'k option \<Rightarrow> 'k option \<Rightarrow>
     ptr option list \<Rightarrow> ('k \<times> 'v) list \<Rightarrow> bool" where
  "done_sub c t0 t1 h p lo hi bs rs =
     (evolves t0 t1 (fp t0 h p) \<and> wf_sub c t1 h p lo hi bs \<and> lspine t1 h p = lspine t0 h p \<and>
      fp t1 h p \<subseteq> fp t0 h p \<union> fresh_in t0 t1 \<and> recs_of t1 h p = rs)"

definition pend_sub ::
  "config \<Rightarrow> ('k::linorder, 'v) btree \<Rightarrow> ('k, 'v) btree \<Rightarrow> nat \<Rightarrow> ptr \<Rightarrow> 'k option \<Rightarrow> 'k option \<Rightarrow>
     ptr option list \<Rightarrow> ptr \<Rightarrow> 'k \<Rightarrow> ('k \<times> 'v) list \<Rightarrow> bool" where
  "pend_sub c t0 t1 h p lo hi bs r sep rs =
     (evolves t0 t1 (fp t0 h p) \<and>
      wf_sub c t1 h p lo (Some sep) (lspine t1 h r) \<and> wf_sub c t1 h r (Some sep) hi bs \<and>
      key_lt lo sep \<and> hi_gt hi sep \<and> lspine t1 h p = lspine t0 h p \<and>
      fp t1 h p \<union> fp t1 h r \<subseteq> fp t0 h p \<union> fresh_in t0 t1 \<and> fp t1 h p \<inter> fp t1 h r = {} \<and>
      recs_of t1 h p @ recs_of t1 h r = rs)"

text \<open>The pages that a descent for a key visits in a well-formed subtree.\<close>

fun path_to :: "('k::linorder, 'v) btree \<Rightarrow> 'k \<Rightarrow> nat \<Rightarrow> ptr \<Rightarrow> ptr list" where
  "path_to t k 0 p = [p]"
| "path_to t k (Suc h) p =
     p # (case heap t p of
            None \<Rightarrow> []
          | Some n \<Rightarrow> path_to t k h (kid (slots n ! child_pos (slots n) k)))"

text \<open>
  The block that \<open>Write\<close> and \<open>Insert\<close> share (b_tree.hpp, lines 196-206 and 241-251):
  split the leaf, insert into the valid half, complete the split.  \<open>put_leaf\<close> is
  what both do at the leaf once the key is known not to be stored live.
\<close>

definition split_insert ::
  "config \<Rightarrow> ('k::linorder, 'v) btree \<Rightarrow> ptr list \<Rightarrow> ptr \<Rightarrow> 'k \<Rightarrow> 'v \<Rightarrow>
     (ptr \<times> ('k, 'v) node \<times> ('k, 'v) btree) option" where
  "split_insert c t stack node key payload =
     (case HalfSplit node t of
        None \<Rightarrow> None
      | Some (r_node, t1) \<Rightarrow>
          (case GetValidSplitNode t1 node key of
             None \<Rightarrow> None
           | Some target \<Rightarrow>
               (case heap t1 target of
                  None \<Rightarrow> None
                | Some tn \<Rightarrow>
                    (let tn1 = InsertRecord tn key (Val payload) (snd (SearchRecord tn key))
                     in case GetSeparatorKey tn1 (target = node) of
                          None \<Rightarrow> None
                        | Some sep_key \<Rightarrow>
                            map_option (\<lambda>t2. (target, tn1, t2))
                              (CompleteSplit c (set_node target tn1 t1) stack node r_node sep_key)))))"

definition put_leaf ::
  "config \<Rightarrow> ('k::linorder, 'v) btree \<Rightarrow> ptr list \<Rightarrow> 'k \<Rightarrow> 'v \<Rightarrow>
     (ptr \<times> ('k, 'v) node \<times> ('k, 'v) btree) option" where
  "put_leaf c t stack key payload =
     (case locate t (last stack) key of
        None \<Rightarrow> None
      | Some (node, n) \<Rightarrow>
          (case node_Write c n key payload of
             (rc, n1) \<Rightarrow>
               if rc = kNeedSplit then split_insert c t stack node key payload
               else Some (node, n1, set_node node n1 t)))"

text \<open>A leaf that holds the record \<open>(k, v)\<close> live.\<close>

definition leaf_with :: "'k \<Rightarrow> 'v \<Rightarrow> ('k, 'v) node \<Rightarrow> bool" where
  "leaf_with k v n = (\<not> is_inner n \<and> (k, v) \<in> set (lrecs (slots n)))"

definition ins_slot :: "('k::linorder, 'v) slot list \<Rightarrow> 'k \<Rightarrow> 'v pay \<Rightarrow> ('k, 'v) slot list" where
  "ins_slot ss k v = take (lower_pos ss k) ss @ [Slot (Some k) v False] @ drop (lower_pos ss k) ss"

text \<open>The two nodes that \<open>Split\<close> makes of a node \<open>n\<close> whose new right sibling is \<open>r\<close>.\<close>

definition left_half :: "('k, 'v) node \<Rightarrow> ptr \<Rightarrow> ('k, 'v) node" where
  "left_half n r =
     bump (n\<lparr>slots := take (length (live (slots n)) div 2) (live (slots n)),
             high_key := (case drop (length (live (slots n)) div 2) (live (slots n)) of
                            [] \<Rightarrow> high_key n | s # _ \<Rightarrow> skey s),
             next_ptr := Some r\<rparr>)"

definition right_half :: "('k, 'v) node \<Rightarrow> ('k, 'v) node" where
  "right_half n =
     bump ((new_node (is_inner n))\<lparr>slots := drop (length (live (slots n)) div 2) (live (slots n)),
             high_key := high_key n, next_ptr := next_ptr n\<rparr>)"

subsection \<open>Deleting from a subtree\<close>

text \<open>
  The block of \<open>Delete\<close> after the descent (b_tree.hpp, lines 294-306), and what a
  merge completion goes on with after a merge below the node \<open>p\<close> of height \<open>h\<close>: the
  next round of \<open>Merge\<close> one level up, or \<open>TryShrinkTree\<close> when the stack is empty
  (lines 833-837).
\<close>

definition del_leaf ::
  "config \<Rightarrow> ('k::linorder, 'v) btree \<Rightarrow> ptr list \<Rightarrow> 'k \<Rightarrow> (ReturnCode \<times> ('k, 'v) btree) option" where
  "del_leaf c t stack key =
     (case Node_Delete c t (last stack) key of
        None \<Rightarrow> None
      | Some (node, rc, t1) \<Rightarrow>
          if rc = kKeyNotInserted then Some (kKeyNotExist, t1)
          else if rc = kNeedMerge then map_option (Pair kSuccess) (Merge c t1 stack node)
          else Some (kSuccess, t1))"

definition merge_next ::
  "config \<Rightarrow> ('k::linorder, 'v) btree \<Rightarrow> ptr list \<Rightarrow> ptr \<Rightarrow> nat \<Rightarrow> ('k, 'v) btree option" where
  "merge_next c t pre p h =
     (if pre = [] \<and> 0 < h then TryShrinkTree t p else Merge_loop c t pre None p)"

text \<open>The records of a tree without the record of a key.\<close>

definition remove_key :: "'k \<Rightarrow> ('k \<times> 'v) list \<Rightarrow> ('k \<times> 'v) list" where
  "remove_key k rs = filter (\<lambda>r. fst r \<noteq> k) rs"

text \<open>
  What a merge completion relies on to the right of a subtree with high key \<open>k\<close>:
  the nodes down the left edge of the next subtree are there, not removed, and have
  \<open>k\<close> as their first key.  \<open>sp\<close> are the pages of this left edge.
\<close>

fun nbr :: "('k::linorder, 'v) btree \<Rightarrow> nat \<Rightarrow> ptr \<Rightarrow> 'k \<Rightarrow> bool" where
  "nbr t 0 p k = (heap t p \<noteq> None)"
| "nbr t (Suc h) p k =
     (case heap t p of
        None \<Rightarrow> False
      | Some n \<Rightarrow>
          \<not> is_removed n \<and>
          (case slots n of
             [] \<Rightarrow> False
           | s # ss \<Rightarrow> skey s = Some k \<and> hi_gt (high_key n) k \<and> nbr t h (kid s) k))"

definition sp :: "('k, 'v) btree \<Rightarrow> nat \<Rightarrow> ptr \<Rightarrow> ptr set" where
  "sp t h p = {x. Some x \<in> set (lspine t h p)}"

definition right_ctx ::
  "('k::linorder, 'v) btree \<Rightarrow> nat \<Rightarrow> ptr \<Rightarrow> 'k option \<Rightarrow> ptr option list \<Rightarrow> bool" where
  "right_ctx t h p hi bs =
     (case hi of
        None \<Rightarrow> True
      | Some k \<Rightarrow>
          (case hd bs of
             None \<Rightarrow> False
           | Some p' \<Rightarrow> bs = lspine t h p' \<and> nbr t h p' k \<and> sp t h p' \<inter> fp t h p = {}))"

subsection \<open>Accesses to the root reference\<close>

text \<open>
  \<open>root_\<close> is a \<open>std::atomic<Node_t *>\<close> (b_tree.hpp, line 949); every load and store
  of it names a memory order.  \<open>TryRootSplit_acc\<close> and \<open>TryShrinkTree_acc\<close> are
  \<open>TryRootSplit\<close> (lines 753-768) and \<open>TryShrinkTree\<close> (lines 848-860) together
  with the accesses to \<open>root_\<close> that they make, in program order, each with the
  memory order that the source writes: the load of line 761 and the store of line
  766, the load of line 851 (the left operand of \<open>&&\<close>, evaluated in every call) and
  the store of line 856.
\<close>

datatype memory_order =
  memory_order_relaxed | memory_order_acquire | memory_order_release | memory_order_seq_cst







text \<open>The unfolding equations of the loops serve as code equations.\<close>

declare HasNext.simps [code]
declare CheckKeyRange.simps [code]
declare SearchLeafNode_loop.simps [code]
declare SearchLeftmostLeaf_loop.simps [code]
declare SearchLeafNodeForWrite_loop.simps [code]
declare SearchParentNode_loop.simps [code]
declare CompleteSplit_loop.simps [code]
declare shrink_loop.simps [code]
declare Merge_loop.simps [code]
declare drain.simps [code]
declare ConstructSingleLayer_loop.simps [code]
declare index_layers.simps [code]
declare LinkVerticalBorderNodes.simps [code]
declare RemoveLeftmostKeys.simps [code]
declare upper_layers.simps [code]

section \<open>Evaluation\<close>

text \<open>The defining equations, collected for evaluating the operations on concrete trees.\<close>

lemmas node_defs =
  set_node_def key_lt_def key_le_def lower_pos_def SearchRecord_def IsRightmostOf_def
  SearchEndPositionFor_def ReleaseSharedLock_def AcquireSharedLock_def GetNextNodeForRead_def
  GetPreviousVersion_def bump_def live_def new_node_def alloc_node_def child_pos_def child_at_def
  SearchChild_def GetLeftmostChild_def locate_def CheckKeyRangeAndLockForWrite_def find_live_def
  Node_Read_def InsertRecord_def overwrite_def make_room_def add_record_def node_Write_def
  Node_Insert_def Node_Update_def mark_deleted_def Node_Delete_def Split_def HalfSplit_def
  GetValidSplitNode_def GetSeparatorKey_def InsertChild_def DeleteChild_def
  GetMergeableSiblingNode_def Merge_nodes_def AddGarbage_def root_node_def RemoveRoot_def
  link_prev_def first_key_def Node_Bulkload_def slot_child_def entry_slots_def max_height_def

lemmas tree_defs =
  empty_tree_def SearchLeafNode_def SearchLeftmostLeaf_def SearchLeafNodeForWrite_def
  SearchParentNode_def TryRootSplit_def CompleteSplit_def TryShrinkTree_def Merge_def
  Read_def Write_def Insert_def Update_def Delete_def Scan_def GetRecord_def scan_all_def
  ConstructSingleLayer_def BulkloadWithSingleThread_def Bulkload_def

lemmas loop_simps =
  skip_deleted.simps HasNext.simps CheckKeyRange.simps SearchLeafNode_loop.simps
  SearchLeftmostLeaf_loop.simps SearchLeafNodeForWrite_loop.simps SearchParentNode_loop.simps
  CompleteSplit_loop.simps shrink_loop.simps Merge_loop.simps drain.simps
  ConstructSingleLayer_loop.simps index_layers.simps LinkVerticalBorderNodes.simps
  RemoveLeftmostKeys.simps upper_layers.simps partial_trees.simps align_height.simps

section \<open>Concrete trees\<close>

text \<open>A tree of one leaf, and the tree that bulk loading one entry into it gives.\<close>

definition C7_cfg :: config where
  "C7_cfg = \<lparr>cap = 2, min_recs = 1, kLeafNodeCap = 2, kInnerNodeCap = 2\<rparr>"

definition C7_leaf :: "(nat, nat) slot list \<Rightarrow> 64 word \<Rightarrow> (nat, nat) node" where
  "C7_leaf ss v = \<lparr>is_inner = False, slots = ss, high_key = None, next_ptr = None,
     ver = v, s_locks = 0, is_removed = False\<rparr>"

definition C7_tree :: "(nat, nat) slot list \<Rightarrow> 64 word \<Rightarrow> (nat, nat) btree" where
  "C7_tree ss v = \<lparr>heap = (\<lambda>p. None)(0 := Some (C7_leaf ss v)), root = 0, next_page = 1,
     garbage = [], guards = 0\<rparr>"

definition C7_loaded :: "(nat, nat) btree" where
  "C7_loaded = \<lparr>heap = (\<lambda>p. None)(0 := Some (C7_leaf [] 0),
       1 := Some (C7_leaf [Slot (Some 1) (Val 10) False] 0)), root = 1, next_page = 2,
     garbage = [], guards = 0\<rparr>"

lemmas C7_defs = C7_cfg_def C7_leaf_def C7_tree_def C7_loaded_def








section \<open>Properties\<close>

subsection \<open>Footprints and frames\<close>

lemma length_lspine [simp]: "length (lspine t h p) = Suc h"
  by (induction h arbitrary: p) (auto split: option.splits list.splits)

lemma lspine_nonempty [simp]: "lspine t h p \<noteq> []"
  by (cases h) auto

lemma hd_lspine [simp]: "hd (lspine t h p) = Some p"
  by (cases h) auto

lemma fp_self [simp]: "p \<in> fp t h p"
  by (cases h) auto

lemma kid_in_fp:
  "heap t p = Some n \<Longrightarrow> s \<in> set (slots n) \<Longrightarrow> x \<in> fp t h (kid s) \<Longrightarrow> x \<in> fp t (Suc h) p"
  by auto

lemma nth_kid_in_fp:
  "heap t p = Some n \<Longrightarrow> i < length (slots n) \<Longrightarrow> x \<in> fp t h (kid (slots n ! i)) \<Longrightarrow>
   x \<in> fp t (Suc h) p"
  by (rule kid_in_fp [where s = "slots n ! i"]) auto

lemma fp_frame:
  "(\<And>x. x \<in> fp t h p \<Longrightarrow> heap t' x = heap t x) \<Longrightarrow> fp t' h p = fp t h p"
proof (induction h arbitrary: p)
  case 0
  show ?case by simp
next
  case (Suc h)
  have hp: "heap t' p = heap t p" using Suc.prems by simp
  show ?case
  proof (cases "heap t p")
    case None
    then show ?thesis using hp by simp
  next
    case (Some n)
    have "fp t' h (kid s) = fp t h (kid s)" if "s \<in> set (slots n)" for s
      using that Some Suc.prems by (intro Suc.IH) auto
    then show ?thesis using hp Some by simp
  qed
qed

lemma lspine_frame:
  "(\<And>x. x \<in> fp t h p \<Longrightarrow> heap t' x = heap t x) \<Longrightarrow> lspine t' h p = lspine t h p"
proof (induction h arbitrary: p)
  case 0
  show ?case by simp
next
  case (Suc h)
  have hp: "heap t' p = heap t p" using Suc.prems by simp
  show ?case
  proof (cases "heap t p")
    case None
    then show ?thesis using hp by simp
  next
    case (Some n)
    show ?thesis
    proof (cases "slots n")
      case Nil
      then show ?thesis using hp Some by simp
    next
      case (Cons s ss)
      have "lspine t' h (kid s) = lspine t h (kid s)"
        using Some Cons Suc.prems by (intro Suc.IH) auto
      then show ?thesis using hp Some Cons by simp
    qed
  qed
qed

lemma recs_frame:
  "(\<And>x. x \<in> fp t h p \<Longrightarrow> heap t' x = heap t x) \<Longrightarrow> recs_of t' h p = recs_of t h p"
proof (induction h arbitrary: p)
  case 0
  then show ?case by simp
next
  case (Suc h)
  have hp: "heap t' p = heap t p" using Suc.prems by simp
  show ?case
  proof (cases "heap t p")
    case None
    then show ?thesis using hp by simp
  next
    case (Some n)
    have "recs_of t' h (kid s) = recs_of t h (kid s)" if "s \<in> set (slots n)" for s
      using that Some Suc.prems by (intro Suc.IH) auto
    then have m: "map (\<lambda>s. recs_of t' h (kid s)) (slots n) = map (\<lambda>s. recs_of t h (kid s)) (slots n)"
      by simp
    show ?thesis by (simp only: recs_of.simps hp Some option.case m)
  qed
qed

lemma apart_frame:
  assumes "\<And>s. s \<in> set ss \<Longrightarrow> fp t' h (kid s) = fp t h (kid s)"
  shows "apart t' h p ss = apart t h p ss"
  using assms by (simp add: apart_def)

lemma bs_at_frame:
  assumes "\<And>s. s \<in> set ss \<Longrightarrow> lspine t' h (kid s) = lspine t h (kid s)"
  shows "bs_at t' h ss i bs = bs_at t h ss i bs"
  using assms by (simp add: bs_at_def)

lemma wf_frame:
  "(\<And>x. x \<in> fp t h p \<Longrightarrow> heap t' x = heap t x) \<Longrightarrow> wf_sub c t h p lo hi bs \<Longrightarrow>
   wf_sub c t' h p lo hi bs"
proof (induction h arbitrary: p lo hi bs)
  case 0
  then show ?case by simp
next
  case (Suc h)
  have hp: "heap t' p = heap t p" using Suc.prems by simp
  from Suc.prems(2) obtain n where n: "heap t p = Some n"
    by (auto split: option.splits)
  have same: "heap t' x = heap t x" if "s \<in> set (slots n)" "x \<in> fp t h (kid s)" for s x
    using that n Suc.prems(1) by auto
  have f: "fp t' h (kid s) = fp t h (kid s)" if "s \<in> set (slots n)" for s
    using that same by (intro fp_frame) auto
  have l: "lspine t' h (kid s) = lspine t h (kid s)" if "s \<in> set (slots n)" for s
    using that same by (intro lspine_frame) auto
  have a: "apart t' h p (slots n) = apart t h p (slots n)" using f by (rule apart_frame)
  have b: "bs_at t' h (slots n) i (tl bs) = bs_at t h (slots n) i (tl bs)" for i
    using l by (rule bs_at_frame)
  have w: "wf_sub c t' h (kid (slots n ! i)) (skey (slots n ! i)) (hi_at (slots n) i hi)
             (bs_at t h (slots n) i (tl bs))" if "i < length (slots n)" for i
  proof (rule Suc.IH)
    show "heap t' x = heap t x" if "x \<in> fp t h (kid (slots n ! i))" for x
      using same [of "slots n ! i" x] that \<open>i < length (slots n)\<close> by simp
    show "wf_sub c t h (kid (slots n ! i)) (skey (slots n ! i)) (hi_at (slots n) i hi)
             (bs_at t h (slots n) i (tl bs))"
      using Suc.prems(2) n that by simp
  qed
  show ?case using Suc.prems(2) n hp a b w by simp
qed

lemma wf_heap_defined:
  "wf_sub c t h p lo hi bs \<Longrightarrow> x \<in> fp t h p \<Longrightarrow> heap t x \<noteq> None"
proof (induction h arbitrary: p lo hi bs)
  case 0
  then show ?case by (auto split: option.splits)
next
  case (Suc h)
  from Suc.prems(1) obtain n where n: "heap t p = Some n"
    by (auto split: option.splits)
  show ?case
  proof (cases "x = p")
    case True
    then show ?thesis using n by simp
  next
    case False
    with Suc.prems(2) n obtain s where s: "s \<in> set (slots n)" "x \<in> fp t h (kid s)" by auto
    then obtain i where i: "i < length (slots n)" "slots n ! i = s"
      by (auto simp: in_set_conv_nth)
    have "wf_sub c t h (kid s) (skey s) (hi_at (slots n) i hi) (bs_at t h (slots n) i (tl bs))"
      using Suc.prems(1) n i by auto
    then show ?thesis using s(2) by (rule Suc.IH)
  qed
qed

lemma wf_fp_bounded:
  "wf_sub c t h p lo hi bs \<Longrightarrow> \<forall>q. next_page t \<le> q \<longrightarrow> heap t q = None \<Longrightarrow> x \<in> fp t h p \<Longrightarrow>
   x < next_page t"
  using wf_heap_defined [of c t h p lo hi bs x] by (meson not_le)

subsection \<open>Keys and positions in a node\<close>

lemma olt_trans: "olt a b \<Longrightarrow> olt b c \<Longrightarrow> olt a c"
  by (auto simp: olt_def split: option.splits)

lemma olt_irrefl [simp]: "\<not> olt a a"
  by (auto simp: olt_def split: option.splits)

lemma olt_Some [simp]: "olt a (Some k) = key_lt a k"
  by (auto simp: olt_def key_lt_def split: option.splits)

lemma olt_None [simp]: "\<not> olt a None"
  by (simp add: olt_def)

lemma key_lt_Some [simp]: "key_lt (Some a) k = (a < k)"
  by (simp add: key_lt_def)

lemma key_lt_None [simp]: "key_lt None k"
  by (simp add: key_lt_def)

lemma key_le_Some [simp]: "key_le (Some a) k = (a \<le> k)"
  by (simp add: key_le_def)

lemma key_le_None [simp]: "key_le None k"
  by (simp add: key_le_def)

lemma hi_gt_Some [simp]: "hi_gt (Some h) k = (k < h)"
  by (simp add: hi_gt_def)

lemma hi_gt_None [simp]: "hi_gt None k"
  by (simp add: hi_gt_def)

lemma key_lt_le: "key_lt a k \<Longrightarrow> key_le a k"
  by (cases a) auto

lemma key_le_trans: "key_le a k \<Longrightarrow> k \<le> k' \<Longrightarrow> key_le a k'"
  by (cases a) auto

lemma key_le_lt_trans: "key_le a k \<Longrightarrow> k < k' \<Longrightarrow> key_lt a k'"
  by (cases a) auto

lemma olt_key_le: "olt a b \<Longrightarrow> key_le b k \<Longrightarrow> key_lt a k"
  by (cases a; cases b) auto

lemma hi_gt_trans: "hi_gt hi k \<Longrightarrow> k' \<le> k \<Longrightarrow> hi_gt hi k'"
  by (cases hi) auto

lemma sorted_wrt_olt_nth:
  "sorted_wrt olt (map skey ss) \<Longrightarrow> i < j \<Longrightarrow> j < length ss \<Longrightarrow> olt (skey (ss ! i)) (skey (ss ! j))"
  by (auto simp: sorted_wrt_iff_nth_less)

lemma sorted_keys_Some:
  assumes "sorted_wrt olt (map skey ss)" "0 < j" "j < length ss"
  shows "skey (ss ! j) \<noteq> None"
  using sorted_wrt_olt_nth [OF assms(1), of 0 j] assms(2,3) by (cases "skey (ss ! j)") auto

lemma takeWhile_holds_nth:
  assumes "j < length (takeWhile P xs)"
  shows "P (xs ! j)"
proof -
  have "takeWhile P xs ! j \<in> set (takeWhile P xs)" using assms by (rule nth_mem)
  then have "P (takeWhile P xs ! j)" by (auto dest: set_takeWhileD)
  then show ?thesis using assms by (simp add: takeWhile_nth)
qed

text \<open>The child that \<open>SearchChild\<close> picks covers the key.\<close>

lemma child_pos_less:
  assumes "ss \<noteq> []"
  shows "child_pos ss k < length ss"
proof -
  let ?c = "length (takeWhile (\<lambda>s. key_le (skey s) k) ss)"
  have le: "?c \<le> length ss" by (rule length_takeWhile_le)
  have pos: "0 < length ss" using assms by simp
  show ?thesis
  proof (cases "?c = 0")
    case True
    then show ?thesis using pos by (simp add: child_pos_def)
  next
    case False
    then have "?c - 1 < length ss" using le by arith
    then show ?thesis using False by (simp add: child_pos_def Let_def)
  qed
qed

lemma child_pos_le:
  assumes "ss \<noteq> []" "key_le (skey (hd ss)) k"
  shows "key_le (skey (ss ! child_pos ss k)) k"
proof -
  let ?P = "\<lambda>s. key_le (skey s) k"
  let ?c = "length (takeWhile ?P ss)"
  from assms obtain s ss' where ss: "ss = s # ss'" "?P s" by (cases ss) auto
  then have c: "0 < ?c" by simp
  have "?c - 1 < ?c" using c by simp
  then have "?P (ss ! (?c - 1))" by (rule takeWhile_holds_nth)
  then show ?thesis using c by (simp add: child_pos_def Let_def)
qed

lemma child_pos_gt:
  assumes "ss \<noteq> []" "key_le (skey (hd ss)) k" "Suc (child_pos ss k) < length ss"
  shows "\<not> key_le (skey (ss ! Suc (child_pos ss k))) k"
proof -
  let ?P = "\<lambda>s. key_le (skey s) k"
  let ?c = "length (takeWhile ?P ss)"
  from assms obtain s ss' where ss: "ss = s # ss'" "?P s" by (cases ss) auto
  then have c: "0 < ?c" by simp
  then have e: "Suc (child_pos ss k) = ?c" by (simp add: child_pos_def Let_def)
  with assms(3) have "?c < length ss" by simp
  then have "\<not> ?P (ss ! ?c)" by (rule nth_length_takeWhile)
  then show ?thesis using e by simp
qed

lemma child_pos_hi:
  assumes "ss \<noteq> []" "key_le (skey (hd ss)) k" "hi_gt hi k"
  shows "hi_gt (hi_at ss (child_pos ss k) hi) k"
proof (cases "Suc (child_pos ss k) < length ss")
  case True
  from child_pos_gt [OF assms(1,2) True] show ?thesis
    using True by (cases "skey (ss ! Suc (child_pos ss k))") (auto simp: hi_at_def)
next
  case False
  then show ?thesis using assms(3) by (simp add: hi_at_def)
qed

lemma child_pos_unique:
  assumes "sorted_wrt olt (map skey ss)" "i < length ss" "key_le (skey (ss ! i)) k"
      and "Suc i < length ss \<longrightarrow> \<not> key_le (skey (ss ! Suc i)) k"
  shows "child_pos ss k = i"
proof -
  let ?P = "\<lambda>s. key_le (skey s) k"
  have before: "?P (ss ! j)" if "j \<le> i" for j
  proof (cases "j = i")
    case True
    then show ?thesis using assms(3) by simp
  next
    case False
    with that have "j < i" by simp
    then have "olt (skey (ss ! j)) (skey (ss ! i))"
      using assms(1,2) by (intro sorted_wrt_olt_nth) auto
    then show ?thesis using assms(3) by (auto intro: key_lt_le olt_key_le)
  qed
  have a: "Suc i \<le> length (takeWhile ?P ss)"
  proof (rule ccontr)
    assume "\<not> Suc i \<le> length (takeWhile ?P ss)"
    then have l: "length (takeWhile ?P ss) \<le> i" by simp
    then have "length (takeWhile ?P ss) < length ss" using assms(2) by simp
    then have "\<not> ?P (ss ! length (takeWhile ?P ss))" by (rule nth_length_takeWhile)
    then show False using before [OF l] by simp
  qed
  have b: "length (takeWhile ?P ss) \<le> Suc i"
  proof (rule ccontr)
    assume "\<not> length (takeWhile ?P ss) \<le> Suc i"
    then have l: "Suc i < length (takeWhile ?P ss)" by simp
    then have "?P (ss ! Suc i)" by (rule takeWhile_holds_nth)
    moreover have "Suc i < length ss"
      using l length_takeWhile_le [of ?P ss] by simp
    ultimately show False using assms(4) by simp
  qed
  from a b have "length (takeWhile ?P ss) = Suc i" by simp
  then show ?thesis by (simp add: child_pos_def)
qed

subsection \<open>Records of a leaf\<close>

lemma lrecs_Nil [simp]: "lrecs [] = []"
  by (simp add: lrecs_def)

lemma lrecs_append [simp]: "lrecs (xs @ ys) = lrecs xs @ lrecs ys"
  by (simp add: lrecs_def map_filter_def)

lemma lrecs_Cons: "lrecs (s # ss) = (case slot_rec s of None \<Rightarrow> lrecs ss | Some r \<Rightarrow> r # lrecs ss)"
  by (simp add: lrecs_def map_filter_def split: option.splits)

lemma lrecs_single_live [simp]: "lrecs [Slot (Some k) (Val v) False] = [(k, v)]"
  by (simp add: lrecs_Cons slot_rec_def)

lemma lrecs_Cons_live [simp]: "lrecs (Slot (Some k) (Val v) False # ss) = (k, v) # lrecs ss"
  by (simp add: lrecs_Cons slot_rec_def)

lemma slot_rec_Some_iff:
  "slot_rec s = Some (k, v) \<longleftrightarrow> s = Slot (Some k) (Val v) False"
  by (cases s) (auto simp: slot_rec_def split: option.splits pay.splits)

lemma slot_rec_key: "slot_rec s = Some r \<Longrightarrow> skey s = Some (fst r)"
  by (cases r) (auto simp: slot_rec_Some_iff)

lemma lrecs_single_key:
  "skey s = Some k \<Longrightarrow> lrecs [s] = [] \<or> (\<exists>w. lrecs [s] = [(k, w)])"
  by (cases "slot_rec s") (auto simp: lrecs_Cons dest: slot_rec_key)

lemma set_lrecs: "set (lrecs ss) = {r. \<exists>s\<in>set ss. slot_rec s = Some r}"
  by (induction ss) (auto simp: lrecs_Cons split: option.splits)

lemma lrecs_keys:
  "r \<in> set (lrecs ss) \<Longrightarrow> \<exists>s\<in>set ss. skey s = Some (fst r)"
  by (auto simp: set_lrecs dest: slot_rec_key)

lemma lrecs_live [simp]: "lrecs (live ss) = lrecs ss"
proof (induction ss)
  case Nil
  show ?case by (simp add: live_def)
next
  case (Cons s ss)
  have "sdel s \<Longrightarrow> slot_rec s = None"
    by (cases s) (auto simp: slot_rec_def split: option.splits pay.splits)
  with Cons show ?case by (auto simp: live_def lrecs_Cons split: option.splits)
qed

lemma upsert_append_lt:
  "\<forall>x\<in>set A. fst x < k \<Longrightarrow> upsert k v (A @ B) = A @ upsert k v B"
  by (induction A) auto

lemma upsert_gt:
  "\<forall>x\<in>set B. k < fst x \<Longrightarrow> upsert k v B = (k, v) # B"
  by (cases B) auto

lemma upsert_between:
  assumes "\<forall>x\<in>set A. fst x < k" "\<forall>x\<in>set B. k < fst x"
  shows "upsert k v (A @ B) = A @ (k, v) # B"
    and "upsert k v (A @ (k, w) # B) = A @ (k, v) # B"
  using assms by (simp_all add: upsert_append_lt upsert_gt)

lemma upsert_within:
  assumes "\<forall>x\<in>set A. fst x < k" "\<forall>x\<in>set B. k < fst x"
  shows "upsert k v (A @ X @ B) = A @ upsert k v X @ B"
proof -
  have "upsert k v (X @ B) = upsert k v X @ B"
    using assms(2) by (induction X) (auto simp: upsert_gt)
  then show ?thesis using assms(1) by (simp add: upsert_append_lt)
qed

lemma map_of_upsert: "map_of (upsert k v xs) = (map_of xs)(k \<mapsto> v)"
  by (induction xs) (auto simp: fun_upd_twist)

lemma set_upsert: "set (upsert k v xs) \<subseteq> insert (k, v) (set xs)"
  by (induction xs) (auto split: if_splits)

text \<open>Positions in an ordered node.\<close>

lemma lower_pos_le: "lower_pos ss k \<le> length ss"
  by (simp add: lower_pos_def length_takeWhile_le)

lemma lower_pos_before:
  "s \<in> set (take (lower_pos ss k) ss) \<Longrightarrow> key_lt (skey s) k"
  by (metis lower_pos_def set_takeWhileD takeWhile_eq_take)

lemma lower_pos_after:
  assumes "sorted_wrt olt (map skey ss)" "s \<in> set (drop (lower_pos ss k) ss)"
  shows "\<not> key_lt (skey s) k"
proof -
  let ?P = "\<lambda>s. key_lt (skey s) k"
  let ?p = "lower_pos ss k"
  from assms(2) obtain j where j: "j < length ss - ?p" "s = ss ! (?p + j)"
    by (auto simp: in_set_conv_nth)
  then have lt: "?p < length ss" by simp
  have first: "\<not> ?P (ss ! ?p)"
    using lt unfolding lower_pos_def by (rule nth_length_takeWhile)
  show ?thesis
  proof (cases j)
    case 0
    then show ?thesis using first j by simp
  next
    case (Suc j')
    then have "olt (skey (ss ! ?p)) (skey s)"
      using j assms(1) by (auto intro: sorted_wrt_olt_nth)
    then show ?thesis using first
      by (cases "skey (ss ! ?p)"; cases "skey s") (auto simp: olt_def)
  qed
qed

lemma SearchRecord_pos [simp]: "snd (SearchRecord n k) = lower_pos (slots n) k"
  by (simp add: SearchRecord_def Let_def)

lemma SearchRecord_found:
  "fst (SearchRecord n k) = kKeyAlreadyInserted \<longleftrightarrow>
     lower_pos (slots n) k < length (slots n) \<and> skey (slots n ! lower_pos (slots n) k) = Some k"
  by (simp add: SearchRecord_def Let_def)

lemma SearchRecord_cases:
  obtains (found) "SearchRecord n k = (kKeyAlreadyInserted, lower_pos (slots n) k)"
      "lower_pos (slots n) k < length (slots n)" "skey (slots n ! lower_pos (slots n) k) = Some k"
  | (absent) "SearchRecord n k = (kKeyNotInserted, lower_pos (slots n) k)"
      "\<not> (lower_pos (slots n) k < length (slots n) \<and> skey (slots n ! lower_pos (slots n) k) = Some k)"
  by (auto simp: SearchRecord_def Let_def)

lemma absent_not_in_slots:
  assumes "sorted_wrt olt (map skey ss)"
      and "\<not> (lower_pos ss k < length ss \<and> skey (ss ! lower_pos ss k) = Some k)"
  shows "\<forall>s\<in>set ss. skey s \<noteq> Some k"
proof
  fix s assume s: "s \<in> set ss"
  show "skey s \<noteq> Some k"
  proof
    assume e: "skey s = Some k"
    let ?p = "lower_pos ss k"
    have "s \<notin> set (take ?p ss)" using lower_pos_before [of s ss k] e by auto
    moreover have "set ss = set (take ?p ss) \<union> set (drop ?p ss)"
      by (metis append_take_drop_id set_append)
    ultimately have "s \<in> set (drop ?p ss)" using s by auto
    then obtain j where j: "j < length ss - ?p" "s = ss ! (?p + j)"
      by (auto simp: in_set_conv_nth)
    show False
    proof (cases j)
      case 0
      then show ?thesis using j e assms(2) by simp
    next
      case (Suc j')
      then have o: "olt (skey (ss ! ?p)) (skey s)"
        using j assms(1) by (auto intro: sorted_wrt_olt_nth)
      have "?p < length ss" using j by simp
      then have "\<not> key_lt (skey (ss ! ?p)) k"
        unfolding lower_pos_def by (rule nth_length_takeWhile)
      then show ?thesis using o e by simp
    qed
  qed
qed

lemma drop_keys_above:
  assumes "sorted_wrt olt (map skey ss)" "\<forall>s\<in>set ss. skey s \<noteq> Some k \<and> skey s \<noteq> None"
      and "s \<in> set (drop (lower_pos ss k) ss)"
  shows "olt (Some k) (skey s)"
proof -
  have "\<not> key_lt (skey s) k" using assms(1,3) by (rule lower_pos_after)
  moreover have "s \<in> set ss" using assms(3) by (rule in_set_dropD)
  ultimately show ?thesis using assms(2) by (cases "skey s") (auto simp: olt_def)
qed

lemma upsert_mem: "(k, v) \<in> set (upsert k v xs)"
  by (induction xs) auto

subsection \<open>Writing into a leaf\<close>

lemma leaf_okD:
  assumes "leaf_ok lo hi ss"
  shows "sorted_wrt olt (map skey ss)"
    and "\<And>s. s \<in> set ss \<Longrightarrow> \<not> is_child s \<and> (\<exists>k. skey s = Some k \<and> key_le lo k \<and> hi_gt hi k)"
  using assms by (auto simp: leaf_ok_def split: option.splits)

lemma leaf_okI:
  assumes "sorted_wrt olt (map skey ss)"
      and "\<And>s. s \<in> set ss \<Longrightarrow> \<not> is_child s \<and> (\<exists>k. skey s = Some k \<and> key_le lo k \<and> hi_gt hi k)"
  shows "leaf_ok lo hi ss"
  using assms by (fastforce simp: leaf_ok_def split: option.splits)

lemma leaf_ok_live: "leaf_ok lo hi ss \<Longrightarrow> leaf_ok lo hi (live ss)"
  by (auto simp: leaf_ok_def live_def sorted_wrt_map intro: sorted_wrt_filter)

lemma leaf_ok_take: "leaf_ok lo hi ss \<Longrightarrow> leaf_ok lo hi (take m ss)"
  by (auto simp: leaf_ok_def sorted_wrt_map intro: sorted_wrt_take dest: in_set_takeD)

lemma leaf_ok_drop: "leaf_ok lo hi ss \<Longrightarrow> leaf_ok lo hi (drop m ss)"
  by (auto simp: leaf_ok_def sorted_wrt_map intro: sorted_wrt_drop dest: in_set_dropD)

lemma leaf_ok_widen:
  assumes "leaf_ok lo hi ss" "\<And>k. key_le lo k \<Longrightarrow> key_le lo' k" "\<And>k. hi_gt hi k \<Longrightarrow> hi_gt hi' k"
  shows "leaf_ok lo' hi' ss"
  using assms by (auto simp: leaf_ok_def split: option.splits)

lemma take_keys_below:
  assumes "sorted_wrt olt (map skey ss)" "m < length ss" "s \<in> set (take m ss)"
  shows "olt (skey s) (skey (ss ! m))"
proof -
  from assms(3) obtain j where "j < m" "j < length ss" "s = ss ! j"
    by (auto simp: in_set_conv_nth)
  then show ?thesis using assms(1,2) by (auto intro: sorted_wrt_olt_nth)
qed

lemma drop_keys_from:
  assumes "sorted_wrt olt (map skey ss)" "m < length ss" "s \<in> set (drop m ss)"
  shows "skey s = skey (ss ! m) \<or> olt (skey (ss ! m)) (skey s)"
proof -
  from assms(3) obtain j where j: "j < length ss - m" "s = ss ! (m + j)"
    by (auto simp: in_set_conv_nth)
  show ?thesis
  proof (cases j)
    case 0
    then show ?thesis using j by simp
  next
    case (Suc j')
    then show ?thesis using j assms(1) by (auto intro: sorted_wrt_olt_nth)
  qed
qed

lemma leaf_insert_ok:
  assumes ok: "leaf_ok lo hi ss" and lo: "key_le lo k" and hi: "hi_gt hi k"
      and absent: "\<forall>s\<in>set ss. skey s \<noteq> Some k"
  shows "leaf_ok lo hi (take (lower_pos ss k) ss @ [Slot (Some k) (Val v) False] @ drop (lower_pos ss k) ss)"
    and "lrecs (take (lower_pos ss k) ss @ [Slot (Some k) (Val v) False] @ drop (lower_pos ss k) ss)
           = upsert k v (lrecs ss)"
proof -
  let ?p = "lower_pos ss k"
  let ?A = "take ?p ss" and ?B = "drop ?p ss"
  note so = leaf_okD(1) [OF ok] and el = leaf_okD(2) [OF ok]
  have A: "olt (skey s) (Some k)" if "s \<in> set ?A" for s
    using lower_pos_before [OF that] by simp
  have nk: "\<forall>s\<in>set ss. skey s \<noteq> Some k \<and> skey s \<noteq> None"
    using absent el by auto
  have B: "olt (Some k) (skey s)" if "s \<in> set ?B" for s
    using so nk that by (rule drop_keys_above)
  have AB: "olt (skey a) (skey b)" if "a \<in> set ?A" "b \<in> set ?B" for a b
    using A [OF that(1)] B [OF that(2)] by (rule olt_trans)
  have sA: "sorted_wrt olt (map skey ?A)" and sB: "sorted_wrt olt (map skey ?B)"
    using so by (auto simp: sorted_wrt_map intro: sorted_wrt_take sorted_wrt_drop)
  have "sorted_wrt olt (map skey (?A @ [Slot (Some k) (Val v) False] @ ?B))"
    using sA sB A B AB by (auto simp: sorted_wrt_append)
  moreover have "\<not> is_child s \<and> (\<exists>k'. skey s = Some k' \<and> key_le lo k' \<and> hi_gt hi k')"
    if "s \<in> set (?A @ [Slot (Some k) (Val v) False] @ ?B)" for s
  proof -
    from that consider "s \<in> set ss" | "s = Slot (Some k) (Val v) False"
      by (auto dest: in_set_takeD in_set_dropD)
    then show ?thesis
      using el lo hi by cases (auto simp: is_child_def)
  qed
  ultimately show "leaf_ok lo hi (?A @ [Slot (Some k) (Val v) False] @ ?B)"
    by (rule leaf_okI)
  have rA: "\<forall>x\<in>set (lrecs ?A). fst x < k"
  proof
    fix x assume "x \<in> set (lrecs ?A)"
    then obtain s where "s \<in> set ?A" "skey s = Some (fst x)" by (auto dest: lrecs_keys)
    then show "fst x < k" using A by fastforce
  qed
  have rB: "\<forall>x\<in>set (lrecs ?B). k < fst x"
  proof
    fix x assume "x \<in> set (lrecs ?B)"
    then obtain s where "s \<in> set ?B" "skey s = Some (fst x)" by (auto dest: lrecs_keys)
    then show "k < fst x" using B [of s] by (simp add: olt_def)
  qed
  have "lrecs ss = lrecs ?A @ lrecs ?B"
    by (metis append_take_drop_id lrecs_append)
  then show "lrecs (?A @ [Slot (Some k) (Val v) False] @ ?B) = upsert k v (lrecs ss)"
    using upsert_between(1) [OF rA rB] by simp
qed

lemma leaf_overwrite_ok:
  assumes ok: "leaf_ok lo hi ss" and p: "p < length ss" and k: "skey (ss ! p) = Some k"
  shows "leaf_ok lo hi (ss[p := Slot (Some k) (Val v) False])"
    and "lrecs (ss[p := Slot (Some k) (Val v) False]) = upsert k v (lrecs ss)"
proof -
  let ?A = "take p ss" and ?B = "drop (Suc p) ss"
  let ?s = "Slot (Some k) (Val v) False"
  note so = leaf_okD(1) [OF ok] and el = leaf_okD(2) [OF ok]
  have keys: "map skey (ss[p := ?s]) = map skey ss"
    using p k by (simp add: map_update list_update_same_conv)
  have lohi: "key_le lo k \<and> hi_gt hi k"
    using el [of "ss ! p"] p k by auto
  have "\<not> is_child s \<and> (\<exists>k'. skey s = Some k' \<and> key_le lo k' \<and> hi_gt hi k')"
    if "s \<in> set (ss[p := ?s])" for s
  proof -
    from that have "s \<in> set ss \<or> s = ?s" by (auto dest: set_update_subset_insert [THEN subsetD])
    then show ?thesis using el lohi by (auto simp: is_child_def)
  qed
  then show "leaf_ok lo hi (ss[p := ?s])"
    using so keys by (intro leaf_okI) auto
  have A: "olt (skey s) (Some k)" if "s \<in> set ?A" for s
    using take_keys_below [OF so p that] k by simp
  have B: "olt (Some k) (skey s)" if "s \<in> set ?B" for s
  proof -
    from that obtain j where j: "j < length ss - Suc p" "s = ss ! (Suc p + j)"
      by (auto simp: in_set_conv_nth)
    then have "olt (skey (ss ! p)) (skey s)" using so by (auto intro: sorted_wrt_olt_nth)
    then show ?thesis using k by simp
  qed
  have rA: "\<forall>x\<in>set (lrecs ?A). fst x < k"
  proof
    fix x assume "x \<in> set (lrecs ?A)"
    then obtain s where "s \<in> set ?A" "skey s = Some (fst x)" by (auto dest: lrecs_keys)
    then show "fst x < k" using A by fastforce
  qed
  have rB: "\<forall>x\<in>set (lrecs ?B). k < fst x"
  proof
    fix x assume "x \<in> set (lrecs ?B)"
    then obtain s where "s \<in> set ?B" "skey s = Some (fst x)" by (auto dest: lrecs_keys)
    then show "k < fst x" using B [of s] by (simp add: olt_def)
  qed
  have old: "lrecs ss = lrecs ?A @ lrecs [ss ! p] @ lrecs ?B"
    using p by (metis append_Cons append_Nil id_take_nth_drop lrecs_append)
  have new: "lrecs (ss[p := ?s]) = lrecs ?A @ (k, v) # lrecs ?B"
    using p by (simp add: upd_conv_take_nth_drop lrecs_Cons slot_rec_def)
  from lrecs_single_key [OF k] show "lrecs (ss[p := ?s]) = upsert k v (lrecs ss)"
    using old new upsert_between [OF rA rB] by auto
qed

lemma node_Write_leaf:
  assumes ok: "leaf_ok lo hi (slots n)" and lo: "key_le lo k" and hi: "hi_gt hi k"
      and w: "node_Write c n k v = (rc, n')"
  shows "rc = kNeedSplit \<Longrightarrow>
           n' = n \<and> cap c \<le> length (live (slots n)) \<and> (\<forall>s\<in>set (slots n). skey s \<noteq> Some k)"
    and "rc \<noteq> kNeedSplit \<Longrightarrow>
           leaf_ok lo hi (slots n') \<and> lrecs (slots n') = upsert k v (lrecs (slots n)) \<and>
           is_inner n' = is_inner n \<and> high_key n' = high_key n \<and> next_ptr n' = next_ptr n \<and>
           is_removed n' = is_removed n"
proof -
  note so = leaf_okD(1) [OF ok]
  show "n' = n \<and> cap c \<le> length (live (slots n)) \<and> (\<forall>s\<in>set (slots n). skey s \<noteq> Some k)"
    if "rc = kNeedSplit"
  proof (cases n k rule: SearchRecord_cases)
    case found
    then show ?thesis using w that by (simp add: node_Write_def)
  next
    case absent
    then have "\<forall>s\<in>set (slots n). skey s \<noteq> Some k"
      using so by (intro absent_not_in_slots) auto
    then show ?thesis using w that absent
      by (auto simp: node_Write_def add_record_def make_room_def split: if_splits)
  qed
  show "leaf_ok lo hi (slots n') \<and> lrecs (slots n') = upsert k v (lrecs (slots n)) \<and>
        is_inner n' = is_inner n \<and> high_key n' = high_key n \<and> next_ptr n' = next_ptr n \<and>
        is_removed n' = is_removed n"
    if "rc \<noteq> kNeedSplit"
  proof (cases n k rule: SearchRecord_cases)
    case found
    then have n': "n' = overwrite n k (Val v) (lower_pos (slots n) k)"
      using w by (simp add: node_Write_def)
    show ?thesis
      using leaf_overwrite_ok [OF ok found(2,3), of v]
      by (simp add: n' overwrite_def bump_def)
  next
    case absent
    then have ab: "\<forall>s\<in>set (slots n). skey s \<noteq> Some k"
      using so by (intro absent_not_in_slots) auto
    from w absent that obtain m where m: "make_room c n = Some m"
        "n' = InsertRecord m k (Val v) (lower_pos (slots m) k)"
      by (auto simp: node_Write_def add_record_def split: option.splits)
    then have ms: "slots m = slots n \<or> slots m = live (slots n)"
        and mf: "is_inner m = is_inner n" "high_key m = high_key n" "next_ptr m = next_ptr n"
                "is_removed m = is_removed n"
      by (auto simp: make_room_def split: if_splits)
    have okm: "leaf_ok lo hi (slots m)" using ms ok leaf_ok_live by auto
    have abm: "\<forall>s\<in>set (slots m). skey s \<noteq> Some k" using ms ab by (auto simp: live_def)
    have rm: "lrecs (slots m) = lrecs (slots n)" using ms by auto
    show ?thesis
      using leaf_insert_ok [OF okm lo hi abm, of v] mf rm
      by (simp add: m(2) InsertRecord_def bump_def)
  qed
qed

subsection \<open>Children, slot by slot\<close>

lemma kids_ok_Cons:
  "kids_ok c t h (s # ss) hi bs =
     (wf_sub c t h (kid s) (skey s) (case ss of [] \<Rightarrow> hi | s' # _ \<Rightarrow> skey s')
        (case ss of [] \<Rightarrow> bs | s' # _ \<Rightarrow> lspine t h (kid s')) \<and>
      kids_ok c t h ss hi bs)"
  by (cases ss) auto

lemma kids_ok_append:
  "kids_ok c t h (xs @ y # ys) hi bs =
     (kids_ok c t h xs (skey y) (lspine t h (kid y)) \<and> kids_ok c t h (y # ys) hi bs)"
proof (induction xs)
  case Nil
  show ?case by simp
next
  case (Cons x xs)
  show ?case
  proof (cases xs)
    case Nil
    then show ?thesis by simp
  next
    case (Cons x' xs')
    then show ?thesis using Cons.IH by simp
  qed
qed

lemma kids_ok_nth:
  "kids_ok c t h ss hi bs =
     (\<forall>i<length ss. wf_sub c t h (kid (ss ! i)) (skey (ss ! i)) (hi_at ss i hi) (bs_at t h ss i bs))"
proof (induction ss)
  case Nil
  show ?case by simp
next
  case (Cons s ss)
  have "(\<forall>i<length (s # ss). wf_sub c t h (kid ((s # ss) ! i)) (skey ((s # ss) ! i))
            (hi_at (s # ss) i hi) (bs_at t h (s # ss) i bs)) =
        (wf_sub c t h (kid s) (skey s) (hi_at (s # ss) 0 hi) (bs_at t h (s # ss) 0 bs) \<and>
         (\<forall>i<length ss. wf_sub c t h (kid (ss ! i)) (skey (ss ! i))
            (hi_at (s # ss) (Suc i) hi) (bs_at t h (s # ss) (Suc i) bs)))"
    by (auto simp: All_less_Suc2)
  moreover have "hi_at (s # ss) (Suc i) hi = hi_at ss i hi" for i
    by (simp add: hi_at_def)
  moreover have "bs_at t h (s # ss) (Suc i) bs = bs_at t h ss i bs" for i
    by (simp add: bs_at_def)
  moreover have "hi_at (s # ss) 0 hi = (case ss of [] \<Rightarrow> hi | s' # _ \<Rightarrow> skey s')"
    by (cases ss) (auto simp: hi_at_def)
  moreover have "bs_at t h (s # ss) 0 bs = (case ss of [] \<Rightarrow> bs | s' # _ \<Rightarrow> lspine t h (kid s'))"
    by (cases ss) (auto simp: bs_at_def)
  ultimately show ?case using Cons by (simp add: kids_ok_Cons)
qed

lemma kids_apart_append:
  "kids_apart t h (xs @ ys) =
     (kids_apart t h xs \<and> kids_apart t h ys \<and>
      (\<forall>x\<in>set xs. \<forall>y\<in>set ys. fp t h (kid x) \<inter> fp t h (kid y) = {}))"
  by (induction xs) auto

lemma kids_apart_nth:
  "kids_apart t h ss =
     (\<forall>i<length ss. \<forall>j<i. fp t h (kid (ss ! i)) \<inter> fp t h (kid (ss ! j)) = {})"
proof (induction ss)
  case Nil
  show ?case by simp
next
  case (Cons s ss)
  have "(\<forall>i<length (s # ss). \<forall>j<i. fp t h (kid ((s # ss) ! i)) \<inter> fp t h (kid ((s # ss) ! j)) = {})
        = ((\<forall>i<length ss. fp t h (kid (ss ! i)) \<inter> fp t h (kid s) = {}) \<and>
           (\<forall>i<length ss. \<forall>j<i. fp t h (kid (ss ! i)) \<inter> fp t h (kid (ss ! j)) = {}))"
    (is "?L = (?A \<and> ?B)")
  proof
    assume L: ?L
    have ?A
    proof (intro allI impI)
      fix i assume "i < length ss"
      then show "fp t h (kid (ss ! i)) \<inter> fp t h (kid s) = {}"
        using L [rule_format, of "Suc i" 0] by simp
    qed
    moreover have ?B
    proof (intro allI impI)
      fix i j assume "i < length ss" "j < i"
      then show "fp t h (kid (ss ! i)) \<inter> fp t h (kid (ss ! j)) = {}"
        using L [rule_format, of "Suc i" "Suc j"] by simp
    qed
    ultimately show "?A \<and> ?B" ..
  next
    assume AB: "?A \<and> ?B"
    show ?L
    proof (intro allI impI)
      fix i j assume ij: "i < length (s # ss)" "j < i"
      then obtain i' where i': "i = Suc i'" "i' < length ss" by (cases i) auto
      show "fp t h (kid ((s # ss) ! i)) \<inter> fp t h (kid ((s # ss) ! j)) = {}"
      proof (cases j)
        case 0
        then show ?thesis using AB i' by simp
      next
        case (Suc j')
        then show ?thesis using AB i' ij by simp
      qed
    qed
  qed
  moreover have "(\<forall>s'\<in>set ss. fp t h (kid s) \<inter> fp t h (kid s') = {}) = ?A"
    by (auto simp: all_set_conv_all_nth Int_commute)
  ultimately show ?case using Cons by simp
qed

lemma apart_iff:
  "apart t h p ss = (p \<notin> kids_fp t h ss \<and> kids_apart t h ss)"
proof -
  have "(p \<notin> kids_fp t h ss) = (\<forall>i<length ss. p \<notin> fp t h (kid (ss ! i)))"
    unfolding kids_fp_def by (simp add: all_set_conv_all_nth)
  then show ?thesis unfolding apart_def kids_apart_nth by blast
qed

lemma wf_sub_Suc:
  "wf_sub c t (Suc h) p lo hi bs =
     (\<exists>n. heap t p = Some n \<and> is_inner n \<and> bs \<noteq> [] \<and> node_ok n hi (hd bs) \<and>
          inner_ok c lo hi (slots n) \<and> p \<notin> kids_fp t h (slots n) \<and> kids_apart t h (slots n) \<and>
          kids_ok c t h (slots n) hi (tl bs))"
  by (auto simp: apart_iff kids_ok_nth split: option.splits)

lemma wf_sub_0:
  "wf_sub c t 0 p lo hi bs =
     (\<exists>n. heap t p = Some n \<and> \<not> is_inner n \<and> bs = [next_ptr n] \<and> node_ok n hi (next_ptr n) \<and>
          leaf_ok lo hi (slots n))"
  by (auto split: option.splits)

lemma fp_Suc: "heap t p = Some n \<Longrightarrow> fp t (Suc h) p = insert p (kids_fp t h (slots n))"
  by (simp add: kids_fp_def)

lemma recs_Suc: "heap t p = Some n \<Longrightarrow> recs_of t (Suc h) p = kids_recs t h (slots n)"
  by (simp add: kids_recs_def)

lemma recs_0: "heap t p = Some n \<Longrightarrow> recs_of t 0 p = lrecs (slots n)"
  by (simp add: lrecs_def)

lemma lspine_Suc:
  "heap t p = Some n \<Longrightarrow> slots n = s # ss \<Longrightarrow> lspine t (Suc h) p = Some p # lspine t h (kid s)"
  by simp

lemma kids_fp_append [simp]: "kids_fp t h (xs @ ys) = kids_fp t h xs \<union> kids_fp t h ys"
  by (auto simp: kids_fp_def)

lemma kids_fp_Cons [simp]: "kids_fp t h (s # ss) = fp t h (kid s) \<union> kids_fp t h ss"
  by (auto simp: kids_fp_def)

lemma kids_fp_Nil [simp]: "kids_fp t h [] = {}"
  by (simp add: kids_fp_def)

lemma kids_recs_append [simp]: "kids_recs t h (xs @ ys) = kids_recs t h xs @ kids_recs t h ys"
  by (simp add: kids_recs_def)

lemma kids_recs_Cons [simp]: "kids_recs t h (s # ss) = recs_of t h (kid s) @ kids_recs t h ss"
  by (simp add: kids_recs_def)

lemma kids_recs_Nil [simp]: "kids_recs t h [] = []"
  by (simp add: kids_recs_def)

declare wf_sub.simps [simp del] fp.simps(2) [simp del] recs_of.simps [simp del] lspine.simps(2) [simp del]

subsection \<open>Children under a change of the store\<close>

lemma kids_frame:
  assumes "\<And>x. x \<in> kids_fp t h ss \<Longrightarrow> heap t' x = heap t x"
  shows "kids_fp t' h ss = kids_fp t h ss"
    and "kids_recs t' h ss = kids_recs t h ss"
    and "kids_apart t' h ss = kids_apart t h ss"
    and "\<And>s. s \<in> set ss \<Longrightarrow> lspine t' h (kid s) = lspine t h (kid s)"
    and "\<And>s. s \<in> set ss \<Longrightarrow> fp t' h (kid s) = fp t h (kid s)"
proof -
  have same: "heap t' x = heap t x" if "s \<in> set ss" "x \<in> fp t h (kid s)" for s x
    using assms that by (auto simp: kids_fp_def)
  show f: "fp t' h (kid s) = fp t h (kid s)" if "s \<in> set ss" for s
    using that same by (intro fp_frame) auto
  show "lspine t' h (kid s) = lspine t h (kid s)" if "s \<in> set ss" for s
    using that same by (intro lspine_frame) auto
  have r: "recs_of t' h (kid s) = recs_of t h (kid s)" if "s \<in> set ss" for s
    using that same by (intro recs_frame) auto
  show "kids_fp t' h ss = kids_fp t h ss" using f by (simp add: kids_fp_def)
  have "map (\<lambda>s. recs_of t' h (kid s)) ss = map (\<lambda>s. recs_of t h (kid s)) ss"
    using r by simp
  then show "kids_recs t' h ss = kids_recs t h ss" by (simp only: kids_recs_def)
  show "kids_apart t' h ss = kids_apart t h ss"
    using f by (simp add: kids_apart_nth)
qed

lemma kids_ok_frame:
  assumes "\<And>x. x \<in> kids_fp t h ss \<Longrightarrow> heap t' x = heap t x" and "kids_ok c t h ss hi bs"
  shows "kids_ok c t' h ss hi bs"
  unfolding kids_ok_nth
proof (intro allI impI)
  fix i assume i: "i < length ss"
  have same: "heap t' x = heap t x" if "s \<in> set ss" "x \<in> fp t h (kid s)" for s x
    using assms(1) that by (auto simp: kids_fp_def)
  have b: "bs_at t' h ss i bs = bs_at t h ss i bs"
    using kids_frame(4) [of t h ss t'] assms(1) by (intro bs_at_frame) auto
  have w: "wf_sub c t h (kid (ss ! i)) (skey (ss ! i)) (hi_at ss i hi) (bs_at t h ss i bs)"
    using assms(2) i by (simp add: kids_ok_nth)
  have s: "heap t' x = heap t x" if "x \<in> fp t h (kid (ss ! i))" for x
    using same [of "ss ! i" x] that i by simp
  show "wf_sub c t' h (kid (ss ! i)) (skey (ss ! i)) (hi_at ss i hi) (bs_at t' h ss i bs)"
    unfolding b using s w by (rule wf_frame)
qed

subsection \<open>The keys of a subtree lie within its bounds\<close>

lemma inner_okD:
  assumes "inner_ok c lo hi ss"
  shows "ss \<noteq> []" "length ss \<le> cap c" "skey (hd ss) = lo" "sorted_wrt olt (map skey ss)"
    and "\<And>s. s \<in> set ss \<Longrightarrow> is_child s \<and> \<not> sdel s"
    and "\<And>s k. s \<in> set ss \<Longrightarrow> skey s = Some k \<Longrightarrow> hi_gt hi k"
  using assms by (auto simp: inner_ok_def split: option.splits)

lemma inner_key_lo:
  assumes "inner_ok c lo hi ss" "i < length ss"
  shows "skey (ss ! i) = lo \<or> olt lo (skey (ss ! i))"
proof (cases i)
  case 0
  then show ?thesis using inner_okD(1,3) [OF assms(1)] by (simp add: hd_conv_nth)
next
  case (Suc j)
  have "olt (skey (ss ! 0)) (skey (ss ! i))"
    using inner_okD(4) [OF assms(1)] assms(2) Suc by (intro sorted_wrt_olt_nth) auto
  then show ?thesis using inner_okD(1,3) [OF assms(1)] by (simp add: hd_conv_nth)
qed

lemma inner_key_le:
  assumes "inner_ok c lo hi ss" "i < length ss" "key_le (skey (ss ! i)) k"
  shows "key_le lo k"
  using inner_key_lo [OF assms(1,2)] assms(3) by (auto intro: olt_key_le key_lt_le)

lemma inner_hi_at:
  assumes "inner_ok c lo hi ss" "i < length ss" "hi_gt (hi_at ss i hi) k"
  shows "hi_gt hi k"
proof (cases "Suc i < length ss")
  case True
  then have n: "skey (ss ! Suc i) \<noteq> None"
    using inner_okD(4) [OF assms(1)] by (intro sorted_keys_Some) auto
  then obtain k' where k': "skey (ss ! Suc i) = Some k'" by auto
  then have "hi_gt hi k'" using inner_okD(6) [OF assms(1), of "ss ! Suc i"] True by simp
  moreover have "k < k'" using assms(3) True k' by (simp add: hi_at_def)
  ultimately show ?thesis by (auto intro: hi_gt_trans)
next
  case False
  then show ?thesis using assms(3) by (simp add: hi_at_def)
qed

lemma wf_recs_range:
  "wf_sub c t h p lo hi bs \<Longrightarrow> r \<in> set (recs_of t h p) \<Longrightarrow> key_le lo (fst r) \<and> hi_gt hi (fst r)"
proof (induction h arbitrary: p lo hi bs r)
  case 0
  then obtain n where n: "heap t p = Some n" "leaf_ok lo hi (slots n)"
    by (auto simp: wf_sub_0)
  from 0(2) n obtain s where "s \<in> set (slots n)" "skey s = Some (fst r)"
    by (auto simp: recs_0 dest: lrecs_keys)
  then show ?case using leaf_okD(2) [OF n(2)] by fastforce
next
  case (Suc h)
  then obtain n where n: "heap t p = Some n" "inner_ok c lo hi (slots n)"
      "kids_ok c t h (slots n) hi (tl bs)"
    by (auto simp: wf_sub_Suc)
  from Suc.prems(2) n obtain s where s: "s \<in> set (slots n)" "r \<in> set (recs_of t h (kid s))"
    by (auto simp: recs_Suc kids_recs_def)
  then obtain i where i: "i < length (slots n)" "s = slots n ! i"
    by (auto simp: in_set_conv_nth)
  have "wf_sub c t h (kid s) (skey s) (hi_at (slots n) i hi) (bs_at t h (slots n) i (tl bs))"
    using n(3) i by (simp add: kids_ok_nth)
  from Suc.IH [OF this s(2)] show ?case
    using inner_key_le [OF n(2) i(1)] inner_hi_at [OF n(2) i(1)] i(2) by auto
qed

lemma set_kids_recs: "set (kids_recs t h ss) = (\<Union>s\<in>set ss. set (recs_of t h (kid s)))"
  by (simp add: kids_recs_def)

lemma in_set_take_nth:
  assumes "s \<in> set (take i ss)"
  shows "\<exists>j<i. j < length ss \<and> s = ss ! j"
proof -
  from assms obtain j where "j < length (take i ss)" "take i ss ! j = s"
    unfolding in_set_conv_nth by blast
  then show ?thesis by (intro exI [of _ j]) auto
qed

lemma in_set_drop_nth:
  assumes "s \<in> set (drop m ss)"
  shows "\<exists>j\<ge>m. j < length ss \<and> s = ss ! j"
proof -
  from assms obtain j where "j < length (drop m ss)" "drop m ss ! j = s"
    unfolding in_set_conv_nth by blast
  then show ?thesis by (intro exI [of _ "m + j"]) auto
qed

lemma kids_before_below:
  assumes ok: "inner_ok c lo hi ss" and kids: "kids_ok c t h ss hi bs"
      and i: "i < length ss" and k: "key_le (skey (ss ! i)) k"
      and r: "r \<in> set (kids_recs t h (take i ss))"
  shows "fst r < k"
proof -
  from r obtain s where "s \<in> set (take i ss)" "r \<in> set (recs_of t h (kid s))"
    unfolding set_kids_recs by blast
  then obtain j where j: "j < i" "r \<in> set (recs_of t h (kid (ss ! j)))"
    using in_set_take_nth [of s i ss] by blast
  have "wf_sub c t h (kid (ss ! j)) (skey (ss ! j)) (hi_at ss j hi) (bs_at t h ss j bs)"
    using kids i j by (simp add: kids_ok_nth)
  from wf_recs_range [OF this j(2)] have "hi_gt (skey (ss ! Suc j)) (fst r)"
    using i j by (simp add: hi_at_def)
  moreover have "skey (ss ! Suc j) = skey (ss ! i) \<or> olt (skey (ss ! Suc j)) (skey (ss ! i))"
  proof (cases "Suc j = i")
    case False
    then have "olt (skey (ss ! Suc j)) (skey (ss ! i))"
      using inner_okD(4) [OF ok] i j by (intro sorted_wrt_olt_nth) auto
    then show ?thesis ..
  qed simp
  moreover have "skey (ss ! Suc j) \<noteq> None"
    using inner_okD(4) [OF ok] i j by (intro sorted_keys_Some) auto
  ultimately show ?thesis using k
    by (cases "skey (ss ! Suc j)"; cases "skey (ss ! i)") (auto simp: olt_def hi_gt_def)
qed

lemma kids_after_above:
  assumes ok: "inner_ok c lo hi ss" and kids: "kids_ok c t h ss hi bs"
      and i: "i < length ss" and k: "hi_gt (hi_at ss i hi) k"
      and r: "r \<in> set (kids_recs t h (drop (Suc i) ss))"
  shows "k < fst r"
proof -
  from r obtain s where "s \<in> set (drop (Suc i) ss)" "r \<in> set (recs_of t h (kid s))"
    unfolding set_kids_recs by blast
  then obtain j where j: "Suc i \<le> j" "j < length ss" "r \<in> set (recs_of t h (kid (ss ! j)))"
    using in_set_drop_nth [of s "Suc i" ss] by blast
  have "wf_sub c t h (kid (ss ! j)) (skey (ss ! j)) (hi_at ss j hi) (bs_at t h ss j bs)"
    using kids j by (simp add: kids_ok_nth)
  from wf_recs_range [OF this j(3)] have le: "key_le (skey (ss ! j)) (fst r)" by simp
  have hk: "hi_gt (skey (ss ! Suc i)) k" using k j by (simp add: hi_at_def)
  have "skey (ss ! Suc i) = skey (ss ! j) \<or> olt (skey (ss ! Suc i)) (skey (ss ! j))"
  proof (cases "Suc i = j")
    case False
    then have "olt (skey (ss ! Suc i)) (skey (ss ! j))"
      using inner_okD(4) [OF ok] j by (intro sorted_wrt_olt_nth) auto
    then show ?thesis ..
  qed simp
  moreover have "skey (ss ! Suc i) \<noteq> None"
    using inner_okD(4) [OF ok] j by (intro sorted_keys_Some) auto
  ultimately show ?thesis using le hk
    by (cases "skey (ss ! Suc i)"; cases "skey (ss ! j)") (auto simp: olt_def hi_gt_def)
qed

lemma kids_recs_nth:
  assumes "i < length ss"
  shows "kids_recs t h ss =
     kids_recs t h (take i ss) @ recs_of t h (kid (ss ! i)) @ kids_recs t h (drop (Suc i) ss)"
proof -
  have e: "ss = take i ss @ ss ! i # drop (Suc i) ss"
    using assms by (rule id_take_nth_drop)
  have "kids_recs t h ss = kids_recs t h (take i ss @ ss ! i # drop (Suc i) ss)"
    by (rule arg_cong [OF e])
  also have "\<dots> = kids_recs t h (take i ss) @ recs_of t h (kid (ss ! i)) @
                   kids_recs t h (drop (Suc i) ss)"
    by (simp only: kids_recs_append kids_recs_Cons)
  finally show ?thesis .
qed

subsection \<open>Descent in a well-formed subtree\<close>

lemma CheckKeyRange_stay:
  assumes "heap t p = Some n" "\<not> is_removed n" "hi_gt (high_key n) k"
  shows "CheckKeyRange t p k = Some (Some p)"
  using assms by (subst CheckKeyRange.simps) (auto simp: hi_gt_def split: option.splits)

lemma locate_stay:
  assumes "heap t p = Some n" "\<not> is_removed n" "hi_gt (high_key n) k"
  shows "locate t p k = Some (p, n)"
  using assms by (simp add: locate_def CheckKeyRange_stay)

lemma child_at_kid:
  assumes "i < length (slots n)" "is_child (slots n ! i)"
  shows "child_at n i = Some (kid (slots n ! i))"
  using assms by (auto simp: child_at_def is_child_def kid_def split: pay.splits)

lemma wf_inner_child:
  assumes wf: "wf_sub c t (Suc h) p lo hi bs" and n: "heap t p = Some n"
      and lo: "key_le lo k" and hi: "hi_gt hi k"
  defines "i \<equiv> child_pos (slots n) k"
  shows "i < length (slots n)"
    and "wf_sub c t h (kid (slots n ! i)) (skey (slots n ! i)) (hi_at (slots n) i hi)
           (bs_at t h (slots n) i (tl bs))"
    and "key_le (skey (slots n ! i)) k" and "hi_gt (hi_at (slots n) i hi) k"
    and "SearchChild t p k = Some (Some (p, kid (slots n ! i)))"
proof -
  from wf n have ok: "inner_ok c lo hi (slots n)" and kids: "kids_ok c t h (slots n) hi (tl bs)"
      and nd: "node_ok n hi (hd bs)"
    by (auto simp: wf_sub_Suc)
  note ne = inner_okD(1) [OF ok]
  have hd: "key_le (skey (hd (slots n))) k" using inner_okD(3) [OF ok] lo by simp
  show i: "i < length (slots n)" unfolding i_def using ne by (rule child_pos_less)
  show "wf_sub c t h (kid (slots n ! i)) (skey (slots n ! i)) (hi_at (slots n) i hi)
           (bs_at t h (slots n) i (tl bs))"
    using kids i by (simp add: kids_ok_nth)
  show "key_le (skey (slots n ! i)) k" unfolding i_def using ne hd by (rule child_pos_le)
  show "hi_gt (hi_at (slots n) i hi) k" unfolding i_def using ne hd hi by (rule child_pos_hi)
  have "CheckKeyRange t p k = Some (Some p)"
    using n nd hi by (intro CheckKeyRange_stay) (auto simp: node_ok_def)
  moreover have "child_at n i = Some (kid (slots n ! i))"
    using i inner_okD(5) [OF ok, of "slots n ! i"] by (intro child_at_kid) auto
  ultimately show "SearchChild t p k = Some (Some (p, kid (slots n ! i)))"
    using n by (simp add: SearchChild_def i_def)
qed

lemma path_to_nonempty [simp]: "path_to t k h p \<noteq> []"
  by (cases h) auto

lemma hd_path_to [simp]: "hd (path_to t k h p) = p"
  by (cases h) auto

lemma search_write:
  "wf_sub c t h p lo hi bs \<Longrightarrow> key_le lo k \<Longrightarrow> hi_gt hi k \<Longrightarrow>
   SearchLeafNodeForWrite_loop t pre p k = Some (pre @ path_to t k h p)"
proof (induction h arbitrary: p lo hi bs pre)
  case 0
  then show ?case
    by (subst SearchLeafNodeForWrite_loop.simps) (auto simp: wf_sub_0)
next
  case (Suc h)
  from Suc.prems(1) obtain n where n: "heap t p = Some n" "is_inner n"
    by (auto simp: wf_sub_Suc)
  note ch = wf_inner_child [OF Suc.prems(1) n(1) Suc.prems(2,3)]
  have "SearchLeafNodeForWrite_loop t pre p k =
          SearchLeafNodeForWrite_loop t (pre @ [p]) (kid (slots n ! child_pos (slots n) k)) k"
    using n ch(5) by (subst SearchLeafNodeForWrite_loop.simps) simp
  also have "\<dots> = Some ((pre @ [p]) @ path_to t k h (kid (slots n ! child_pos (slots n) k)))"
    using ch(2,3,4) by (rule Suc.IH)
  finally show ?case using n by simp
qed

lemma search_read:
  "wf_sub c t h p lo hi bs \<Longrightarrow> key_le lo k \<Longrightarrow> hi_gt hi k \<Longrightarrow>
   SearchLeafNode_loop t p k = Some (last (path_to t k h p))"
proof (induction h arbitrary: p lo hi bs)
  case 0
  then show ?case
    by (subst SearchLeafNode_loop.simps) (auto simp: wf_sub_0)
next
  case (Suc h)
  from Suc.prems(1) obtain n where n: "heap t p = Some n" "is_inner n"
    by (auto simp: wf_sub_Suc)
  note ch = wf_inner_child [OF Suc.prems(1) n(1) Suc.prems(2,3)]
  have "SearchLeafNode_loop t p k =
          SearchLeafNode_loop t (kid (slots n ! child_pos (slots n) k)) k"
    using n ch(5) by (subst SearchLeafNode_loop.simps) simp
  also have "\<dots> = Some (last (path_to t k h (kid (slots n ! child_pos (slots n) k))))"
    using ch(2,3,4) by (rule Suc.IH)
  finally show ?case using n by simp
qed

lemma map_of_mid:
  assumes "\<forall>r\<in>set A. fst r < (k::'k::linorder)" "\<forall>r\<in>set B. k < fst r"
  shows "map_of (A @ X @ B) k = map_of X k"
proof -
  have "k \<notin> fst ` set A" using assms(1) by fastforce
  then have "map_of A k = None" by (simp add: map_of_eq_None_iff)
  moreover have "k \<notin> fst ` set B" using assms(2) by fastforce
  then have "map_of B k = None" by (simp add: map_of_eq_None_iff)
  ultimately show ?thesis by (simp add: map_add_def split: option.splits)
qed

lemma leaf_lookup:
  assumes ok: "leaf_ok lo hi (slots n)"
  shows "map_of (lrecs (slots n)) k = map_option snd (find_live n k)"
proof (cases n k rule: SearchRecord_cases)
  case found
  define p where "p = lower_pos (slots n) k"
  define A where "A = take p (slots n)"
  define B where "B = drop (Suc p) (slots n)"
  define s where "s = slots n ! p"
  note so = leaf_okD(1) [OF ok]
  have pl: "p < length (slots n)" and sk: "skey s = Some k"
    unfolding s_def p_def using found(2,3) by blast+
  have e: "slots n = A @ s # B"
    unfolding A_def B_def s_def using pl by (rule id_take_nth_drop)
  have rA: "\<forall>r\<in>set (lrecs A). fst r < k"
  proof
    fix r assume "r \<in> set (lrecs A)"
    then obtain s' where "s' \<in> set (take p (slots n))" "skey s' = Some (fst r)"
      unfolding A_def by (auto dest: lrecs_keys)
    then show "fst r < k" using take_keys_below [OF so pl, of s'] sk by (simp add: s_def)
  qed
  have rB: "\<forall>r\<in>set (lrecs B). k < fst r"
  proof
    fix r assume "r \<in> set (lrecs B)"
    then obtain s' where s': "s' \<in> set (drop (Suc p) (slots n))" "skey s' = Some (fst r)"
      unfolding B_def by (auto dest: lrecs_keys)
    then obtain j where "Suc p \<le> j" "j < length (slots n)" "s' = slots n ! j"
      using in_set_drop_nth [of s' "Suc p" "slots n"] by blast
    then have "olt (skey (slots n ! p)) (skey s')" using so by (auto intro: sorted_wrt_olt_nth)
    then show "k < fst r" using sk s'(2) by (simp add: s_def)
  qed
  have "lrecs (slots n) = lrecs A @ lrecs [s] @ lrecs B"
    unfolding e by (simp add: lrecs_Cons split: option.splits)
  then have m: "map_of (lrecs (slots n)) k = map_of (lrecs [s]) k"
    using map_of_mid [OF rA rB, of "lrecs [s]"] by simp
  have nc: "\<not> is_child s" using leaf_okD(2) [OF ok, of s] pl by (simp add: s_def)
  obtain ko pv d where "s = Slot ko pv d" by (cases s)
  with sk nc obtain v where s': "s = Slot (Some k) (Val v) d"
    by (cases pv) (auto simp: is_child_def)
  have "slots n ! lower_pos (slots n) k = Slot (Some k) (Val v) d"
    using s' unfolding s_def p_def .
  then have fl: "find_live n k = (if d then None else Some (p, v))"
    using found(1) unfolding p_def by (simp add: find_live_def)
  show ?thesis unfolding m fl using s' by (simp add: lrecs_Cons slot_rec_def)
next
  case absent
  then have "\<forall>s\<in>set (slots n). skey s \<noteq> Some k"
    using leaf_okD(1) [OF ok] by (intro absent_not_in_slots) auto
  then have "k \<notin> fst ` set (lrecs (slots n))"
    by (auto dest!: lrecs_keys)
  then have "map_of (lrecs (slots n)) k = None"
    by (simp add: map_of_eq_None_iff)
  then show ?thesis using absent(1) by (simp add: find_live_def)
qed

lemma leaf_of_path:
  "wf_sub c t h p lo hi bs \<Longrightarrow> key_le lo k \<Longrightarrow> hi_gt hi k \<Longrightarrow>
   \<exists>n. heap t (last (path_to t k h p)) = Some n \<and> \<not> is_inner n \<and> \<not> is_removed n \<and>
       hi_gt (high_key n) k \<and>
       map_of (recs_of t h p) k = map_option snd (find_live n k)"
proof (induction h arbitrary: p lo hi bs)
  case 0
  then obtain n where n: "heap t p = Some n" "\<not> is_inner n" "node_ok n hi (next_ptr n)"
      "leaf_ok lo hi (slots n)"
    by (auto simp: wf_sub_0)
  then show ?case using 0(3) leaf_lookup [OF n(4), of k]
    by (auto simp: recs_0 node_ok_def)
next
  case (Suc h)
  from Suc.prems(1) obtain n where n: "heap t p = Some n" "inner_ok c lo hi (slots n)"
      "kids_ok c t h (slots n) hi (tl bs)"
    by (auto simp: wf_sub_Suc)
  let ?i = "child_pos (slots n) k"
  note ch = wf_inner_child [OF Suc.prems(1) n(1) Suc.prems(2,3)]
  from Suc.IH [OF ch(2,3,4)] obtain m where
    m: "heap t (last (path_to t k h (kid (slots n ! ?i)))) = Some m" "\<not> is_inner m"
       "\<not> is_removed m" "hi_gt (high_key m) k"
       "map_of (recs_of t h (kid (slots n ! ?i))) k = map_option snd (find_live m k)"
    by blast
  have A: "\<forall>r\<in>set (kids_recs t h (take ?i (slots n))). fst r < k"
    using kids_before_below [OF n(2,3) ch(1,3)] by blast
  have B: "\<forall>r\<in>set (kids_recs t h (drop (Suc ?i) (slots n))). k < fst r"
    using kids_after_above [OF n(2,3) ch(1,4)] by blast
  have "map_of (recs_of t (Suc h) p) k = map_of (recs_of t h (kid (slots n ! ?i))) k"
    using map_of_mid [OF A B] kids_recs_nth [OF ch(1), of t h] n(1) by (simp add: recs_Suc)
  then show ?case using m n(1) by (auto simp: last_ConsR)
qed

subsection \<open>Write and Insert through the shared block\<close>

lemma Write_eq:
  "Write c t k v =
     (case SearchLeafNodeForWrite t k of
        None \<Rightarrow> None
      | Some stack \<Rightarrow> map_option (\<lambda>(tg, tn, t1). (kSuccess, t1)) (put_leaf c t stack k v))"
  by (auto simp: Write_def put_leaf_def split_insert_def Let_def option.map_comp comp_def
      split: option.splits prod.splits)

lemma Insert_eq:
  "Insert c t k v =
     (case SearchLeafNodeForWrite t k of
        None \<Rightarrow> None
      | Some stack \<Rightarrow>
          (case locate t (last stack) k of
             None \<Rightarrow> None
           | Some (node, n) \<Rightarrow>
               (case find_live n k of
                  Some (pos, old) \<Rightarrow> Some (kKeyExist, Some old, (node, ver n, ver n), t)
                | None \<Rightarrow>
                    map_option
                      (\<lambda>(tg, tn, t1). (kSuccess, None, (tg, ver tn, GetPreviousVersion (ver tn)), t1))
                      (put_leaf c t stack k v))))"
  by (auto simp: Insert_def Node_Insert_def put_leaf_def split_insert_def Let_def
      option.map_comp comp_def split: option.splits prod.splits)

subsection \<open>Splitting a full leaf\<close>

lemma lower_pos_hd:
  assumes "ss \<noteq> []" "key_lt (skey (hd ss)) k"
  shows "0 < lower_pos ss k" and "hd (ins_slot ss k v) = hd ss"
proof -
  from assms obtain s ss' where ss: "ss = s # ss'" "key_lt (skey s) k" by (cases ss) auto
  then show p: "0 < lower_pos ss k" by (simp add: lower_pos_def)
  then have "take (lower_pos ss k) ss \<noteq> []" using assms(1) by simp
  then have "hd (ins_slot ss k v) = hd (take (lower_pos ss k) ss)"
    by (simp add: ins_slot_def)
  then show "hd (ins_slot ss k v) = hd ss" using p by (simp add: hd_take)
qed

lemma leaf_split_lists:
  assumes ok: "leaf_ok lo hi ss" and lo: "key_le lo k" and hi: "hi_gt hi k"
      and absent: "\<forall>s\<in>set ss. skey s \<noteq> Some k" and len: "2 \<le> length ss"
  defines "A \<equiv> take (length ss div 2) ss" and "B \<equiv> drop (length ss div 2) ss"
  obtains sep where "B \<noteq> []" "skey (hd B) = Some sep" "key_lt lo sep" "hi_gt hi sep"
     "k < sep \<Longrightarrow> leaf_ok lo (Some sep) (ins_slot A k (Val v)) \<and> leaf_ok (Some sep) hi B \<and>
                 lrecs (ins_slot A k (Val v)) @ lrecs B = upsert k v (lrecs ss)"
     "\<not> k < sep \<Longrightarrow> leaf_ok lo (Some sep) A \<and> leaf_ok (Some sep) hi (ins_slot B k (Val v)) \<and>
                 lrecs A @ lrecs (ins_slot B k (Val v)) = upsert k v (lrecs ss) \<and>
                 skey (hd (ins_slot B k (Val v))) = Some sep"
proof -
  define m where "m = length ss div 2"
  note so = leaf_okD(1) [OF ok] and el = leaf_okD(2) [OF ok]
  have m: "0 < m" "m < length ss" using len by (auto simp: m_def)
  from el [of "ss ! m"] m obtain sep where
    sep: "skey (ss ! m) = Some sep" "key_le lo sep" "hi_gt hi sep" by auto
  have Bne: "B \<noteq> []" using m by (simp add: B_def m_def)
  have hdB: "hd B = ss ! m" using m by (simp add: B_def m_def hd_drop_conv_nth)
  have A_lt: "olt (skey s) (Some sep)" if "s \<in> set A" for s
    using take_keys_below [OF so m(2), of s] that sep(1) by (simp add: A_def m_def)
  have B_ge: "skey s = Some sep \<or> olt (Some sep) (skey s)" if "s \<in> set B" for s
    using drop_keys_from [OF so m(2), of s] that sep(1) by (simp add: B_def m_def)
  have Am: "A = take m ss" and Bm: "B = drop m ss" by (simp_all add: A_def B_def m_def)
  have "0 < length A" using m by (auto simp: Am)
  then have "A ! 0 \<in> set A" by (rule nth_mem)
  moreover have "A ! 0 = ss ! 0" using m by (simp add: Am)
  ultimately have ss0: "ss ! 0 \<in> set A" by simp
  have lo_sep: "key_lt lo sep"
  proof -
    have "ss ! 0 \<in> set ss" using m by (intro nth_mem) auto
    then obtain k0 where "skey (ss ! 0) = Some k0" "key_le lo k0"
      using el [of "ss ! 0"] by auto
    moreover have "k0 < sep" using A_lt [OF ss0] calculation(1) by simp
    ultimately show ?thesis by (auto intro: key_le_lt_trans)
  qed
  have okA: "leaf_ok lo (Some sep) A"
  proof (rule leaf_okI)
    show "sorted_wrt olt (map skey A)"
      using so by (simp add: A_def sorted_wrt_map sorted_wrt_take)
    fix s assume s: "s \<in> set A"
    then have "s \<in> set ss" by (auto simp: A_def dest: in_set_takeD)
    then show "\<not> is_child s \<and> (\<exists>k. skey s = Some k \<and> key_le lo k \<and> hi_gt (Some sep) k)"
      using el [of s] A_lt [OF s] by auto
  qed
  have okB: "leaf_ok (Some sep) hi B"
  proof (rule leaf_okI)
    show "sorted_wrt olt (map skey B)"
      using so by (simp add: B_def sorted_wrt_map sorted_wrt_drop)
    fix s assume s: "s \<in> set B"
    then have "s \<in> set ss" by (auto simp: B_def dest: in_set_dropD)
    then show "\<not> is_child s \<and> (\<exists>k. skey s = Some k \<and> key_le (Some sep) k \<and> hi_gt hi k)"
      using el [of s] B_ge [OF s] by (auto simp: olt_def)
  qed
  have abA: "\<forall>s\<in>set A. skey s \<noteq> Some k" and abB: "\<forall>s\<in>set B. skey s \<noteq> Some k"
    using absent by (auto simp: A_def B_def dest: in_set_takeD in_set_dropD)
  have rAB: "lrecs ss = lrecs A @ lrecs B"
    unfolding A_def B_def by (metis append_take_drop_id lrecs_append)
  have rA: "\<forall>x\<in>set (lrecs A). fst x < sep"
  proof
    fix x assume "x \<in> set (lrecs A)"
    then obtain s where "s \<in> set A" "skey s = Some (fst x)" by (auto dest: lrecs_keys)
    then show "fst x < sep" using A_lt [of s] by simp
  qed
  have rB: "\<forall>x\<in>set (lrecs B). sep \<le> fst x"
  proof
    fix x assume "x \<in> set (lrecs B)"
    then obtain s where "s \<in> set B" "skey s = Some (fst x)" by (auto dest: lrecs_keys)
    then show "sep \<le> fst x" using B_ge [of s] by (auto simp: olt_def)
  qed
  have ne: "k \<noteq> sep" using absent sep(1) m by auto
  have left: "leaf_ok lo (Some sep) (ins_slot A k (Val v)) \<and> leaf_ok (Some sep) hi B \<and>
                 lrecs (ins_slot A k (Val v)) @ lrecs B = upsert k v (lrecs ss)" if "k < sep"
  proof -
    have h: "hi_gt (Some sep) k" using that by simp
    note i = leaf_insert_ok [OF okA lo h abA, of v]
    have "\<forall>x\<in>set (lrecs B). k < fst x" using rB that by auto
    then have "upsert k v ([] @ lrecs A @ lrecs B) = [] @ upsert k v (lrecs A) @ lrecs B"
      by (intro upsert_within) auto
    then show ?thesis using i okB rAB by (simp add: ins_slot_def)
  qed
  have right: "leaf_ok lo (Some sep) A \<and> leaf_ok (Some sep) hi (ins_slot B k (Val v)) \<and>
                 lrecs A @ lrecs (ins_slot B k (Val v)) = upsert k v (lrecs ss) \<and>
                 skey (hd (ins_slot B k (Val v))) = Some sep" if "\<not> k < sep"
  proof -
    have gt: "sep < k" using that ne by auto
    then have l: "key_le (Some sep) k" by simp
    note i = leaf_insert_ok [OF okB l hi abB, of v]
    have "\<forall>x\<in>set (lrecs A). fst x < k" using rA gt by auto
    then have u: "upsert k v (lrecs A @ lrecs B) = lrecs A @ upsert k v (lrecs B)"
      by (rule upsert_append_lt)
    have "key_lt (skey (hd B)) k" using hdB sep(1) gt by simp
    from lower_pos_hd(2) [OF Bne this, of "Val v"] have "skey (hd (ins_slot B k (Val v))) = Some sep"
      using hdB sep(1) by simp
    then show ?thesis using i okA rAB u by (simp add: ins_slot_def)
  qed
  show thesis
    using that [of sep] Bne hdB sep lo_sep left right by simp
qed

subsection \<open>Effects on the store\<close>

lemma heap_set_node [simp]: "heap (set_node p n t) x = (if x = p then Some n else heap t x)"
  by (simp add: set_node_def)

lemma root_set_node [simp]: "root (set_node p n t) = root t"
  by (simp add: set_node_def)

lemma next_page_set_node [simp]: "next_page (set_node p n t) = next_page t"
  by (simp add: set_node_def)

lemma bump_fields [simp]:
  "slots (bump n) = slots n" "high_key (bump n) = high_key n" "next_ptr (bump n) = next_ptr n"
  "is_inner (bump n) = is_inner n" "is_removed (bump n) = is_removed n"
  by (simp_all add: bump_def)

lemma InsertRecord_fields [simp]:
  "slots (InsertRecord n k v pos) = take pos (slots n) @ [Slot (Some k) v False] @ drop pos (slots n)"
  "high_key (InsertRecord n k v pos) = high_key n" "next_ptr (InsertRecord n k v pos) = next_ptr n"
  "is_inner (InsertRecord n k v pos) = is_inner n" "is_removed (InsertRecord n k v pos) = is_removed n"
  by (simp_all add: InsertRecord_def)

lemma InsertRecord_lower [simp]:
  "slots (InsertRecord n k v (lower_pos (slots n) k)) = ins_slot (slots n) k v"
  by (simp add: ins_slot_def)

lemma left_half_fields [simp]:
  "slots (left_half n r) = take (length (live (slots n)) div 2) (live (slots n))"
  "high_key (left_half n r) =
     (case drop (length (live (slots n)) div 2) (live (slots n)) of [] \<Rightarrow> high_key n | s # _ \<Rightarrow> skey s)"
  "next_ptr (left_half n r) = Some r" "is_inner (left_half n r) = is_inner n"
  "is_removed (left_half n r) = is_removed n"
  by (simp_all add: left_half_def)

lemma right_half_fields [simp]:
  "slots (right_half n) = drop (length (live (slots n)) div 2) (live (slots n))"
  "high_key (right_half n) = high_key n" "next_ptr (right_half n) = next_ptr n"
  "is_inner (right_half n) = is_inner n" "is_removed (right_half n) = False"
  by (simp_all add: right_half_def new_node_def)

lemma bound_lt:
  assumes "\<forall>x. next_page t \<le> x \<longrightarrow> heap t x = None" "heap t p = Some n"
  shows "p < next_page t"
proof (rule ccontr)
  assume "\<not> p < next_page t"
  then have "next_page t \<le> p" by simp
  with assms show False by auto
qed

lemma HalfSplit_result:
  assumes n: "heap t p = Some n" and p: "p < next_page t"
  obtains t1 where "HalfSplit p t = Some (next_page t, t1)"
    "heap t1 p = Some (left_half n (next_page t))" "heap t1 (next_page t) = Some (right_half n)"
    "\<And>x. x \<noteq> p \<Longrightarrow> x \<noteq> next_page t \<Longrightarrow> heap t1 x = heap t x"
    "next_page t1 = Suc (next_page t)" "root t1 = root t"
proof -
  let ?r = "next_page t"
  let ?t0 = "t\<lparr>heap := (heap t)(?r := Some (new_node (is_inner n))), next_page := Suc ?r\<rparr>"
  let ?t1 = "set_node ?r (right_half n) (set_node p (left_half n ?r) ?t0)"
  have ne: "p \<noteq> ?r" using p by simp
  have "Split p ?r ?t0 = Some ?t1"
    using n ne by (simp add: Split_def Let_def left_half_def right_half_def)
  then have "HalfSplit p t = Some (?r, ?t1)"
    using n by (simp add: HalfSplit_def alloc_node_def)
  moreover have "heap ?t1 p = Some (left_half n ?r)" using ne by simp
  moreover have "heap ?t1 ?r = Some (right_half n)" by simp
  moreover have "heap ?t1 x = heap t x" if "x \<noteq> p" "x \<noteq> ?r" for x using that by simp
  moreover have "next_page ?t1 = Suc ?r" "root ?t1 = root t" by simp_all
  ultimately show thesis by (rule that)
qed

lemma ins_slot_nonempty [simp]: "ins_slot ss k v \<noteq> []"
  by (simp add: ins_slot_def)

lemma node_ok_leaf_wf:
  assumes "heap t p = Some n" "\<not> is_inner n" "\<not> is_removed n" "high_key n = hi"
      "next_ptr n = nx" "hi = None \<longleftrightarrow> nx = None" "leaf_ok lo hi (slots n)"
  shows "wf_sub c t 0 p lo hi [nx]"
  using assms by (simp add: wf_sub_0 node_ok_def)

lemma fp_0 [simp]: "fp t 0 p = {p}"
  by simp

lemma leaf_put:
  assumes wf: "wf_sub c t0 0 p lo hi bs" and lo: "key_le lo k" and hi: "hi_gt hi k"
      and cap: "2 \<le> cap c" and bound: "\<forall>x. next_page t0 \<le> x \<longrightarrow> heap t0 x = None"
  shows "(\<exists>tg tn t1. put_leaf c t0 (pre @ [p]) k v = Some (tg, tn, t1) \<and>
            done_sub c t0 t1 0 p lo hi bs (upsert k v (recs_of t0 0 p)) \<and>
            heap t1 tg = Some tn \<and> leaf_with k v tn) \<or>
         (\<exists>tg tn t1 r sep.
            put_leaf c t0 (pre @ [p]) k v =
              map_option (\<lambda>t2. (tg, tn, t2)) (CompleteSplit_loop c t1 pre None p r sep) \<and>
            pend_sub c t0 t1 0 p lo hi bs r sep (upsert k v (recs_of t0 0 p)) \<and>
            heap t1 tg = Some tn \<and> leaf_with k v tn)"
proof -
  from wf obtain n where n: "heap t0 p = Some n" "\<not> is_inner n" "bs = [next_ptr n]"
      "node_ok n hi (next_ptr n)" "leaf_ok lo hi (slots n)"
    by (auto simp: wf_sub_0)
  have nd: "\<not> is_removed n" "high_key n = hi" "hi = None \<longleftrightarrow> next_ptr n = None"
    using n(4) by (auto simp: node_ok_def)
  have loc: "locate t0 p k = Some (p, n)"
    using n(1) nd hi by (intro locate_stay) auto
  have pb: "p < next_page t0" using bound n(1) by (rule bound_lt)
  obtain rc n1 where w: "node_Write c n k v = (rc, n1)" by (cases "node_Write c n k v")
  note nw = node_Write_leaf [OF n(5) lo hi w]
  have r0: "recs_of t0 0 p = lrecs (slots n)" using n(1) by (rule recs_0)
  show ?thesis
  proof (cases "rc = kNeedSplit")
    case False
    let ?t1 = "set_node p n1 t0"
    note f = nw(2) [OF False]
    have "put_leaf c t0 (pre @ [p]) k v = Some (p, n1, ?t1)"
      using loc w False by (simp add: put_leaf_def)
    moreover have "evolves t0 ?t1 (fp t0 0 p)"
      using bound pb by (auto simp: evolves_def)
    moreover have "wf_sub c ?t1 0 p lo hi bs"
      unfolding n(3) using f n(2) nd by (intro node_ok_leaf_wf [where n = n1]) auto
    moreover have "recs_of ?t1 0 p = upsert k v (recs_of t0 0 p)"
      using f r0 by (simp add: recs_0)
    moreover have "(k, v) \<in> set (upsert k v (lrecs (slots n)))" by (rule upsert_mem)
    then have "heap ?t1 p = Some n1" "leaf_with k v n1" using f n(2) by (simp_all add: leaf_with_def)
    ultimately have "\<exists>tg tn t1. put_leaf c t0 (pre @ [p]) k v = Some (tg, tn, t1) \<and>
            done_sub c t0 t1 0 p lo hi bs (upsert k v (recs_of t0 0 p)) \<and>
            heap t1 tg = Some tn \<and> leaf_with k v tn"
      by (auto simp: done_sub_def)
    then show ?thesis ..
  next
    case True
    note f = nw(1) [OF True]
    define ss where "ss = live (slots n)"
    have ok: "leaf_ok lo hi ss" unfolding ss_def using n(5) by (rule leaf_ok_live)
    have ab: "\<forall>s\<in>set ss. skey s \<noteq> Some k" using f by (auto simp: ss_def live_def)
    have len: "2 \<le> length ss" using f cap by (simp add: ss_def)
    define A where "A = take (length ss div 2) ss"
    define B where "B = drop (length ss div 2) ss"
    from leaf_split_lists [OF ok lo hi ab len, of v, folded A_def B_def]
    obtain sep where sep: "B \<noteq> []" "skey (hd B) = Some sep" "key_lt lo sep" "hi_gt hi sep"
      and left: "k < sep \<Longrightarrow> leaf_ok lo (Some sep) (ins_slot A k (Val v)) \<and> leaf_ok (Some sep) hi B \<and>
                 lrecs (ins_slot A k (Val v)) @ lrecs B = upsert k v (lrecs ss)"
      and right: "\<not> k < sep \<Longrightarrow> leaf_ok lo (Some sep) A \<and> leaf_ok (Some sep) hi (ins_slot B k (Val v)) \<and>
                 lrecs A @ lrecs (ins_slot B k (Val v)) = upsert k v (lrecs ss) \<and>
                 skey (hd (ins_slot B k (Val v))) = Some sep"
      by blast
    let ?r = "next_page t0"
    from HalfSplit_result [OF n(1) pb] obtain t1 where
      t1: "HalfSplit p t0 = Some (?r, t1)" "heap t1 p = Some (left_half n ?r)"
        "heap t1 ?r = Some (right_half n)"
        "\<And>x. x \<noteq> p \<Longrightarrow> x \<noteq> ?r \<Longrightarrow> heap t1 x = heap t0 x"
        "next_page t1 = Suc ?r" "root t1 = root t0"
      by blast
    have ne: "p \<noteq> ?r" using pb by simp
    have sl: "slots (left_half n ?r) = A" and sr: "slots (right_half n) = B"
      by (simp_all add: A_def B_def ss_def)
    have hl: "high_key (left_half n ?r) = Some sep"
      using sep(1,2) by (cases B) (auto simp: B_def ss_def)
    have rs: "lrecs ss = recs_of t0 0 p" using r0 by (simp add: ss_def)
    have gv: "GetValidSplitNode t1 p k = Some (if k < sep then p else ?r)"
      using t1(2) hl by (simp add: GetValidSplitNode_def)
    show ?thesis
    proof (cases "k < sep")
      case True
      note l = left [OF True]
      define tn1 where "tn1 = InsertRecord (left_half n ?r) k (Val v) (lower_pos A k)"
      define t2 where "t2 = set_node p tn1 t1"
      have s1: "slots tn1 = ins_slot A k (Val v)"
        using sl by (simp add: tn1_def ins_slot_def)
      have "split_insert c t0 (pre @ [p]) p k v =
              map_option (\<lambda>t2. (p, tn1, t2)) (CompleteSplit c t2 (pre @ [p]) p ?r sep)"
        using t1(1,2) gv True sl hl
        by (simp add: split_insert_def tn1_def t2_def GetSeparatorKey_def Let_def)
      then have e: "put_leaf c t0 (pre @ [p]) k v =
              map_option (\<lambda>t2. (p, tn1, t2)) (CompleteSplit_loop c t2 pre None p ?r sep)"
        using loc w \<open>rc = kNeedSplit\<close> by (simp add: put_leaf_def CompleteSplit_def)
      have h2: "heap t2 p = Some tn1" "heap t2 ?r = Some (right_half n)"
        using t1(3) ne by (simp_all add: t2_def)
      have "evolves t0 t2 (fp t0 0 p)"
        using t1(4,5,6) bound pb by (auto simp: evolves_def t2_def)
      moreover have "wf_sub c t2 0 p lo (Some sep) (lspine t2 0 ?r)"
        using h2(1) l n(2) nd(1) hl s1
        by (simp add: wf_sub_0 node_ok_def tn1_def)
      moreover have "wf_sub c t2 0 ?r (Some sep) hi bs"
        using h2(2) l n(2) nd sr by (simp add: wf_sub_0 node_ok_def n(3))
      moreover have "recs_of t2 0 p @ recs_of t2 0 ?r = upsert k v (recs_of t0 0 p)"
        using h2 l s1 sr rs by (simp add: recs_0)
      moreover have "fp t2 0 p \<union> fp t2 0 ?r \<subseteq> fp t0 0 p \<union> fresh_in t0 t2"
        using t1(5) by (auto simp: fresh_in_def t2_def)
      ultimately have "pend_sub c t0 t2 0 p lo hi bs ?r sep (upsert k v (recs_of t0 0 p))"
        using sep(3,4) ne by (simp add: pend_sub_def)
      moreover have "leaf_with k v tn1" using n(2) s1 by (simp add: tn1_def leaf_with_def ins_slot_def)
      ultimately show ?thesis using e h2(1) by blast
    next
      case False
      note r = right [OF False]
      define tn1 where "tn1 = InsertRecord (right_half n) k (Val v) (lower_pos B k)"
      define t2 where "t2 = set_node ?r tn1 t1"
      have s1: "slots tn1 = ins_slot B k (Val v)"
        using sr by (simp add: tn1_def ins_slot_def)
      have gs: "GetSeparatorKey tn1 False = Some sep"
        using r s1 by (cases "ins_slot B k (Val v)") (auto simp: GetSeparatorKey_def)
      have "split_insert c t0 (pre @ [p]) p k v =
              map_option (\<lambda>t2. (?r, tn1, t2)) (CompleteSplit c t2 (pre @ [p]) p ?r sep)"
        using t1(1,3) gv False sr gs ne
        by (simp add: split_insert_def tn1_def [symmetric] t2_def Let_def)
      then have e: "put_leaf c t0 (pre @ [p]) k v =
              map_option (\<lambda>t2. (?r, tn1, t2)) (CompleteSplit_loop c t2 pre None p ?r sep)"
        using loc w \<open>rc = kNeedSplit\<close> by (simp add: put_leaf_def CompleteSplit_def)
      have h2: "heap t2 p = Some (left_half n ?r)" "heap t2 ?r = Some tn1"
        using t1(2) ne by (simp_all add: t2_def)
      have "evolves t0 t2 (fp t0 0 p)"
        using t1(4,5,6) bound pb by (auto simp: evolves_def t2_def)
      moreover have "wf_sub c t2 0 p lo (Some sep) (lspine t2 0 ?r)"
        using h2(1) r n(2) nd(1) hl sl by (simp add: wf_sub_0 node_ok_def)
      moreover have "wf_sub c t2 0 ?r (Some sep) hi bs"
        using h2(2) r n(2) nd s1 by (simp add: wf_sub_0 node_ok_def n(3) tn1_def)
      moreover have "recs_of t2 0 p @ recs_of t2 0 ?r = upsert k v (recs_of t0 0 p)"
        using h2 r s1 sl rs by (simp add: recs_0)
      moreover have "fp t2 0 p \<union> fp t2 0 ?r \<subseteq> fp t0 0 p \<union> fresh_in t0 t2"
        using t1(5) by (auto simp: fresh_in_def t2_def)
      ultimately have "pend_sub c t0 t2 0 p lo hi bs ?r sep (upsert k v (recs_of t0 0 p))"
        using sep(3,4) ne by (simp add: pend_sub_def)
      moreover have "leaf_with k v tn1" using n(2) s1 by (simp add: tn1_def leaf_with_def ins_slot_def)
      ultimately show ?thesis using e h2(2) by blast
    qed
  qed
qed

subsection \<open>A change below one child of an inner node\<close>

lemma wf_sub_fp_lt:
  assumes "wf_sub c t h p lo hi bs" "\<forall>x. next_page t \<le> x \<longrightarrow> heap t x = None" "x \<in> fp t h p"
  shows "x < next_page t"
proof -
  from wf_heap_defined [OF assms(1,3)] obtain n where "heap t x = Some n" by auto
  with assms(2) show ?thesis by (rule bound_lt)
qed

lemma inner_node_wf:
  assumes "heap t p = Some m" "is_inner m" "\<not> is_removed m" "high_key m = hi" "next_ptr m = nx"
      "hi = None \<longleftrightarrow> nx = None" "inner_ok c lo hi (slots m)" "p \<notin> kids_fp t h (slots m)"
      "kids_apart t h (slots m)" "kids_ok c t h (slots m) hi bs'"
  shows "wf_sub c t (Suc h) p lo hi (nx # bs')"
  using assms by (simp add: wf_sub_Suc node_ok_def)

lemma kids_ok_at:
  assumes "i < length ss"
  shows "kids_ok c t h ss hi bs =
     (kids_ok c t h (take i ss) (skey (ss ! i)) (lspine t h (kid (ss ! i))) \<and>
      wf_sub c t h (kid (ss ! i)) (skey (ss ! i)) (hi_at ss i hi) (bs_at t h ss i bs) \<and>
      kids_ok c t h (drop (Suc i) ss) hi bs)"
proof -
  have e: "ss = take i ss @ ss ! i # drop (Suc i) ss"
    using assms by (rule id_take_nth_drop)
  have h: "hi_at ss i hi = (case drop (Suc i) ss of [] \<Rightarrow> hi | s' # _ \<Rightarrow> skey s')"
    using assms by (cases "drop (Suc i) ss") (auto simp: hi_at_def hd_drop_conv_nth [symmetric]
        dest: arg_cong [where f = hd])
  have b: "bs_at t h ss i bs = (case drop (Suc i) ss of [] \<Rightarrow> bs | s' # _ \<Rightarrow> lspine t h (kid s'))"
    using assms by (cases "drop (Suc i) ss") (auto simp: bs_at_def hd_drop_conv_nth [symmetric]
        dest: arg_cong [where f = hd])
  have "kids_ok c t h ss hi bs = kids_ok c t h (take i ss @ ss ! i # drop (Suc i) ss) hi bs"
    by (rule arg_cong [OF e])
  also have "\<dots> = (kids_ok c t h (take i ss) (skey (ss ! i)) (lspine t h (kid (ss ! i))) \<and>
      wf_sub c t h (kid (ss ! i)) (skey (ss ! i)) (hi_at ss i hi) (bs_at t h ss i bs) \<and>
      kids_ok c t h (drop (Suc i) ss) hi bs)"
    unfolding kids_ok_append kids_ok_Cons h b ..
  finally show ?thesis .
qed

lemma kids_fp_disj:
  "(kids_fp t h ys \<inter> S = {}) = (\<forall>y\<in>set ys. fp t h (kid y) \<inter> S = {})"
  by (auto simp: kids_fp_def)

lemma kids_fp_disj2:
  "(S \<inter> kids_fp t h ys = {}) = (\<forall>y\<in>set ys. S \<inter> fp t h (kid y) = {})"
  by (auto simp: kids_fp_def)

lemma kids_apart_Cons:
  "kids_apart t h (s # ss) = (fp t h (kid s) \<inter> kids_fp t h ss = {} \<and> kids_apart t h ss)"
  by (simp add: kids_fp_disj2)

lemma kids_apart_append2:
  "kids_apart t h (xs @ ys) =
     (kids_apart t h xs \<and> kids_apart t h ys \<and> kids_fp t h xs \<inter> kids_fp t h ys = {})"
  by (induction xs) (auto simp: kids_fp_disj2 kids_fp_disj Int_Un_distrib Int_Un_distrib2)

lemma kids_apart_at:
  assumes "i < length ss"
  shows "kids_apart t h ss =
     (kids_apart t h (take i ss) \<and> kids_apart t h (drop (Suc i) ss) \<and>
      kids_fp t h (take i ss) \<inter> fp t h (kid (ss ! i)) = {} \<and>
      kids_fp t h (drop (Suc i) ss) \<inter> fp t h (kid (ss ! i)) = {} \<and>
      kids_fp t h (take i ss) \<inter> kids_fp t h (drop (Suc i) ss) = {})"
proof -
  have e: "ss = take i ss @ ss ! i # drop (Suc i) ss"
    using assms by (rule id_take_nth_drop)
  have "kids_apart t h ss = kids_apart t h (take i ss @ ss ! i # drop (Suc i) ss)"
    by (rule arg_cong [OF e])
  also have "\<dots> = (kids_apart t h (take i ss) \<and> kids_apart t h (drop (Suc i) ss) \<and>
      kids_fp t h (take i ss) \<inter> fp t h (kid (ss ! i)) = {} \<and>
      kids_fp t h (drop (Suc i) ss) \<inter> fp t h (kid (ss ! i)) = {} \<and>
      kids_fp t h (take i ss) \<inter> kids_fp t h (drop (Suc i) ss) = {})"
    unfolding kids_apart_append2 kids_apart_Cons kids_fp_Cons Int_Un_distrib Un_empty
    by (auto simp: Int_commute)
  finally show ?thesis .
qed

lemma kids_fp_at:
  assumes "i < length ss"
  shows "kids_fp t h ss =
     kids_fp t h (take i ss) \<union> fp t h (kid (ss ! i)) \<union> kids_fp t h (drop (Suc i) ss)"
proof -
  have e: "ss = take i ss @ ss ! i # drop (Suc i) ss"
    using assms by (rule id_take_nth_drop)
  have "kids_fp t h ss = kids_fp t h (take i ss @ ss ! i # drop (Suc i) ss)"
    by (rule arg_cong [OF e])
  then show ?thesis by (simp add: Un_assoc)
qed

lemma evolvesD:
  assumes "evolves t0 t1 S"
  shows "root t1 = root t0" "next_page t0 \<le> next_page t1"
    and "\<And>x. x < next_page t0 \<Longrightarrow> x \<notin> S \<Longrightarrow> heap t1 x = heap t0 x"
    and "\<forall>x. next_page t1 \<le> x \<longrightarrow> heap t1 x = None"
  using assms by (auto simp: evolves_def)

lemma evolves_mono: "evolves t0 t1 S \<Longrightarrow> S \<subseteq> S' \<Longrightarrow> evolves t0 t1 S'"
  by (auto simp: evolves_def)

lemma child_context:
  assumes wf: "wf_sub c t0 (Suc h) p lo hi bs" and n: "heap t0 p = Some n"
      and i: "i < length (slots n)"
      and bound: "\<forall>x. next_page t0 \<le> x \<longrightarrow> heap t0 x = None"
      and ev: "evolves t0 t1 (fp t0 h (kid (slots n ! i)))"
  defines "X \<equiv> take i (slots n)" and "Y \<equiv> drop (Suc i) (slots n)" and "q \<equiv> kid (slots n ! i)"
  shows "heap t1 p = Some n"
    and "kids_fp t1 h X = kids_fp t0 h X" "kids_fp t1 h Y = kids_fp t0 h Y"
    and "kids_recs t1 h X = kids_recs t0 h X" "kids_recs t1 h Y = kids_recs t0 h Y"
    and "kids_apart t1 h X" "kids_apart t1 h Y"
    and "\<And>hi' bs'. kids_ok c t0 h X hi' bs' \<Longrightarrow> kids_ok c t1 h X hi' bs'"
    and "\<And>hi' bs'. kids_ok c t0 h Y hi' bs' \<Longrightarrow> kids_ok c t1 h Y hi' bs'"
    and "\<And>s. s \<in> set X \<union> set Y \<Longrightarrow> lspine t1 h (kid s) = lspine t0 h (kid s)"
    and "kids_fp t0 h X \<inter> fp t0 h q = {}" "kids_fp t0 h Y \<inter> fp t0 h q = {}"
        "kids_fp t0 h X \<inter> kids_fp t0 h Y = {}"
    and "p \<notin> kids_fp t0 h X" "p \<notin> kids_fp t0 h Y" "p \<notin> fp t0 h q"
    and "\<And>x. x \<in> fp t0 (Suc h) p \<Longrightarrow> x < next_page t0"
proof -
  from wf n have ap: "kids_apart t0 h (slots n)" and pn: "p \<notin> kids_fp t0 h (slots n)"
    by (auto simp: wf_sub_Suc)
  note a = ap [unfolded kids_apart_at [OF i], folded X_def Y_def q_def]
  note f = kids_fp_at [OF i, of t0 h, folded X_def Y_def q_def]
  show lt: "x < next_page t0" if "x \<in> fp t0 (Suc h) p" for x
    using wf bound that by (rule wf_sub_fp_lt)
  show d: "kids_fp t0 h X \<inter> fp t0 h q = {}" "kids_fp t0 h Y \<inter> fp t0 h q = {}"
        "kids_fp t0 h X \<inter> kids_fp t0 h Y = {}"
    using a by simp_all
  show pp: "p \<notin> kids_fp t0 h X" "p \<notin> kids_fp t0 h Y" "p \<notin> fp t0 h q"
    using pn f by simp_all
  have fpp: "fp t0 (Suc h) p = insert p (kids_fp t0 h X \<union> fp t0 h q \<union> kids_fp t0 h Y)"
    using n f by (simp add: fp_Suc)
  show "heap t1 p = Some n"
    using evolvesD(3) [OF ev, of p] lt [of p] pp(3) n by (simp add: q_def)
  have sX: "heap t1 x = heap t0 x" if "x \<in> kids_fp t0 h X" for x
    using evolvesD(3) [OF ev, of x] lt [of x] that d(1) fpp by (auto simp: q_def)
  have sY: "heap t1 x = heap t0 x" if "x \<in> kids_fp t0 h Y" for x
    using evolvesD(3) [OF ev, of x] lt [of x] that d(2) fpp by (auto simp: q_def)
  show "kids_fp t1 h X = kids_fp t0 h X" using sX by (rule kids_frame(1))
  show "kids_fp t1 h Y = kids_fp t0 h Y" using sY by (rule kids_frame(1))
  show "kids_recs t1 h X = kids_recs t0 h X" using sX by (rule kids_frame(2))
  show "kids_recs t1 h Y = kids_recs t0 h Y" using sY by (rule kids_frame(2))
  show "kids_apart t1 h X" using kids_frame(3) [of t0 h X t1] sX a by simp
  show "kids_apart t1 h Y" using kids_frame(3) [of t0 h Y t1] sY a by simp
  show "kids_ok c t1 h X hi' bs'" if "kids_ok c t0 h X hi' bs'" for hi' bs'
    using sX that by (rule kids_ok_frame)
  show "kids_ok c t1 h Y hi' bs'" if "kids_ok c t0 h Y hi' bs'" for hi' bs'
    using sY that by (rule kids_ok_frame)
  show "lspine t1 h (kid s) = lspine t0 h (kid s)" if "s \<in> set X \<union> set Y" for s
    using that kids_frame(4) [of t0 h X t1 s] kids_frame(4) [of t0 h Y t1 s] sX sY by auto
qed

lemma bs_at_drop:
  assumes "\<And>s. s \<in> set (drop (Suc i) ss) \<Longrightarrow> lspine t1 h (kid s) = lspine t0 h (kid s)"
  shows "bs_at t1 h ss i bs = bs_at t0 h ss i bs"
proof (cases "Suc i < length ss")
  case True
  then have "ss ! Suc i \<in> set (drop (Suc i) ss)"
    by (metis Cons_nth_drop_Suc list.set_intros(1))
  then show ?thesis using assms by (simp add: bs_at_def)
next
  case False
  then show ?thesis by (simp add: bs_at_def)
qed

lemma lspine_Suc_frame:
  assumes "heap t1 p = Some n" "heap t0 p = Some n"
      and "\<And>s. s \<in> set (slots n) \<Longrightarrow> lspine t1 h (kid s) = lspine t0 h (kid s)"
  shows "lspine t1 (Suc h) p = lspine t0 (Suc h) p"
  using assms by (cases "slots n") (simp_all add: lspine.simps)

lemma lift_done:
  assumes wf: "wf_sub c t0 (Suc h) p lo hi bs" and n: "heap t0 p = Some n"
      and i: "i < length (slots n)"
      and bound: "\<forall>x. next_page t0 \<le> x \<longrightarrow> heap t0 x = None"
      and dn: "done_sub c t0 t1 h (kid (slots n ! i)) (skey (slots n ! i)) (hi_at (slots n) i hi)
                 (bs_at t0 h (slots n) i (tl bs)) rs"
  shows "done_sub c t0 t1 (Suc h) p lo hi bs
           (kids_recs t0 h (take i (slots n)) @ rs @ kids_recs t0 h (drop (Suc i) (slots n)))"
proof -
  define ss where "ss = slots n"
  define X where "X = take i ss"
  define Y where "Y = drop (Suc i) ss"
  define q where "q = kid (ss ! i)"
  from dn have ev: "evolves t0 t1 (fp t0 h q)"
      and wq: "wf_sub c t1 h q (skey (ss ! i)) (hi_at ss i hi) (bs_at t0 h ss i (tl bs))"
      and lq: "lspine t1 h q = lspine t0 h q"
      and fq: "fp t1 h q \<subseteq> fp t0 h q \<union> fresh_in t0 t1" and rq: "recs_of t1 h q = rs"
    by (simp_all add: done_sub_def ss_def q_def)
  note cx = child_context [OF wf n i bound ev [unfolded q_def ss_def],
      folded ss_def, folded X_def Y_def q_def]
  from wf n have w0: "is_inner n" "bs \<noteq> []" "node_ok n hi (hd bs)" "inner_ok c lo hi ss"
      "kids_ok c t0 h ss hi (tl bs)"
    by (auto simp: wf_sub_Suc ss_def)
  have il: "i < length ss" using i by (simp add: ss_def)
  note k0 = w0(5) [unfolded kids_ok_at [OF il], folded X_def Y_def q_def]
  have fresh: "x \<in> fresh_in t0 t1 \<Longrightarrow> \<not> x < next_page t0" for x
    by (simp add: fresh_in_def)
  have inX: "s \<in> set X \<Longrightarrow> s \<in> set ss" and inY: "s \<in> set Y \<Longrightarrow> s \<in> set ss" for s
    by (auto simp: X_def Y_def dest: in_set_takeD in_set_dropD)
  have ltX: "x \<in> kids_fp t0 h X \<Longrightarrow> x < next_page t0"
    and ltY: "x \<in> kids_fp t0 h Y \<Longrightarrow> x < next_page t0" for x
    using cx(17) [of x] n kids_fp_at [OF il, of t0 h]
    by (auto simp: fp_Suc ss_def [symmetric] X_def [symmetric] Y_def [symmetric])
  have b1: "bs_at t1 h ss i (tl bs) = bs_at t0 h ss i (tl bs)"
    using cx(10) by (intro bs_at_drop) (auto simp: Y_def)
  have ko: "kids_ok c t1 h ss hi (tl bs)"
    unfolding kids_ok_at [OF il] b1
    using k0 cx(8,9) wq lq by (simp add: X_def [symmetric] Y_def [symmetric] q_def [symmetric])
  have d1: "kids_fp t0 h X \<inter> fp t1 h q = {}"
  proof (rule ccontr)
    assume "kids_fp t0 h X \<inter> fp t1 h q \<noteq> {}"
    then obtain x where x: "x \<in> kids_fp t0 h X" "x \<in> fp t1 h q" by auto
    from x(2) fq have "x \<in> fp t0 h q \<or> x \<in> fresh_in t0 t1" by auto
    then show False using x(1) cx(11) ltX [OF x(1)] fresh [of x] by auto
  qed
  have d2: "kids_fp t0 h Y \<inter> fp t1 h q = {}"
  proof (rule ccontr)
    assume "kids_fp t0 h Y \<inter> fp t1 h q \<noteq> {}"
    then obtain x where x: "x \<in> kids_fp t0 h Y" "x \<in> fp t1 h q" by auto
    from x(2) fq have "x \<in> fp t0 h q \<or> x \<in> fresh_in t0 t1" by auto
    then show False using x(1) cx(12) ltY [OF x(1)] fresh [of x] by auto
  qed
  have ka: "kids_apart t1 h ss"
    unfolding kids_apart_at [OF il]
    using cx(2,3,6,7,13) d1 d2
    by (simp add: X_def [symmetric] Y_def [symmetric] q_def [symmetric])
  have kf: "kids_fp t1 h ss = kids_fp t0 h X \<union> fp t1 h q \<union> kids_fp t0 h Y"
    using kids_fp_at [OF il, of t1 h] cx(2,3)
    by (simp add: X_def [symmetric] Y_def [symmetric] q_def [symmetric])
  have pl: "p < next_page t0" using bound n by (rule bound_lt)
  have pk: "p \<notin> kids_fp t1 h ss"
    using kf cx(14,15,16) fq fresh [of p] pl by auto
  have h1: "heap t1 p = Some n" by (rule cx(1))
  have "wf_sub c t1 (Suc h) p lo hi (hd bs # tl bs)"
    using h1 w0 ko ka pk
    by (intro inner_node_wf [where m = n]) (auto simp: node_ok_def ss_def)
  then have W: "wf_sub c t1 (Suc h) p lo hi bs" using w0(2) by simp
  have ls: "lspine t1 h (kid s) = lspine t0 h (kid s)" if "s \<in> set ss" for s
  proof -
    from that obtain j where j: "j < length ss" "s = ss ! j" by (auto simp: in_set_conv_nth)
    consider "j < i" | "j = i" | "i < j" by linarith
    then show ?thesis
    proof cases
      case 1
      then have "s \<in> set X" using j by (auto simp: X_def in_set_conv_nth)
      then show ?thesis using cx(10) by simp
    next
      case 2
      then show ?thesis using lq j by (simp add: q_def)
    next
      case 3
      then have "s \<in> set Y" using j
        by (auto simp: Y_def in_set_conv_nth intro!: exI [of _ "j - Suc i"])
      then show ?thesis using cx(10) by simp
    qed
  qed
  have L: "lspine t1 (Suc h) p = lspine t0 (Suc h) p"
    using h1 n ls by (intro lspine_Suc_frame [where n = n]) (auto simp: ss_def)
  have F: "fp t1 (Suc h) p \<subseteq> fp t0 (Suc h) p \<union> fresh_in t0 t1"
    using h1 n kf fq kids_fp_at [OF il, of t0 h]
    by (auto simp: fp_Suc ss_def [symmetric] X_def [symmetric] Y_def [symmetric] q_def [symmetric])
  have R: "recs_of t1 (Suc h) p = kids_recs t0 h X @ rs @ kids_recs t0 h Y"
    using h1 kids_recs_nth [OF il, of t1 h] cx(4,5) rq
    by (simp add: recs_Suc ss_def [symmetric] X_def [symmetric] Y_def [symmetric] q_def [symmetric])
  have "fp t0 h q \<subseteq> fp t0 (Suc h) p"
    using n kids_fp_at [OF il, of t0 h] by (auto simp: fp_Suc ss_def [symmetric] q_def)
  with ev have E: "evolves t0 t1 (fp t0 (Suc h) p)" by (rule evolves_mono)
  show ?thesis
    using E W L F R by (simp add: done_sub_def X_def Y_def ss_def)
qed

subsection \<open>Inserting a child entry\<close>

lemma olt_key_lt_trans: "olt a b \<Longrightarrow> key_lt b k \<Longrightarrow> key_lt a k"
  by (cases a; cases b) auto

lemma lower_pos_unique:
  assumes "j \<le> length ss" "\<And>a. a < j \<Longrightarrow> key_lt (skey (ss ! a)) k"
      and "j < length ss \<Longrightarrow> \<not> key_lt (skey (ss ! j)) k"
  shows "lower_pos ss k = j"
proof -
  let ?P = "\<lambda>s. key_lt (skey s) k"
  let ?l = "length (takeWhile ?P ss)"
  have a: "j \<le> ?l"
  proof (rule ccontr)
    assume "\<not> j \<le> ?l"
    then have l: "?l < j" by simp
    then have "?l < length ss" using assms(1) by simp
    then have "\<not> ?P (ss ! ?l)" by (rule nth_length_takeWhile)
    then show False using assms(2) [OF l] by simp
  qed
  have b: "?l \<le> j"
  proof (rule ccontr)
    assume "\<not> ?l \<le> j"
    then have l: "j < ?l" by simp
    then have "?P (ss ! j)" by (rule takeWhile_holds_nth)
    moreover have "j < length ss" using l length_takeWhile_le [of ?P ss] by simp
    ultimately show False using assms(3) by simp
  qed
  from a b show ?thesis by (simp add: lower_pos_def)
qed

lemma ins_child_list:
  fixes r :: ptr
  assumes ok: "inner_ok c lo hi ss" and i: "i < length ss"
      and lt: "key_lt (skey (ss ! i)) sep" and gt: "hi_gt (hi_at ss i hi) sep"
  defines "V \<equiv> take (Suc i) ss @ [Slot (Some sep) (Child r) False] @ drop (Suc i) ss"
  shows "lower_pos ss sep = Suc i" and "\<forall>s\<in>set ss. skey s \<noteq> Some sep"
    and "ins_slot ss sep (Child r) = V" and "sorted_wrt olt (map skey V)"
    and "hd V = hd ss"
    and "\<forall>s\<in>set V. is_child s \<and> \<not> sdel s \<and> (case skey s of None \<Rightarrow> True | Some k \<Rightarrow> hi_gt hi k)"
    and "hi_gt hi sep" and "length V = Suc (length ss)"
proof -
  note so = inner_okD(4) [OF ok]
  have before: "key_lt (skey (ss ! a)) sep" if "a < Suc i" for a
  proof (cases "a = i")
    case True
    then show ?thesis using lt by simp
  next
    case False
    then have "olt (skey (ss ! a)) (skey (ss ! i))"
      using that so i by (intro sorted_wrt_olt_nth) auto
    then show ?thesis using lt by (rule olt_key_lt_trans)
  qed
  have after: "olt (Some sep) (skey (ss ! b))" if "Suc i \<le> b" "b < length ss" for b
  proof -
    have S: "Suc i < length ss" using that by simp
    then have g: "hi_gt (skey (ss ! Suc i)) sep" using gt by (simp add: hi_at_def)
    have "skey (ss ! Suc i) \<noteq> None" using so S by (intro sorted_keys_Some) auto
    then obtain k' where k': "skey (ss ! Suc i) = Some k'" by auto
    then have s: "sep < k'" using g by simp
    show ?thesis
    proof (cases "b = Suc i")
      case True
      then show ?thesis using k' s by simp
    next
      case False
      then have "olt (skey (ss ! Suc i)) (skey (ss ! b))"
        using that so by (intro sorted_wrt_olt_nth) auto
      then show ?thesis using k' s by (cases "skey (ss ! b)") (auto simp: olt_def)
    qed
  qed
  show lp: "lower_pos ss sep = Suc i"
  proof (rule lower_pos_unique)
    show "Suc i \<le> length ss" using i by simp
    show "key_lt (skey (ss ! a)) sep" if "a < Suc i" for a using that by (rule before)
    show "\<not> key_lt (skey (ss ! Suc i)) sep" if "Suc i < length ss"
      using after [of "Suc i"] that by (cases "skey (ss ! Suc i)") (auto simp: olt_def)
  qed
  show ab: "\<forall>s\<in>set ss. skey s \<noteq> Some sep"
  proof
    fix s assume "s \<in> set ss"
    then obtain j where j: "j < length ss" "s = ss ! j" by (auto simp: in_set_conv_nth)
    show "skey s \<noteq> Some sep"
    proof (cases "j < Suc i")
      case True
      then show ?thesis using before [of j] j by auto
    next
      case False
      then show ?thesis using after [of j] j by auto
    qed
  qed
  show "ins_slot ss sep (Child r) = V" using lp by (simp add: ins_slot_def V_def)
  have A: "olt (skey s) (Some sep)" if "s \<in> set (take (Suc i) ss)" for s
  proof -
    from in_set_take_nth [OF that] obtain j where "j < Suc i" "s = ss ! j" by blast
    then show ?thesis using before [of j] by simp
  qed
  have B: "olt (Some sep) (skey s)" if "s \<in> set (drop (Suc i) ss)" for s
  proof -
    from in_set_drop_nth [OF that] obtain j where "Suc i \<le> j" "j < length ss" "s = ss ! j" by blast
    then show ?thesis using after [of j] by simp
  qed
  have AB: "olt (skey a) (skey b)" if "a \<in> set (take (Suc i) ss)" "b \<in> set (drop (Suc i) ss)" for a b
    using A [OF that(1)] B [OF that(2)] by (rule olt_trans)
  have sA: "sorted_wrt olt (map skey (take (Suc i) ss))"
    and sB: "sorted_wrt olt (map skey (drop (Suc i) ss))"
    using so by (auto simp: sorted_wrt_map intro: sorted_wrt_take sorted_wrt_drop)
  show "sorted_wrt olt (map skey V)"
    unfolding V_def using sA sB A B AB by (auto simp: sorted_wrt_append)
  have ne: "take (Suc i) ss \<noteq> []" using i by auto
  then show "hd V = hd ss" by (simp add: V_def hd_take)
  show hs: "hi_gt hi sep" using ok i gt by (rule inner_hi_at)
  show "\<forall>s\<in>set V. is_child s \<and> \<not> sdel s \<and> (case skey s of None \<Rightarrow> True | Some k \<Rightarrow> hi_gt hi k)"
  proof
    fix s assume "s \<in> set V"
    then consider "s \<in> set ss" | "s = Slot (Some sep) (Child r) False"
      by (auto simp: V_def dest: in_set_takeD in_set_dropD)
    then show "is_child s \<and> \<not> sdel s \<and> (case skey s of None \<Rightarrow> True | Some k \<Rightarrow> hi_gt hi k)"
    proof cases
      case 1
      then show ?thesis
        using inner_okD(5) [OF ok, of s] inner_okD(6) [OF ok, of s] by (auto split: option.splits)
    next
      case 2
      then show ?thesis using hs by (simp add: is_child_def)
    qed
  qed
  show "length V = Suc (length ss)" using i by (simp add: V_def)
qed

lemma hi_at_drop:
  "hi_at ss i hi = (case drop (Suc i) ss of [] \<Rightarrow> hi | s' # _ \<Rightarrow> skey s')"
proof (cases "Suc i < length ss")
  case True
  then have "drop (Suc i) ss = ss ! Suc i # drop (Suc (Suc i)) ss" by (simp add: Cons_nth_drop_Suc)
  then show ?thesis using True by (simp add: hi_at_def)
next
  case False
  then show ?thesis by (simp add: hi_at_def)
qed

lemma bs_at_drop_case:
  "bs_at t h ss i bs = (case drop (Suc i) ss of [] \<Rightarrow> bs | s' # _ \<Rightarrow> lspine t h (kid s'))"
proof (cases "Suc i < length ss")
  case True
  then have "drop (Suc i) ss = ss ! Suc i # drop (Suc (Suc i)) ss" by (simp add: Cons_nth_drop_Suc)
  then show ?thesis using True by (simp add: bs_at_def)
next
  case False
  then show ?thesis by (simp add: bs_at_def)
qed

lemma disj_via:
  assumes "A \<inter> B0 = {}" "B \<subseteq> B0 \<union> F" "\<And>x. x \<in> A \<Longrightarrow> x \<notin> F"
  shows "A \<inter> B = {}"
proof (rule ccontr)
  assume "A \<inter> B \<noteq> {}"
  then obtain x where x: "x \<in> A" "x \<in> B" by auto
  from x(2) assms(2) have "x \<in> B0 \<or> x \<in> F" by auto
  then show False using x(1) assms(1) assms(3) [OF x(1)] by auto
qed

lemma pend_context:
  assumes wf: "wf_sub c t0 (Suc h) p lo hi bs" and n: "heap t0 p = Some n"
      and i: "i < length (slots n)"
      and bound: "\<forall>x. next_page t0 \<le> x \<longrightarrow> heap t0 x = None"
      and pd: "pend_sub c t0 t1 h (kid (slots n ! i)) (skey (slots n ! i)) (hi_at (slots n) i hi)
                 (bs_at t0 h (slots n) i (tl bs)) r sep rs"
  defines "V \<equiv> take (Suc i) (slots n) @ [Slot (Some sep) (Child r) False] @ drop (Suc i) (slots n)"
  shows "heap t1 p = Some n"
    and "kids_ok c t1 h V hi (tl bs)"
    and "kids_apart t1 h V"
    and "p \<notin> kids_fp t1 h V"
    and "kids_fp t1 h V \<subseteq> kids_fp t0 h (slots n) \<union> fresh_in t0 t1"
    and "kids_recs t1 h V =
           kids_recs t0 h (take i (slots n)) @ rs @ kids_recs t0 h (drop (Suc i) (slots n))"
    and "\<And>s. s \<in> set (slots n) \<Longrightarrow> lspine t1 h (kid s) = lspine t0 h (kid s)"
    and "evolves t0 t1 (fp t0 (Suc h) p)"
    and "p < next_page t0"
proof -
  define ss where "ss = slots n"
  define X where "X = take i ss"
  define Y where "Y = drop (Suc i) ss"
  define q where "q = kid (ss ! i)"
  define sr :: "('a, 'b) slot" where "sr = Slot (Some sep) (Child r) False"
  have il: "i < length ss" using i by (simp add: ss_def)
  have Vd: "V = X @ ss ! i # sr # Y"
    using il by (simp add: V_def ss_def [symmetric] X_def Y_def sr_def take_Suc_conv_app_nth)
  have sr [simp]: "kid sr = r" "skey sr = Some sep" by (simp_all add: sr_def kid_def)
  from pd have ev: "evolves t0 t1 (fp t0 h q)"
      and wq: "wf_sub c t1 h q (skey (ss ! i)) (Some sep) (lspine t1 h r)"
      and wr: "wf_sub c t1 h r (Some sep) (hi_at ss i hi) (bs_at t0 h ss i (tl bs))"
      and lq: "lspine t1 h q = lspine t0 h q"
      and fq: "fp t1 h q \<union> fp t1 h r \<subseteq> fp t0 h q \<union> fresh_in t0 t1"
      and dq: "fp t1 h q \<inter> fp t1 h r = {}"
      and rq: "recs_of t1 h q @ recs_of t1 h r = rs"
    by (simp_all add: pend_sub_def ss_def q_def)
  note cx = child_context [OF wf n i bound ev [unfolded q_def ss_def],
      folded ss_def, folded X_def Y_def q_def]
  from wf n have w0: "is_inner n" "bs \<noteq> []" "node_ok n hi (hd bs)" "inner_ok c lo hi ss"
      "kids_ok c t0 h ss hi (tl bs)"
    by (auto simp: wf_sub_Suc ss_def)
  note k0 = w0(5) [unfolded kids_ok_at [OF il], folded X_def Y_def q_def]
  have fresh: "x \<in> fresh_in t0 t1 \<Longrightarrow> \<not> x < next_page t0" for x
    by (simp add: fresh_in_def)
  have ltX: "x \<in> kids_fp t0 h X \<Longrightarrow> x < next_page t0"
    and ltY: "x \<in> kids_fp t0 h Y \<Longrightarrow> x < next_page t0" for x
    using cx(17) [of x] n kids_fp_at [OF il, of t0 h]
    by (auto simp: fp_Suc ss_def [symmetric] X_def [symmetric] Y_def [symmetric])
  have fX: "x \<in> kids_fp t0 h X \<Longrightarrow> x \<notin> fresh_in t0 t1"
    and fY: "x \<in> kids_fp t0 h Y \<Longrightarrow> x \<notin> fresh_in t0 t1" for x
    using ltX [of x] ltY [of x] fresh [of x] by auto
  have b1: "bs_at t1 h ss i (tl bs) = bs_at t0 h ss i (tl bs)"
    using cx(10) by (intro bs_at_drop) (auto simp: Y_def)
  have fq1: "fp t1 h q \<subseteq> fp t0 h q \<union> fresh_in t0 t1"
    and fr1: "fp t1 h r \<subseteq> fp t0 h q \<union> fresh_in t0 t1" using fq by auto
  show h1: "heap t1 p = Some n" by (rule cx(1))
  have kr: "kids_ok c t1 h (sr # Y) hi (tl bs)"
    unfolding kids_ok_Cons
    using wr k0 cx(9) hi_at_drop [of ss i hi] bs_at_drop_case [of t1 h ss i "tl bs"] b1
    by (simp add: Y_def [symmetric])
  show "kids_ok c t1 h V hi (tl bs)"
    unfolding Vd kids_ok_append
    using k0 cx(8) lq wq kr by (simp add: q_def [symmetric])
  have d1: "kids_fp t0 h X \<inter> fp t1 h q = {}" using cx(11) fq1 fX by (rule disj_via)
  have d2: "kids_fp t0 h Y \<inter> fp t1 h q = {}" using cx(12) fq1 fY by (rule disj_via)
  have d3: "kids_fp t0 h X \<inter> fp t1 h r = {}" using cx(11) fr1 fX by (rule disj_via)
  have d4: "kids_fp t0 h Y \<inter> fp t1 h r = {}" using cx(12) fr1 fY by (rule disj_via)
  have a1: "kids_apart t1 h (sr # Y)"
    unfolding kids_apart_Cons using cx(3,7) d4 by (simp add: Int_commute)
  have a2: "kids_apart t1 h (ss ! i # sr # Y)"
    unfolding kids_apart_Cons [of t1 h "ss ! i"]
    using a1 dq d2 cx(3) by (simp add: q_def [symmetric] Int_Un_distrib Int_commute)
  show "kids_apart t1 h V"
    unfolding Vd kids_apart_append2
    using a2 cx(2,3,6,13) d1 d3 by (simp add: q_def [symmetric] Int_Un_distrib)
  have kf: "kids_fp t1 h V = kids_fp t0 h X \<union> fp t1 h q \<union> fp t1 h r \<union> kids_fp t0 h Y"
    unfolding Vd using cx(2,3) by (auto simp: q_def [symmetric])
  show pl: "p < next_page t0" using bound n by (rule bound_lt)
  have "p \<notin> fp t0 h q \<union> fresh_in t0 t1" using cx(16) fresh [of p] pl by auto
  then have "p \<notin> fp t1 h q" "p \<notin> fp t1 h r" using fq by auto
  then show "p \<notin> kids_fp t1 h V" using kf cx(14,15) by simp
  have k0f: "kids_fp t0 h ss = kids_fp t0 h X \<union> fp t0 h q \<union> kids_fp t0 h Y"
    using kids_fp_at [OF il, of t0 h] by (simp add: X_def Y_def q_def)
  show "kids_fp t1 h V \<subseteq> kids_fp t0 h (slots n) \<union> fresh_in t0 t1"
    unfolding kf ss_def [symmetric] k0f using fq by auto
  show "kids_recs t1 h V =
           kids_recs t0 h (take i (slots n)) @ rs @ kids_recs t0 h (drop (Suc i) (slots n))"
    unfolding Vd ss_def [symmetric] X_def [symmetric] Y_def [symmetric]
    using cx(4,5) rq by (simp add: q_def [symmetric])
  show "lspine t1 h (kid s) = lspine t0 h (kid s)" if "s \<in> set (slots n)" for s
  proof -
    from that obtain j where j: "j < length ss" "s = ss ! j" by (auto simp: in_set_conv_nth ss_def)
    consider "j < i" | "j = i" | "i < j" by linarith
    then show ?thesis
    proof cases
      case 1
      then have "s \<in> set X" using j by (auto simp: X_def in_set_conv_nth)
      then show ?thesis using cx(10) by simp
    next
      case 2
      then show ?thesis using lq j by (simp add: q_def)
    next
      case 3
      then have "s \<in> set Y" using j
        by (auto simp: Y_def in_set_conv_nth intro!: exI [of _ "j - Suc i"])
      then show ?thesis using cx(10) by simp
    qed
  qed
  have "fp t0 h q \<subseteq> fp t0 (Suc h) p"
    using n kids_fp_at [OF il, of t0 h] by (auto simp: fp_Suc ss_def [symmetric] q_def)
  with ev show "evolves t0 t1 (fp t0 (Suc h) p)" by (rule evolves_mono)
qed

subsection \<open>Splitting an inner node\<close>

lemma inner_ok_halves:
  assumes so: "sorted_wrt olt (map skey (L @ R))"
      and el: "\<forall>s\<in>set (L @ R). is_child s \<and> \<not> sdel s \<and>
                 (case skey s of None \<Rightarrow> True | Some k \<Rightarrow> hi_gt hi k)"
      and L: "L \<noteq> []" "length L \<le> cap c" and R: "R \<noteq> []" "length R \<le> cap c"
      and k': "skey (hd R) = Some k'"
  shows "inner_ok c (skey (hd L)) (Some k') L" and "inner_ok c (Some k') hi R"
    and "key_lt (skey (hd L)) k'" and "hi_gt hi k'"
proof -
  from so have sL: "sorted_wrt olt (map skey L)" and sR: "sorted_wrt olt (map skey R)"
      and LR: "\<And>x y. x \<in> set L \<Longrightarrow> y \<in> set R \<Longrightarrow> olt (skey x) (skey y)"
    by (auto simp: sorted_wrt_append)
  have hR: "hd R \<in> set R" using R(1) by simp
  have hL: "hd L \<in> set L" using L(1) by simp
  have below: "key_lt (skey x) k'" if "x \<in> set L" for x
    using LR [OF that hR] k' by simp
  show "inner_ok c (skey (hd L)) (Some k') L"
    unfolding inner_ok_def
  proof (intro conjI ballI)
    fix s assume s: "s \<in> set L"
    then show "is_child s" "\<not> sdel s" using el by auto
    show "case skey s of None \<Rightarrow> True | Some k \<Rightarrow> hi_gt (Some k') k"
      using below [OF s] by (auto split: option.splits)
  qed (use L sL in auto)
  show "inner_ok c (Some k') hi R"
    unfolding inner_ok_def
  proof (intro conjI ballI)
    fix s assume s: "s \<in> set R"
    then show "is_child s" "\<not> sdel s" using el by auto
    show "case skey s of None \<Rightarrow> True | Some k \<Rightarrow> hi_gt hi k" using el s by auto
  qed (use R sR k' in auto)
  show "key_lt (skey (hd L)) k'" using below [OF hL] .
  show "hi_gt hi k'" using el hR k' by force
qed

lemma split_pend:
  assumes w: "wf_sub c t0 (Suc h) p lo hi bs" and n0: "heap t0 p = Some n"
      and bound: "\<forall>x. next_page t0 \<le> x \<longrightarrow> heap t0 x = None"
      and ko: "kids_ok c t1 h (L @ R) hi (tl bs)" and ka: "kids_apart t1 h (L @ R)"
      and pk: "p \<notin> kids_fp t1 h (L @ R)"
      and ksub: "kids_fp t1 h (L @ R) \<subseteq> kids_fp t0 h (slots n) \<union> fresh_in t0 t1"
      and ev: "evolves t0 t1 (fp t0 (Suc h) p)"
      and hdL: "lspine t1 h (kid (hd L)) = lspine t0 h (kid (hd (slots n)))"
      and so: "sorted_wrt olt (map skey (L @ R))" and lo: "skey (hd L) = lo"
      and el: "\<forall>s\<in>set (L @ R). is_child s \<and> \<not> sdel s \<and>
                 (case skey s of None \<Rightarrow> True | Some k \<Rightarrow> hi_gt hi k)"
      and L: "L \<noteq> []" "length L \<le> cap c" and R: "R \<noteq> []" "length R \<le> cap c"
      and k': "skey (hd R) = Some k'"
      and fr: "\<And>x. x \<noteq> p \<Longrightarrow> x \<noteq> next_page t1 \<Longrightarrow> heap t2 x = heap t1 x"
      and np: "next_page t2 = Suc (next_page t1)" and rt: "root t2 = root t1"
      and hl: "heap t2 p = Some ln" and hr: "heap t2 (next_page t1) = Some rn"
      and ln: "slots ln = L" "is_inner ln" "\<not> is_removed ln" "high_key ln = Some k'"
              "next_ptr ln = Some (next_page t1)"
      and rn: "slots rn = R" "is_inner rn" "\<not> is_removed rn" "high_key rn = hi"
              "next_ptr rn = hd bs"
  shows "pend_sub c t0 t2 (Suc h) p lo hi bs (next_page t1) k' (kids_recs t1 h (L @ R))"
proof -
  define r where "r = next_page t1"
  note e = evolvesD [OF ev]
  from w n0 have w0: "bs \<noteq> []" "node_ok n hi (hd bs)" "inner_ok c lo hi (slots n)"
    by (auto simp: wf_sub_Suc)
  have pl: "p < next_page t0" using bound n0 by (rule bound_lt)
  have pr: "p \<noteq> r" using pl e(2) by (simp add: r_def)
  have lt0: "x < next_page t0" if "x \<in> kids_fp t0 h (slots n)" for x
    using wf_sub_fp_lt [OF w bound, of x] that n0 by (simp add: fp_Suc)
  have lt1: "x < r" if "x \<in> kids_fp t1 h (L @ R)" for x
  proof -
    from that ksub have "x \<in> kids_fp t0 h (slots n) \<or> x \<in> fresh_in t0 t1" by auto
    then show ?thesis using lt0 [of x] e(2) by (auto simp: fresh_in_def r_def)
  qed
  have frame: "heap t2 x = heap t1 x" if "x \<in> kids_fp t1 h (L @ R)" for x
    using fr [of x] that pk lt1 [OF that] by (auto simp: r_def)
  have kf: "kids_fp t2 h (L @ R) = kids_fp t1 h (L @ R)"
      "kids_recs t2 h (L @ R) = kids_recs t1 h (L @ R)"
      "kids_apart t2 h (L @ R) = kids_apart t1 h (L @ R)"
    by (rule kids_frame(1), erule frame) (rule kids_frame(2), erule frame, rule kids_frame(3), erule frame)
  have kf4: "lspine t2 h (kid s) = lspine t1 h (kid s)" if "s \<in> set (L @ R)" for s
    using that by (rule kids_frame(4) [rotated]) (erule frame)
  have ko2: "kids_ok c t2 h (L @ R) hi (tl bs)" using frame ko by (rule kids_ok_frame)
  have ka2: "kids_apart t2 h (L @ R)" using kf(3) ka by simp
  have fp2: "kids_fp t2 h (L @ R) = kids_fp t1 h (L @ R)" by (rule kf(1))
  obtain y ys where Ry: "R = y # ys" using R(1) by (cases R) auto
  have hy: "skey y = Some k'" using k' Ry by simp
  from ko2 have koL: "kids_ok c t2 h L (Some k') (lspine t2 h (kid (hd R)))"
      and koR: "kids_ok c t2 h R hi (tl bs)"
    by (simp_all add: Ry kids_ok_append hy)
  from ka2 have kaL: "kids_apart t2 h L" and kaR: "kids_apart t2 h R"
      and dLR: "kids_fp t2 h L \<inter> kids_fp t2 h R = {}"
    by (simp_all add: kids_apart_append2)
  have pL: "p \<notin> kids_fp t2 h L" and pR: "p \<notin> kids_fp t2 h R" using pk fp2 by auto
  have rL: "r \<notin> kids_fp t2 h L" and rR: "r \<notin> kids_fp t2 h R"
    using lt1 [of r] fp2 by auto
  note io = inner_ok_halves [OF so el L R k', unfolded lo]
  have hn: "hi = None \<longleftrightarrow> hd bs = None" using w0(2) by (simp add: node_ok_def)
  have lr: "lspine t2 (Suc h) r = Some r # lspine t2 h (kid (hd R))"
    using hr rn(1) Ry by (simp add: lspine_Suc [where n = rn] r_def)
  have "wf_sub c t2 (Suc h) p lo (Some k') (Some r # lspine t2 h (kid (hd R)))"
    using hl ln io(1) pL kaL koL
    by (intro inner_node_wf [where m = ln]) (auto simp: r_def)
  then have W1: "wf_sub c t2 (Suc h) p lo (Some k') (lspine t2 (Suc h) r)" by (simp add: lr)
  have "wf_sub c t2 (Suc h) r (Some k') hi (hd bs # tl bs)"
    using hr rn io(2) rR kaR koR hn
    by (intro inner_node_wf [where m = rn]) (auto simp: r_def)
  then have W2: "wf_sub c t2 (Suc h) r (Some k') hi bs" using w0(1) by simp
  obtain x xs where Lx: "L = x # xs" using L(1) by (cases L) auto
  obtain s0 ss0 where S0: "slots n = s0 # ss0" using inner_okD(1) [OF w0(3)] by (cases "slots n") auto
  have "x \<in> set (L @ R)" by (simp add: Lx)
  from kf4 [OF this] have "lspine t2 h (kid x) = lspine t1 h (kid x)" .
  then have lx: "lspine t2 h (kid x) = lspine t0 h (kid s0)" using hdL by (simp add: Lx S0)
  have LS: "lspine t2 (Suc h) p = lspine t0 (Suc h) p"
    using hl ln(1) Lx n0 S0 lx
    by (simp add: lspine_Suc [where n = ln] lspine_Suc [where n = n])
  have f0: "fp t0 (Suc h) p = insert p (kids_fp t0 h (slots n))" using n0 by (simp add: fp_Suc)
  have f2p: "fp t2 (Suc h) p = insert p (kids_fp t2 h L)" using hl ln(1) by (simp add: fp_Suc)
  have f2r: "fp t2 (Suc h) r = insert r (kids_fp t2 h R)"
    using hr rn(1) by (simp add: fp_Suc r_def)
  have frs: "fresh_in t0 t1 \<subseteq> fresh_in t0 t2" "r \<in> fresh_in t0 t2"
    using e(2) np by (auto simp: fresh_in_def r_def)
  have F: "fp t2 (Suc h) p \<union> fp t2 (Suc h) r \<subseteq> fp t0 (Suc h) p \<union> fresh_in t0 t2"
    unfolding f0 f2p f2r using ksub fp2 frs by auto
  have D: "fp t2 (Suc h) p \<inter> fp t2 (Suc h) r = {}"
    unfolding f2p f2r using pr pR rL dLR by auto
  have RC: "recs_of t2 (Suc h) p @ recs_of t2 (Suc h) r = kids_recs t1 h (L @ R)"
    using hl hr ln(1) rn(1) kf(2)
    by (simp add: recs_Suc [where n = ln] recs_Suc [where n = rn] r_def)
  have E: "evolves t0 t2 (fp t0 (Suc h) p)"
    unfolding evolves_def
  proof (intro conjI allI impI)
    show "root t2 = root t0" using rt e(1) by simp
    show "next_page t0 \<le> next_page t2" using np e(2) by simp
    fix x
    show "heap t2 x = heap t0 x" if "x < next_page t0 \<and> x \<notin> fp t0 (Suc h) p"
    proof -
      from that have "x \<noteq> p" "x \<noteq> next_page t1" using e(2) by (auto simp: f0)
      then have "heap t2 x = heap t1 x" by (rule fr)
      then show ?thesis using e(3) [of x] that by simp
    qed
    show "heap t2 x = None" if "next_page t2 \<le> x"
    proof -
      from that np pl e(2) have "x \<noteq> p" "x \<noteq> next_page t1" by auto
      then have "heap t2 x = heap t1 x" by (rule fr)
      then show ?thesis using e(4) that np by simp
    qed
  qed
  show ?thesis
    unfolding pend_sub_def r_def [symmetric]
    using E W1 W2 io(3,4) LS F D RC by simp
qed

lemma ins_done:
  assumes w: "wf_sub c t0 (Suc h) p lo hi bs" and n0: "heap t0 p = Some n"
      and bound: "\<forall>x. next_page t0 \<le> x \<longrightarrow> heap t0 x = None"
      and ko: "kids_ok c t1 h V hi (tl bs)" and ka: "kids_apart t1 h V"
      and pk: "p \<notin> kids_fp t1 h V"
      and ksub: "kids_fp t1 h V \<subseteq> kids_fp t0 h (slots n) \<union> fresh_in t0 t1"
      and ev: "evolves t0 t1 (fp t0 (Suc h) p)"
      and hdV: "lspine t1 h (kid (hd V)) = lspine t0 h (kid (hd (slots n)))"
      and so: "sorted_wrt olt (map skey V)" and lo: "skey (hd V) = lo"
      and el: "\<forall>s\<in>set V. is_child s \<and> \<not> sdel s \<and>
                 (case skey s of None \<Rightarrow> True | Some k \<Rightarrow> hi_gt hi k)"
      and V: "V \<noteq> []" "length V \<le> cap c"
      and fr: "\<And>x. x \<noteq> p \<Longrightarrow> heap t2 x = heap t1 x"
      and np: "next_page t2 = next_page t1" and rt: "root t2 = root t1"
      and hl: "heap t2 p = Some n1"
      and n1: "slots n1 = V" "is_inner n1" "\<not> is_removed n1" "high_key n1 = hi"
              "next_ptr n1 = hd bs"
  shows "done_sub c t0 t2 (Suc h) p lo hi bs (kids_recs t1 h V)"
proof -
  note e = evolvesD [OF ev]
  from w n0 have w0: "bs \<noteq> []" "node_ok n hi (hd bs)" "inner_ok c lo hi (slots n)"
    by (auto simp: wf_sub_Suc)
  have pl: "p < next_page t0" using bound n0 by (rule bound_lt)
  have frame: "heap t2 x = heap t1 x" if "x \<in> kids_fp t1 h V" for x
    using fr [of x] that pk by auto
  have kf: "kids_fp t2 h V = kids_fp t1 h V"
      "kids_recs t2 h V = kids_recs t1 h V"
      "kids_apart t2 h V = kids_apart t1 h V"
    by (rule kids_frame(1), erule frame) (rule kids_frame(2), erule frame, rule kids_frame(3), erule frame)
  have kf4: "lspine t2 h (kid s) = lspine t1 h (kid s)" if "s \<in> set V" for s
    using that by (rule kids_frame(4) [rotated]) (erule frame)
  have ko2: "kids_ok c t2 h V hi (tl bs)" using frame ko by (rule kids_ok_frame)
  have io: "inner_ok c lo hi V" using V so lo el by (simp add: inner_ok_def)
  have hn: "hi = None \<longleftrightarrow> hd bs = None" using w0(2) by (simp add: node_ok_def)
  have "wf_sub c t2 (Suc h) p lo hi (hd bs # tl bs)"
    using hl n1 io pk ka ko2 hn kf
    by (intro inner_node_wf [where m = n1]) auto
  then have W: "wf_sub c t2 (Suc h) p lo hi bs" using w0(1) by simp
  obtain x xs where Vx: "V = x # xs" using V(1) by (cases V) auto
  obtain s0 ss0 where S0: "slots n = s0 # ss0" using inner_okD(1) [OF w0(3)] by (cases "slots n") auto
  have "x \<in> set V" by (simp add: Vx)
  from kf4 [OF this] have "lspine t2 h (kid x) = lspine t1 h (kid x)" .
  then have lx: "lspine t2 h (kid x) = lspine t0 h (kid s0)" using hdV by (simp add: Vx S0)
  have LS: "lspine t2 (Suc h) p = lspine t0 (Suc h) p"
    using hl n1(1) Vx n0 S0 lx
    by (simp add: lspine_Suc [where n = n1] lspine_Suc [where n = n])
  have f0: "fp t0 (Suc h) p = insert p (kids_fp t0 h (slots n))" using n0 by (simp add: fp_Suc)
  have f2p: "fp t2 (Suc h) p = insert p (kids_fp t2 h V)" using hl n1(1) by (simp add: fp_Suc)
  have frs: "fresh_in t0 t2 = fresh_in t0 t1" using np by (simp add: fresh_in_def)
  have F: "fp t2 (Suc h) p \<subseteq> fp t0 (Suc h) p \<union> fresh_in t0 t2"
    unfolding f0 f2p frs kf(1) using ksub by auto
  have RC: "recs_of t2 (Suc h) p = kids_recs t1 h V"
    using hl n1(1) kf(2) by (simp add: recs_Suc [where n = n1])
  have E: "evolves t0 t2 (fp t0 (Suc h) p)"
    unfolding evolves_def
  proof (intro conjI allI impI)
    show "root t2 = root t0" using rt e(1) by simp
    show "next_page t0 \<le> next_page t2" using np e(2) by simp
    fix x
    show "heap t2 x = heap t0 x" if "x < next_page t0 \<and> x \<notin> fp t0 (Suc h) p"
    proof -
      from that have "x \<noteq> p" by (auto simp: f0)
      then have "heap t2 x = heap t1 x" by (rule fr)
      then show ?thesis using e(3) [of x] that by simp
    qed
    show "heap t2 x = None" if "next_page t2 \<le> x"
    proof -
      from that np pl e(2) have "x \<noteq> p" by auto
      then have "heap t2 x = heap t1 x" by (rule fr)
      then show ?thesis using e(4) that np by simp
    qed
  qed
  show ?thesis
    unfolding done_sub_def using E W LS F RC by simp
qed

lemma live_id: "\<forall>s\<in>set ss. \<not> sdel s \<Longrightarrow> live ss = ss"
  by (induction ss) (auto simp: live_def)

lemma inner_split_lists:
  fixes r :: ptr
  assumes ok: "inner_ok c lo hi ss" and i: "i < length ss"
      and lt: "key_lt (skey (ss ! i)) sep" and gt: "hi_gt (hi_at ss i hi) sep"
      and len: "length ss = cap c" and cap: "2 \<le> cap c"
  defines "A \<equiv> take (length ss div 2) ss" and "B \<equiv> drop (length ss div 2) ss"
      and "V \<equiv> take (Suc i) ss @ [Slot (Some sep) (Child r) False] @ drop (Suc i) ss"
  obtains k' where "B \<noteq> []" "A \<noteq> []" "skey (hd B) = Some k'" "sep \<noteq> k'"
     "sep < k' \<Longrightarrow> ins_slot A sep (Child r) @ B = V \<and> length (ins_slot A sep (Child r)) \<le> cap c \<and>
                 length A < cap c \<and> hd (ins_slot A sep (Child r)) = hd ss"
     "\<not> sep < k' \<Longrightarrow> A @ ins_slot B sep (Child r) = V \<and> length (ins_slot B sep (Child r)) \<le> cap c \<and>
                 length B < cap c \<and> hd (ins_slot B sep (Child r)) = hd B \<and> hd A = hd ss"
proof -
  define m where "m = length ss div 2"
  have m: "0 < m" "m < length ss" using len cap by (auto simp: m_def)
  have Am: "A = take m ss" and Bm: "B = drop m ss" by (simp_all add: A_def B_def m_def)
  note so = inner_okD(4) [OF ok]
  note icl = ins_child_list(1,2) [OF ok i lt gt]
  have before: "key_lt (skey (ss ! a)) sep" if "a < Suc i" for a
  proof (cases "a = i")
    case True
    then show ?thesis using lt by simp
  next
    case False
    then have "olt (skey (ss ! a)) (skey (ss ! i))"
      using that so i by (intro sorted_wrt_olt_nth) auto
    then show ?thesis using lt by (rule olt_key_lt_trans)
  qed
  have nb: "\<not> key_lt (skey (ss ! Suc i)) sep" if "Suc i < length ss"
  proof -
    have "lower_pos ss sep < length ss" using icl(1) that by simp
    then have "\<not> key_lt (skey (ss ! lower_pos ss sep)) sep"
      unfolding lower_pos_def by (rule nth_length_takeWhile)
    then show ?thesis using icl(1) by simp
  qed
  have "skey (ss ! m) \<noteq> None" using so m by (intro sorted_keys_Some) auto
  then obtain k' where k': "skey (ss ! m) = Some k'" by auto
  have Bne: "B \<noteq> []" and Ane: "A \<noteq> []" using m by (auto simp: Am Bm)
  have hdB: "hd B = ss ! m" using m by (simp add: Bm hd_drop_conv_nth)
  have hdA: "hd A = hd ss" using m by (simp add: Am hd_take)
  have "ss ! m \<in> set ss" using m by simp
  then have ne: "sep \<noteq> k'" using icl(2) k' by auto
  have lA: "length A = m" and lB: "length B = length ss - m" using m by (simp_all add: Am Bm)
  have left: "ins_slot A sep (Child r) @ B = V \<and> length (ins_slot A sep (Child r)) \<le> cap c \<and>
                 length A < cap c \<and> hd (ins_slot A sep (Child r)) = hd ss" if "sep < k'"
  proof -
    have im: "Suc i \<le> m"
    proof (rule ccontr)
      assume "\<not> Suc i \<le> m"
      then have "m < Suc i" by simp
      from before [OF this] show False using k' that by simp
    qed
    have lp: "lower_pos A sep = Suc i"
    proof (rule lower_pos_unique)
      show "Suc i \<le> length A" using im lA by simp
      show "key_lt (skey (A ! a)) sep" if "a < Suc i" for a
        using before [OF that] that im by (simp add: Am)
      show "\<not> key_lt (skey (A ! Suc i)) sep" if "Suc i < length A"
        using nb that lA m by (simp add: Am)
    qed
    have t: "take (Suc i) A = take (Suc i) ss" using im by (simp add: Am min_def)
    have d: "drop (Suc i) A @ B = drop (Suc i) ss"
      using drop_append [of "Suc i" "take m ss" "drop m ss"] im m by (simp add: Am Bm)
    have h: "hd (ins_slot A sep (Child r)) = hd ss"
      unfolding ins_slot_def lp t using i by (cases ss) simp_all
    have l: "length (ins_slot A sep (Child r)) = Suc (length A)"
      by (simp add: ins_slot_def)
    have l2: "Suc m \<le> cap c" "m < cap c" using len cap by (auto simp: m_def)
    have v: "ins_slot A sep (Child r) @ B = V"
      using d t by (simp add: ins_slot_def lp V_def)
    show ?thesis using v h l lA l2 by simp
  qed
  have right: "A @ ins_slot B sep (Child r) = V \<and> length (ins_slot B sep (Child r)) \<le> cap c \<and>
                 length B < cap c \<and> hd (ins_slot B sep (Child r)) = hd B \<and> hd A = hd ss"
    if "\<not> sep < k'"
  proof -
    have g: "k' < sep" using that ne by auto
    have mi: "m \<le> i"
    proof (rule ccontr)
      assume "\<not> m \<le> i"
      then have c1: "Suc i \<le> m" by simp
      have "\<not> key_lt (skey (ss ! m)) sep"
      proof (cases "m = Suc i")
        case True
        then show ?thesis using nb m by simp
      next
        case False
        then have "olt (skey (ss ! Suc i)) (skey (ss ! m))"
          using c1 so m by (intro sorted_wrt_olt_nth) auto
        then have "key_lt (skey (ss ! m)) sep \<Longrightarrow> key_lt (skey (ss ! Suc i)) sep"
          by (rule olt_key_lt_trans)
        moreover have "Suc i < length ss" using c1 m by simp
        ultimately show ?thesis using nb by blast
      qed
      then show False using k' g by simp
    qed
    have lp: "lower_pos B sep = Suc i - m"
    proof (rule lower_pos_unique)
      show "Suc i - m \<le> length B" using mi lB i by simp
      show "key_lt (skey (B ! a)) sep" if "a < Suc i - m" for a
        using before [of "m + a"] that mi i by (simp add: Bm)
      show "\<not> key_lt (skey (B ! (Suc i - m))) sep" if "Suc i - m < length B"
        using nb that lB mi by (simp add: Bm)
    qed
    have t: "A @ take (Suc i - m) B = take (Suc i) ss"
      using take_append [of "Suc i" "take m ss" "drop m ss"] mi m by (simp add: Am Bm min_def)
    have d: "drop (Suc i - m) B = drop (Suc i) ss" using mi by (simp add: Bm)
    have "key_lt (skey (hd B)) sep" using hdB k' g by simp
    from lower_pos_hd(2) [OF Bne this, of "Child r"] have h: "hd (ins_slot B sep (Child r)) = hd B" .
    have "A @ ins_slot B sep (Child r) = (A @ take (Suc i - m) B) @ [Slot (Some sep) (Child r) False] @ drop (Suc i - m) B"
      by (simp add: ins_slot_def lp)
    then have v: "A @ ins_slot B sep (Child r) = V" unfolding t d by (simp add: V_def)
    have "length (ins_slot B sep (Child r)) = Suc (length B)" by (simp add: ins_slot_def)
    then show ?thesis using v h hdA lB m len by simp
  qed
  show thesis
    using that [of k'] Bne Ane hdB k' ne left right by simp
qed

subsection \<open>Shrinking the root\<close>





subsection \<open>Completing a split one level up\<close>

lemma SearchRecord_absent:
  assumes "\<forall>s\<in>set (slots n). skey s \<noteq> Some k"
  shows "SearchRecord n k = (kKeyNotInserted, lower_pos (slots n) k)"
proof (cases rule: SearchRecord_cases [of n k])
  case found
  then have "slots n ! lower_pos (slots n) k \<in> set (slots n)" by simp
  then show ?thesis using assms found(3) by blast
next
  case absent
  then show ?thesis by simp
qed

lemma InsertChild_room:
  assumes "\<forall>s\<in>set (slots n). skey s \<noteq> Some k" "length (slots n) < cap c"
  shows "InsertChild c n r k = (kCompleted, InsertRecord n k (Child r) (lower_pos (slots n) k))"
  using assms by (simp add: InsertChild_def SearchRecord_absent)

lemma InsertChild_full:
  assumes "\<forall>s\<in>set (slots n). skey s \<noteq> Some k" "cap c \<le> length (slots n)"
  shows "InsertChild c n r k = (kNeedSplit, n)"
  using assms by (simp add: InsertChild_def SearchRecord_absent)

lemma step_pending:
  assumes wf: "wf_sub c t0 (Suc h) p lo hi bs" and n: "heap t0 p = Some n"
      and i: "i < length (slots n)"
      and bound: "\<forall>x. next_page t0 \<le> x \<longrightarrow> heap t0 x = None" and cap: "2 \<le> cap c"
      and lt: "key_lt (skey (slots n ! i)) sep"
      and pd: "pend_sub c t0 t1 h (kid (slots n ! i)) (skey (slots n ! i)) (hi_at (slots n) i hi)
                 (bs_at t0 h (slots n) i (tl bs)) r sep rs"
  defines "RS \<equiv> kids_recs t0 h (take i (slots n)) @ rs @ kids_recs t0 h (drop (Suc i) (slots n))"
  shows "(\<exists>t2. CompleteSplit_loop c t1 (pre @ [p]) None (kid (slots n ! i)) r sep = Some t2 \<and>
               done_sub c t0 t2 (Suc h) p lo hi bs RS \<and>
               (\<forall>x. x \<noteq> p \<and> x < next_page t1 \<longrightarrow> heap t2 x = heap t1 x)) \<or>
         (\<exists>t2 r' sep'. CompleteSplit_loop c t1 (pre @ [p]) None (kid (slots n ! i)) r sep =
                          CompleteSplit_loop c t2 pre None p r' sep' \<and>
               pend_sub c t0 t2 (Suc h) p lo hi bs r' sep' RS \<and>
               (\<forall>x. x \<noteq> p \<and> x < next_page t1 \<longrightarrow> heap t2 x = heap t1 x))"
proof -
  define ss where "ss = slots n"
  define V where "V = take (Suc i) ss @ [Slot (Some sep) (Child r) False] @ drop (Suc i) ss"
  define q where "q = kid (ss ! i)"
  have il: "i < length ss" using i by (simp add: ss_def)
  from wf n have w0: "is_inner n" "bs \<noteq> []" "node_ok n hi (hd bs)" "inner_ok c lo hi ss"
    by (auto simp: wf_sub_Suc ss_def)
  have nd: "\<not> is_removed n" "high_key n = hi" "next_ptr n = hd bs"
    using w0(3) by (auto simp: node_ok_def)
  from pd have gt: "hi_gt (hi_at ss i hi) sep" by (simp add: pend_sub_def ss_def)
  have lt': "key_lt (skey (ss ! i)) sep" using lt by (simp add: ss_def)
  note icl = ins_child_list(1,2) [OF w0(4) il lt' gt]
    ins_child_list(3,4,5,6) [OF w0(4) il lt' gt, of r, folded V_def]
    ins_child_list(7) [OF w0(4) il lt' gt]
    ins_child_list(8) [OF w0(4) il lt' gt, of r, folded V_def]
  note pc = pend_context [OF wf n i bound pd, folded ss_def, folded V_def RS_def]
  have h1: "heap t1 p = Some n" by (rule pc(1))
  have e1: "next_page t0 \<le> next_page t1" using evolvesD(2) [OF pc(8)] .
  have pl1: "p < next_page t1" using pc(9) e1 by simp
  have ab: "\<forall>s\<in>set (slots n). skey s \<noteq> Some sep" using icl(2) by (simp add: ss_def)
  have ck: "CheckKeyRangeAndLockForWrite t1 p sep = Some (Some p)"
    unfolding CheckKeyRangeAndLockForWrite_def
    using h1 nd icl(7) by (intro CheckKeyRange_stay) auto
  obtain s0 ss0 where S0: "ss = s0 # ss0" using inner_okD(1) [OF w0(4)] by (cases ss) auto
  have hdV: "lspine t1 h (kid (hd V)) = lspine t0 h (kid (hd (slots n)))"
    using pc(7) [of "hd ss"] icl(5) S0 by (simp add: ss_def [symmetric])
  have lo: "skey (hd V) = lo" using icl(5) inner_okD(3) [OF w0(4)] by simp
  have Vne: "V \<noteq> []" by (simp add: V_def)
  show ?thesis
  proof (cases "cap c \<le> length (slots n)")
    case False
    define n1 where "n1 = InsertRecord n sep (Child r) (lower_pos (slots n) sep)"
    define t2 where "t2 = set_node p n1 t1"
    have ic: "InsertChild c n r sep = (kCompleted, n1)"
      using ab False by (simp add: InsertChild_room n1_def)
    have cs: "CompleteSplit_loop c t1 (pre @ [p]) None q r sep = Some t2"
      by (subst CompleteSplit_loop.simps) (simp add: ck h1 ic t2_def)
    have s1: "slots n1 = V" using icl(3) by (simp add: n1_def ss_def ins_slot_def)
    have lV: "length V \<le> cap c" using icl(8) False by (simp add: ss_def)
    have "done_sub c t0 t2 (Suc h) p lo hi bs (kids_recs t1 h V)"
    proof (rule ins_done [OF wf n bound pc(2,3,4) pc(5) [unfolded ss_def] pc(8) hdV icl(4) lo icl(6) Vne lV])
      show "heap t2 x = heap t1 x" if "x \<noteq> p" for x using that by (simp add: t2_def)
      show "next_page t2 = next_page t1" "root t2 = root t1" "heap t2 p = Some n1"
        by (simp_all add: t2_def)
      show "slots n1 = V" by (rule s1)
      show "is_inner n1" "\<not> is_removed n1" "high_key n1 = hi" "next_ptr n1 = hd bs"
        using w0(1) nd by (simp_all add: n1_def)
    qed
    then have "done_sub c t0 t2 (Suc h) p lo hi bs RS" by (simp add: pc(6) RS_def ss_def)
    moreover have "\<forall>x. x \<noteq> p \<and> x < next_page t1 \<longrightarrow> heap t2 x = heap t1 x"
      by (simp add: t2_def)
    ultimately show ?thesis using cs unfolding q_def ss_def by blast
  next
    case True
    then have len: "length ss = cap c" using inner_okD(2) [OF w0(4)] by (simp add: ss_def)
    have ic: "InsertChild c n r sep = (kNeedSplit, n)" using ab True by (rule InsertChild_full)
    define A where "A = take (length ss div 2) ss"
    define B where "B = drop (length ss div 2) ss"
    have lv: "live (slots n) = ss"
      unfolding ss_def using inner_okD(5) [OF w0(4)] by (intro live_id) (auto simp: ss_def)
    from inner_split_lists [OF w0(4) il lt' gt len cap, of r, folded A_def B_def V_def]
    obtain k' where k': "B \<noteq> []" "A \<noteq> []" "skey (hd B) = Some k'" "sep \<noteq> k'"
      and left: "sep < k' \<Longrightarrow> ins_slot A sep (Child r) @ B = V \<and>
                   length (ins_slot A sep (Child r)) \<le> cap c \<and> length A < cap c \<and>
                   hd (ins_slot A sep (Child r)) = hd ss"
      and right: "\<not> sep < k' \<Longrightarrow> A @ ins_slot B sep (Child r) = V \<and>
                   length (ins_slot B sep (Child r)) \<le> cap c \<and> length B < cap c \<and>
                   hd (ins_slot B sep (Child r)) = hd B \<and> hd A = hd ss"
      by blast
    let ?r = "next_page t1"
    from HalfSplit_result [OF h1 pl1] obtain t1a where
      ta: "HalfSplit p t1 = Some (?r, t1a)" "heap t1a p = Some (left_half n ?r)"
        "heap t1a ?r = Some (right_half n)"
        "\<And>x. x \<noteq> p \<Longrightarrow> x \<noteq> ?r \<Longrightarrow> heap t1a x = heap t1 x"
        "next_page t1a = Suc ?r" "root t1a = root t1"
      by blast
    have ne: "p \<noteq> ?r" using pl1 by simp
    have sl: "slots (left_half n ?r) = A" and sr: "slots (right_half n) = B"
      by (simp_all add: A_def B_def lv)
    have hl: "high_key (left_half n ?r) = Some k'"
      using k'(1,3) by (cases B) (auto simp: B_def lv)
    have gv: "GetValidSplitNode t1a p sep = Some (if sep < k' then p else ?r)"
      using ta(2) hl by (simp add: GetValidSplitNode_def)
    have abA: "\<forall>s\<in>set A. skey s \<noteq> Some sep" and abB: "\<forall>s\<in>set B. skey s \<noteq> Some sep"
      using icl(2) by (auto simp: A_def B_def dest: in_set_takeD in_set_dropD)
    have lf: "is_inner (left_half n ?r)" "\<not> is_removed (left_half n ?r)"
        "next_ptr (left_half n ?r) = Some ?r"
      and rf: "is_inner (right_half n)" "\<not> is_removed (right_half n)"
        "high_key (right_half n) = hi" "next_ptr (right_half n) = hd bs"
      using w0(1) nd by simp_all
    show ?thesis
    proof (cases "sep < k'")
      case True
      note l = left [OF True]
      define tn1 where "tn1 = InsertRecord (left_half n ?r) sep (Child r) (lower_pos A sep)"
      define t2 where "t2 = set_node p tn1 t1a"
      have i2: "InsertChild c (left_half n ?r) r sep = (kCompleted, tn1)"
        using abA l sl by (simp add: InsertChild_room tn1_def)
      have s1: "slots tn1 = ins_slot A sep (Child r)" using sl by (simp add: tn1_def ins_slot_def)
      have gs: "GetSeparatorKey tn1 True = Some k'" using hl by (simp add: GetSeparatorKey_def tn1_def)
      have cs: "CompleteSplit_loop c t1 (pre @ [p]) None q r sep =
                  CompleteSplit_loop c t2 pre None p ?r k'"
        by (subst CompleteSplit_loop.simps) (simp add: ck h1 ic ta(1,2) gv True i2 gs t2_def)
      have VL: "V = ins_slot A sep (Child r) @ B" using l by simp
      have hdL: "lspine t1 h (kid (hd (ins_slot A sep (Child r)))) = lspine t0 h (kid (hd (slots n)))"
        using hdV l icl(5) by (simp add: ss_def)
      have loL: "skey (hd (ins_slot A sep (Child r))) = lo" using lo l icl(5) by simp
      have "pend_sub c t0 t2 (Suc h) p lo hi bs ?r k' (kids_recs t1 h (ins_slot A sep (Child r) @ B))"
      proof (rule split_pend [OF wf n bound pc(2,3,4) [unfolded VL] pc(5) [unfolded VL ss_def] pc(8) hdL icl(4) [unfolded VL]
            loL icl(6) [unfolded VL] _ _ k'(1) _ k'(3)])
        show "ins_slot A sep (Child r) \<noteq> []" by simp
        show "length (ins_slot A sep (Child r)) \<le> cap c" using l by simp
        show "length B \<le> cap c" using len by (simp add: B_def)
        show "heap t2 x = heap t1 x" if "x \<noteq> p" "x \<noteq> ?r" for x
          using that ta(4) by (simp add: t2_def)
        show "next_page t2 = Suc ?r" "root t2 = root t1" using ta by (simp_all add: t2_def)
        show "heap t2 p = Some tn1" by (simp add: t2_def)
        show "heap t2 ?r = Some (right_half n)" using ta(3) ne by (simp add: t2_def)
        show "slots tn1 = ins_slot A sep (Child r)" by (rule s1)
        show "is_inner tn1" "\<not> is_removed tn1" "high_key tn1 = Some k'" "next_ptr tn1 = Some ?r"
          using lf hl by (simp_all add: tn1_def)
        show "slots (right_half n) = B" by (rule sr)
        show "is_inner (right_half n)" "\<not> is_removed (right_half n)"
          "high_key (right_half n) = hi" "next_ptr (right_half n) = hd bs"
          using rf by simp_all
      qed
      then have "pend_sub c t0 t2 (Suc h) p lo hi bs ?r k' RS"
        using pc(6) by (simp add: VL [symmetric] RS_def ss_def)
      moreover have "\<forall>x. x \<noteq> p \<and> x < next_page t1 \<longrightarrow> heap t2 x = heap t1 x"
        using ta(4) by (simp add: t2_def)
      ultimately show ?thesis using cs unfolding q_def ss_def by blast
    next
      case False
      note rr = right [OF False]
      define tn1 where "tn1 = InsertRecord (right_half n) sep (Child r) (lower_pos B sep)"
      define t2 where "t2 = set_node ?r tn1 t1a"
      have i2: "InsertChild c (right_half n) r sep = (kCompleted, tn1)"
        using abB rr sr by (simp add: InsertChild_room tn1_def)
      have s1: "slots tn1 = ins_slot B sep (Child r)" using sr by (simp add: tn1_def ins_slot_def)
      obtain x xs where X: "ins_slot B sep (Child r) = x # xs"
        using ins_slot_nonempty [of B sep "Child r"] by (cases "ins_slot B sep (Child r)") auto
      have "x = hd B" using rr X by simp
      then have gs: "GetSeparatorKey tn1 False = Some k'"
        using k'(3) by (simp add: GetSeparatorKey_def s1 X)
      have cs: "CompleteSplit_loop c t1 (pre @ [p]) None q r sep =
                  CompleteSplit_loop c t2 pre None p ?r k'"
        using ne
        by (subst CompleteSplit_loop.simps) (simp add: ck h1 ic ta(1,3) gv False i2 gs t2_def)
      have VL: "V = A @ ins_slot B sep (Child r)" using rr by simp
      have hdL: "lspine t1 h (kid (hd A)) = lspine t0 h (kid (hd (slots n)))"
        using hdV rr icl(5) by (simp add: ss_def)
      have loL: "skey (hd A) = lo" using lo rr icl(5) by simp
      have kR: "skey (hd (ins_slot B sep (Child r))) = Some k'" using rr k'(3) by simp
      have "pend_sub c t0 t2 (Suc h) p lo hi bs ?r k' (kids_recs t1 h (A @ ins_slot B sep (Child r)))"
      proof (rule split_pend [OF wf n bound pc(2,3,4) [unfolded VL] pc(5) [unfolded VL ss_def] pc(8) hdL icl(4) [unfolded VL]
            loL icl(6) [unfolded VL] k'(2) _ _ _ kR])
        show "ins_slot B sep (Child r) \<noteq> []" by simp
        show "length (ins_slot B sep (Child r)) \<le> cap c" using rr by simp
        show "length A \<le> cap c" using len by (simp add: A_def)
        show "heap t2 x = heap t1 x" if "x \<noteq> p" "x \<noteq> ?r" for x
          using that ta(4) by (simp add: t2_def)
        show "next_page t2 = Suc ?r" "root t2 = root t1" using ta by (simp_all add: t2_def)
        show "heap t2 ?r = Some tn1" by (simp add: t2_def)
        show "heap t2 p = Some (left_half n ?r)" using ta(2) ne by (simp add: t2_def)
        show "slots tn1 = ins_slot B sep (Child r)" by (rule s1)
        show "is_inner tn1" "\<not> is_removed tn1" "high_key tn1 = hi" "next_ptr tn1 = hd bs"
          using rf by (simp_all add: tn1_def)
        show "slots (left_half n ?r) = A" by (rule sl)
        show "is_inner (left_half n ?r)" "\<not> is_removed (left_half n ?r)"
          "high_key (left_half n ?r) = Some k'" "next_ptr (left_half n ?r) = Some ?r"
          using lf hl by simp_all
      qed
      then have "pend_sub c t0 t2 (Suc h) p lo hi bs ?r k' RS"
        using pc(6) by (simp add: VL [symmetric] RS_def ss_def)
      moreover have "\<forall>x. x \<noteq> p \<and> x < next_page t1 \<longrightarrow> heap t2 x = heap t1 x"
        using ta(4) by (simp add: t2_def)
      ultimately show ?thesis using cs unfolding q_def ss_def by blast
    qed
  qed
qed

subsection \<open>Putting a record into a subtree\<close>

lemma put_sub:
  assumes "wf_sub c t0 h p lo hi bs" "key_le lo k" "hi_gt hi k" "2 \<le> cap c"
      "\<forall>x. next_page t0 \<le> x \<longrightarrow> heap t0 x = None"
  shows "(\<exists>tg tn t1. put_leaf c t0 (pre @ path_to t0 k h p) k v = Some (tg, tn, t1) \<and>
            done_sub c t0 t1 h p lo hi bs (upsert k v (recs_of t0 h p)) \<and>
            heap t1 tg = Some tn \<and> leaf_with k v tn) \<or>
         (\<exists>tg tn t1 r sep.
            put_leaf c t0 (pre @ path_to t0 k h p) k v =
              map_option (\<lambda>t2. (tg, tn, t2)) (CompleteSplit_loop c t1 pre None p r sep) \<and>
            pend_sub c t0 t1 h p lo hi bs r sep (upsert k v (recs_of t0 h p)) \<and>
            heap t1 tg = Some tn \<and> leaf_with k v tn)"
  using assms
proof (induction h arbitrary: pre p lo hi bs)
  case 0
  then show ?case using leaf_put [of c t0 p lo hi bs k pre v] by simp
next
  case (Suc h)
  note wf = Suc.prems(1) and lo = Suc.prems(2) and hi = Suc.prems(3) and cap = Suc.prems(4)
    and bound = Suc.prems(5)
  from wf obtain n where n: "heap t0 p = Some n" by (auto simp: wf_sub_Suc)
  from wf n have io: "inner_ok c lo hi (slots n)" and ko: "kids_ok c t0 h (slots n) hi (tl bs)"
    by (auto simp: wf_sub_Suc)
  define i where "i = child_pos (slots n) k"
  define q where "q = kid (slots n ! i)"
  note ch = wf_inner_child [OF wf n lo hi, folded i_def]
  have path: "pre @ path_to t0 k (Suc h) p = (pre @ [p]) @ path_to t0 k h q"
    using n by (simp add: i_def q_def)
  define X where "X = kids_recs t0 h (take i (slots n))"
  define Y where "Y = kids_recs t0 h (drop (Suc i) (slots n))"
  have R: "recs_of t0 (Suc h) p = X @ recs_of t0 h q @ Y"
    using n kids_recs_nth [OF ch(1), of t0 h] by (simp add: recs_Suc X_def Y_def q_def)
  have bX: "\<forall>x\<in>set X. fst x < k"
    using kids_before_below [OF io ko ch(1) ch(3)] by (auto simp: X_def)
  have bY: "\<forall>x\<in>set Y. k < fst x"
    using kids_after_above [OF io ko ch(1) ch(4)] by (auto simp: Y_def)
  have U: "upsert k v (recs_of t0 (Suc h) p) = X @ upsert k v (recs_of t0 h q) @ Y"
    unfolding R using bX bY by (rule upsert_within)
  from Suc.IH [OF ch(2) ch(3) ch(4) cap bound, of "pre @ [p]", folded q_def]
  consider (dn) tg tn t1 where
      "put_leaf c t0 ((pre @ [p]) @ path_to t0 k h q) k v = Some (tg, tn, t1)"
      "done_sub c t0 t1 h q (skey (slots n ! i)) (hi_at (slots n) i hi)
         (bs_at t0 h (slots n) i (tl bs)) (upsert k v (recs_of t0 h q))"
      "heap t1 tg = Some tn" "leaf_with k v tn"
    | (pd) tg tn t1 r sep where
      "put_leaf c t0 ((pre @ [p]) @ path_to t0 k h q) k v =
         map_option (\<lambda>t2. (tg, tn, t2)) (CompleteSplit_loop c t1 (pre @ [p]) None q r sep)"
      "pend_sub c t0 t1 h q (skey (slots n ! i)) (hi_at (slots n) i hi)
         (bs_at t0 h (slots n) i (tl bs)) r sep (upsert k v (recs_of t0 h q))"
      "heap t1 tg = Some tn" "leaf_with k v tn"
    by blast
  then show ?case
  proof cases
    case dn
    from lift_done [OF wf n ch(1) bound dn(2) [unfolded q_def]]
    have "done_sub c t0 t1 (Suc h) p lo hi bs (upsert k v (recs_of t0 (Suc h) p))"
      by (simp add: U X_def Y_def q_def)
    with dn(1,3,4) show ?thesis unfolding path by blast
  next
    case pd
    from pd(2) have lt: "key_lt (skey (slots n ! i)) sep"
      and ev: "evolves t0 t1 (fp t0 h q)" by (simp_all add: pend_sub_def q_def)
    have h1: "heap t1 p = Some n" and inn: "is_inner n"
      using pend_context(1) [OF wf n ch(1) bound pd(2) [unfolded q_def]] wf n
      by (auto simp: wf_sub_Suc)
    have tgp: "tg \<noteq> p" using h1 inn pd(3,4) by (auto simp: leaf_with_def)
    have tgl: "tg < next_page t1"
      using evolvesD(4) [OF ev] pd(3) by (metis not_le option.distinct(1))
    from step_pending [OF wf n ch(1) bound cap lt pd(2) [unfolded q_def], of pre, folded q_def]
    consider (a) t2 where "CompleteSplit_loop c t1 (pre @ [p]) None q r sep = Some t2"
        "done_sub c t0 t2 (Suc h) p lo hi bs (upsert k v (recs_of t0 (Suc h) p))"
        "\<forall>x. x \<noteq> p \<and> x < next_page t1 \<longrightarrow> heap t2 x = heap t1 x"
      | (b) t2 r' sep' where "CompleteSplit_loop c t1 (pre @ [p]) None q r sep =
                          CompleteSplit_loop c t2 pre None p r' sep'"
        "pend_sub c t0 t2 (Suc h) p lo hi bs r' sep' (upsert k v (recs_of t0 (Suc h) p))"
        "\<forall>x. x \<noteq> p \<and> x < next_page t1 \<longrightarrow> heap t2 x = heap t1 x"
      unfolding U X_def Y_def q_def by blast
    then show ?thesis
    proof cases
      case a
      have "put_leaf c t0 (pre @ path_to t0 k (Suc h) p) k v = Some (tg, tn, t2)"
        unfolding path pd(1) a(1) by simp
      moreover have "heap t2 tg = Some tn" using a(3) tgp tgl pd(3) by simp
      ultimately show ?thesis using a(2) pd(4) by blast
    next
      case b
      have "put_leaf c t0 (pre @ path_to t0 k (Suc h) p) k v =
              map_option (\<lambda>t2. (tg, tn, t2)) (CompleteSplit_loop c t2 pre None p r' sep')"
        unfolding path pd(1) b(1) by simp
      moreover have "heap t2 tg = Some tn" using b(3) tgp tgl pd(3) by simp
      ultimately show ?thesis using b(2) pd(4) by blast
    qed
  qed
qed

subsection \<open>The public operations on a well-formed tree\<close>

lemma root_split_done:
  assumes "root t = l"
  shows "CompleteSplit_loop c t [] node l r k =
           Some (t\<lparr>heap := (heap t)(next_page t := Some (root_node k l r)),
                   next_page := Suc (next_page t), root := next_page t\<rparr>)"
  using assms by (subst CompleteSplit_loop.simps) (simp add: TryRootSplit_def alloc_node_def)

lemma grow_inv:
  assumes cap: "2 \<le> cap c"
      and pd: "pend_sub c t0 t1 h (root t0) None None (replicate (Suc h) None) r sep rs"
  defines "t2 \<equiv> t1\<lparr>heap := (heap t1)(next_page t1 := Some (root_node sep (root t0) r)),
                    next_page := Suc (next_page t1), root := next_page t1\<rparr>"
  shows "inv c t2 (Suc h)" and "recs_of t2 (Suc h) (root t2) = rs"
proof -
  define p where "p = root t0"
  define np where "np = next_page t1"
  define m :: "('a, 'b) node" where "m = root_node sep p r"
  from pd have ev: "evolves t0 t1 (fp t0 h p)"
      and wp: "wf_sub c t1 h p None (Some sep) (lspine t1 h r)"
      and wr: "wf_sub c t1 h r (Some sep) None (replicate (Suc h) None)"
      and dj: "fp t1 h p \<inter> fp t1 h r = {}"
      and rs: "recs_of t1 h p @ recs_of t1 h r = rs"
    by (simp_all add: pend_sub_def p_def)
  note e = evolvesD [OF ev]
  have ltp: "x < np" if "x \<in> fp t1 h p" for x
    using wf_sub_fp_lt [OF wp e(4) that] by (simp add: np_def)
  have ltr: "x < np" if "x \<in> fp t1 h r" for x
    using wf_sub_fp_lt [OF wr e(4) that] by (simp add: np_def)
  have h2: "heap t2 x = (if x = np then Some m else heap t1 x)" for x
    by (simp add: t2_def np_def m_def p_def)
  have frp: "heap t2 x = heap t1 x" if "x \<in> fp t1 h p" for x using ltp [OF that] by (simp add: h2)
  have frr: "heap t2 x = heap t1 x" if "x \<in> fp t1 h r" for x using ltr [OF that] by (simp add: h2)
  have fp2: "fp t2 h p = fp t1 h p" "fp t2 h r = fp t1 h r"
    by (rule fp_frame, erule frp) (rule fp_frame, erule frr)
  have ls: "lspine t2 h r = lspine t1 h r" by (rule lspine_frame) (erule frr)
  have wp2: "wf_sub c t2 h p None (Some sep) (lspine t2 h r)"
    unfolding ls using frp wp by (rule wf_frame)
  have wr2: "wf_sub c t2 h r (Some sep) None (replicate (Suc h) None)"
    using frr wr by (rule wf_frame)
  have sm: "slots m = [Slot None (Child p) False, Slot (Some sep) (Child r) False]"
      "is_inner m" "\<not> is_removed m" "high_key m = None" "next_ptr m = None"
    by (simp_all add: m_def root_node_def new_node_def)
  have kd: "kid (Slot None (Child p) False :: ('a, 'b) slot) = p"
      "kid (Slot (Some sep) (Child r) False :: ('a, 'b) slot) = r"
    by (simp_all add: kid_def)
  have io: "inner_ok c None None (slots m)"
    using cap by (simp add: sm inner_ok_def is_child_def)
  have nk: "np \<notin> kids_fp t2 h (slots m)"
    using ltp [of np] ltr [of np] by (auto simp: sm kd fp2)
  have ka: "kids_apart t2 h (slots m)" using dj by (simp add: sm kd fp2)
  have ko: "kids_ok c t2 h (slots m) None (replicate (Suc h) None)"
    using wp2 wr2 by (simp add: sm kd)
  have "wf_sub c t2 (Suc h) np None None (None # replicate (Suc h) None)"
    using h2 [of np] sm io nk ka ko by (intro inner_node_wf [where m = m]) auto
  then have W: "wf_sub c t2 (Suc h) (root t2) None None (replicate (Suc (Suc h)) None)"
    by (simp add: t2_def np_def)
  have B: "\<forall>x. next_page t2 \<le> x \<longrightarrow> heap t2 x = None"
    using e(4) by (auto simp: t2_def)
  show "inv c t2 (Suc h)" using cap W B by (simp add: inv_def)
  have "recs_of t2 h p = recs_of t1 h p" "recs_of t2 h r = recs_of t1 h r"
    by (rule recs_frame, erule frp) (rule recs_frame, erule frr)
  then show "recs_of t2 (Suc h) (root t2) = rs"
    using h2 [of np] rs by (simp add: recs_Suc [where n = m] sm kd t2_def np_def)
qed

lemma put_root:
  assumes iv: "inv c t h"
  shows "\<exists>tg tn t' h'. put_leaf c t (path_to t k h (root t)) k v = Some (tg, tn, t') \<and>
           inv c t' h' \<and> recs_of t' h' (root t') = upsert k v (recs_of t h (root t)) \<and>
           heap t' tg = Some tn \<and> leaf_with k v tn"
proof -
  from iv have wf: "wf_sub c t h (root t) None None (replicate (Suc h) None)"
      and cap: "2 \<le> cap c" and bound: "\<forall>x. next_page t \<le> x \<longrightarrow> heap t x = None"
    by (simp_all add: inv_def)
  from put_sub [OF wf _ _ cap bound, of k "[]" v]
  consider (dn) tg tn t1 where
      "put_leaf c t (path_to t k h (root t)) k v = Some (tg, tn, t1)"
      "done_sub c t t1 h (root t) None None (replicate (Suc h) None)
         (upsert k v (recs_of t h (root t)))"
      "heap t1 tg = Some tn" "leaf_with k v tn"
    | (pd) tg tn t1 r sep where
      "put_leaf c t (path_to t k h (root t)) k v =
         map_option (\<lambda>t2. (tg, tn, t2)) (CompleteSplit_loop c t1 [] None (root t) r sep)"
      "pend_sub c t t1 h (root t) None None (replicate (Suc h) None) r sep
         (upsert k v (recs_of t h (root t)))"
      "heap t1 tg = Some tn" "leaf_with k v tn"
    by auto
  then show ?thesis
  proof cases
    case dn
    from dn(2) have "inv c t1 h" "recs_of t1 h (root t1) = upsert k v (recs_of t h (root t))"
      using cap by (simp_all add: done_sub_def inv_def evolves_def)
    with dn(1,3,4) show ?thesis by blast
  next
    case pd
    define t2 where "t2 = t1\<lparr>heap := (heap t1)(next_page t1 := Some (root_node sep (root t) r)),
                    next_page := Suc (next_page t1), root := next_page t1\<rparr>"
    from pd(2) have "root t1 = root t" by (simp add: pend_sub_def evolves_def)
    then have "CompleteSplit_loop c t1 [] None (root t) r sep = Some t2"
      unfolding t2_def by (rule root_split_done)
    then have "put_leaf c t (path_to t k h (root t)) k v = Some (tg, tn, t2)"
      using pd(1) by simp
    moreover note grow_inv [OF cap pd(2), folded t2_def]
    moreover have "tg < next_page t1"
      using pd(2,3) by (metis evolvesD(4) pend_sub_def not_le option.distinct(1))
    then have "heap t2 tg = Some tn" using pd(3) by (simp add: t2_def)
    ultimately show ?thesis using pd(4) by blast
  qed
qed

lemma Write_inv:
  assumes iv: "inv c t h"
  shows "\<exists>t' h'. Write c t k v = Some (kSuccess, t') \<and> inv c t' h' \<and>
           recs_of t' h' (root t') = upsert k v (recs_of t h (root t))"
proof -
  from iv have wf: "wf_sub c t h (root t) None None (replicate (Suc h) None)"
    by (simp add: inv_def)
  have s: "SearchLeafNodeForWrite t k = Some (path_to t k h (root t))"
    using search_write [OF wf, of k "[]"] by (simp add: SearchLeafNodeForWrite_def)
  from put_root [OF iv, of k v] obtain tg tn t' h' where
    "put_leaf c t (path_to t k h (root t)) k v = Some (tg, tn, t')" "inv c t' h'"
    "recs_of t' h' (root t') = upsert k v (recs_of t h (root t))"
    by blast
  then show ?thesis by (auto simp: Write_eq s)
qed

lemma Read_inv:
  assumes iv: "inv c t h"
  shows "\<exists>ni. Read t k = Some (map_of (recs_of t h (root t)) k, ni)"
proof -
  from iv have wf: "wf_sub c t h (root t) None None (replicate (Suc h) None)"
    by (simp add: inv_def)
  have s: "SearchLeafNode t k = Some (last (path_to t k h (root t)))"
    using search_read [OF wf, of k] by (simp add: SearchLeafNode_def)
  from leaf_of_path [OF wf, of k] obtain n where
    n: "heap t (last (path_to t k h (root t))) = Some n" "\<not> is_inner n" "\<not> is_removed n"
      "hi_gt (high_key n) k"
      "map_of (recs_of t h (root t)) k = map_option snd (find_live n k)"
    by auto
  have loc: "locate t (last (path_to t k h (root t))) k = Some (last (path_to t k h (root t)), n)"
    using n(1,3,4) by (rule locate_stay)
  show ?thesis
    using s n(5) loc by (auto simp: Read_def Node_Read_def split: option.splits)
qed

lemma inv_empty: "2 \<le> cap c \<Longrightarrow> inv c empty_tree 0"
  by (auto simp: inv_def empty_tree_def wf_sub_0 new_node_def node_ok_def leaf_ok_def)

lemma leaf_on_path:
  assumes iv: "inv c t h"
  obtains n where "SearchLeafNodeForWrite t k = Some (path_to t k h (root t))"
    "SearchLeafNode t k = Some (last (path_to t k h (root t)))"
    "heap t (last (path_to t k h (root t))) = Some n" "\<not> is_inner n"
    "locate t (last (path_to t k h (root t))) k = Some (last (path_to t k h (root t)), n)"
    "map_of (recs_of t h (root t)) k = map_option snd (find_live n k)"
proof -
  from iv have wf: "wf_sub c t h (root t) None None (replicate (Suc h) None)"
    by (simp add: inv_def)
  have s: "SearchLeafNodeForWrite t k = Some (path_to t k h (root t))"
    using search_write [OF wf, of k "[]"] by (simp add: SearchLeafNodeForWrite_def)
  have r: "SearchLeafNode t k = Some (last (path_to t k h (root t)))"
    using search_read [OF wf, of k] by (simp add: SearchLeafNode_def)
  from leaf_of_path [OF wf, of k] obtain n where
    n: "heap t (last (path_to t k h (root t))) = Some n" "\<not> is_inner n" "\<not> is_removed n"
      "hi_gt (high_key n) k"
      "map_of (recs_of t h (root t)) k = map_option snd (find_live n k)"
    by auto
  have loc: "locate t (last (path_to t k h (root t))) k = Some (last (path_to t k h (root t)), n)"
    using n(1,3,4) by (rule locate_stay)
  show thesis using that [OF s r n(1,2) loc n(5)] .
qed

lemma find_live_mem:
  assumes "find_live n k = Some (pos, old)"
  shows "(k, old) \<in> set (lrecs (slots n))"
proof -
  obtain rc p where sr: "SearchRecord n k = (rc, p)" by (cases "SearchRecord n k")
  with assms have f: "rc = kKeyAlreadyInserted" "\<not> sdel (slots n ! p)" "spay (slots n ! p) = Val old"
    by (auto simp: find_live_def split: if_splits pay.splits)
  from sr f(1) have p: "p < length (slots n)" "skey (slots n ! p) = Some k"
    using SearchRecord_found [of n k] SearchRecord_pos [of n k] by auto
  have "slots n ! p = Slot (Some k) (Val old) False"
    using f(2,3) p(2) by (cases "slots n ! p") auto
  then have "Slot (Some k) (Val old) False \<in> set (slots n)" using p(1) nth_mem by metis
  then show ?thesis by (auto simp: set_lrecs slot_rec_Some_iff)
qed

lemma Insert_present:
  assumes iv: "inv c t h" and old: "map_of (recs_of t h (root t)) k = Some old"
  shows "\<exists>leaf n. Insert c t k v = Some (kKeyExist, Some old, (leaf, ver n, ver n), t) \<and>
           heap t leaf = Some n \<and> leaf_with k old n"
proof -
  from leaf_on_path [OF iv, of k] obtain n where
    l: "SearchLeafNodeForWrite t k = Some (path_to t k h (root t))"
      "heap t (last (path_to t k h (root t))) = Some n" "\<not> is_inner n"
      "locate t (last (path_to t k h (root t))) k = Some (last (path_to t k h (root t)), n)"
      "map_of (recs_of t h (root t)) k = map_option snd (find_live n k)"
    by blast
  from l(5) old obtain pos where f: "find_live n k = Some (pos, old)"
    by (cases "find_live n k") auto
  then have "Insert c t k v =
      Some (kKeyExist, Some old, (last (path_to t k h (root t)), ver n, ver n), t)"
    using l(1,4) by (simp add: Insert_eq)
  moreover have "leaf_with k old n" using l(3) find_live_mem [OF f] by (simp add: leaf_with_def)
  ultimately show ?thesis using l(2) by blast
qed

lemma Insert_absent:
  assumes iv: "inv c t h" and ab: "map_of (recs_of t h (root t)) k = None"
  shows "\<exists>t' h' leaf n. Insert c t k v =
             Some (kSuccess, None, (leaf, ver n, GetPreviousVersion (ver n)), t') \<and>
           inv c t' h' \<and> recs_of t' h' (root t') = upsert k v (recs_of t h (root t)) \<and>
           heap t' leaf = Some n \<and> leaf_with k v n"
proof -
  from leaf_on_path [OF iv, of k] obtain n where
    l: "SearchLeafNodeForWrite t k = Some (path_to t k h (root t))"
      "locate t (last (path_to t k h (root t))) k = Some (last (path_to t k h (root t)), n)"
      "map_of (recs_of t h (root t)) k = map_option snd (find_live n k)"
    by blast
  from l(3) ab have f: "find_live n k = None" by simp
  from put_root [OF iv, of k v] obtain tg tn t' h' where
    p: "put_leaf c t (path_to t k h (root t)) k v = Some (tg, tn, t')" "inv c t' h'"
      "recs_of t' h' (root t') = upsert k v (recs_of t h (root t))"
      "heap t' tg = Some tn" "leaf_with k v tn"
    by blast
  have "Insert c t k v = Some (kSuccess, None, (tg, ver tn, GetPreviousVersion (ver tn)), t')"
    using l(1,2) f p(1) by (simp add: Insert_eq)
  with p(2-) show ?thesis by blast
qed

lemma find_live_Write:
  assumes "find_live n k = Some (pos, old)"
  shows "node_Write c n k v = (kCompleted, overwrite n k (Val v) pos)"
  using assms by (auto simp: find_live_def node_Write_def split: prod.splits if_splits pay.splits)

lemma Update_present:
  assumes iv: "inv c t h" and old: "map_of (recs_of t h (root t)) k = Some old"
  shows "\<exists>t'. Update t k v = Some (kSuccess, t') \<and> Write c t k v = Some (kSuccess, t')"
proof -
  from leaf_on_path [OF iv, of k] obtain n where
    l: "SearchLeafNodeForWrite t k = Some (path_to t k h (root t))"
      "SearchLeafNode t k = Some (last (path_to t k h (root t)))"
      "locate t (last (path_to t k h (root t))) k = Some (last (path_to t k h (root t)), n)"
      "map_of (recs_of t h (root t)) k = map_option snd (find_live n k)"
    by blast
  from l(4) old obtain pos where f: "find_live n k = Some (pos, old)"
    by (cases "find_live n k") auto
  note w = find_live_Write [OF f, of c v]
  have "Update t k v =
      Some (kSuccess, set_node (last (path_to t k h (root t))) (overwrite n k (Val v) pos) t)"
    using l(2,3) f by (simp add: Update_def Node_Update_def)
  moreover have "Write c t k v =
      Some (kSuccess, set_node (last (path_to t k h (root t))) (overwrite n k (Val v) pos) t)"
    using l(1,3) w by (simp add: Write_eq put_leaf_def)
  ultimately show ?thesis by simp
qed

lemma Update_absent:
  assumes iv: "inv c t h" and ab: "map_of (recs_of t h (root t)) k = None"
  shows "Update t k v = Some (kKeyNotExist, t)"
proof -
  from leaf_on_path [OF iv, of k] obtain n where
    l: "SearchLeafNode t k = Some (last (path_to t k h (root t)))"
      "locate t (last (path_to t k h (root t))) k = Some (last (path_to t k h (root t)), n)"
      "map_of (recs_of t h (root t)) k = map_option snd (find_live n k)"
    by blast
  from l(3) ab have f: "find_live n k = None" by simp
  show ?thesis using l(1,2) f by (simp add: Update_def Node_Update_def)
qed

subsection \<open>The records of a well-formed tree are in key order\<close>

lemma lrecs_sorted:
  "sorted_wrt olt (map skey ss) \<Longrightarrow> sorted_wrt (<) (map fst (lrecs ss))"
proof (induction ss)
  case Nil
  then show ?case by simp
next
  case (Cons s ss)
  then have ih: "sorted_wrt (<) (map fst (lrecs ss))" by simp
  show ?case
  proof (cases "slot_rec s")
    case None
    then show ?thesis using ih by (simp add: lrecs_Cons)
  next
    case (Some r)
    have "fst r < fst x" if "x \<in> set (lrecs ss)" for x
    proof -
      from lrecs_keys [OF that] obtain s' where s': "s' \<in> set ss" "skey s' = Some (fst x)" by blast
      have "olt (skey s) (skey s')" using Cons.prems s'(1) by auto
      then show ?thesis using slot_rec_key [OF Some] s'(2) by simp
    qed
    then show ?thesis using ih Some by (auto simp: lrecs_Cons)
  qed
qed

lemma kids_recs_take_sorted:
  assumes ok: "inner_ok c lo hi ss" and kids: "kids_ok c t h ss hi bs"
      and each: "\<And>s. s \<in> set ss \<Longrightarrow> sorted_wrt (<) (map fst (recs_of t h (kid s)))"
  shows "j \<le> length ss \<Longrightarrow> sorted_wrt (<) (map fst (kids_recs t h (take j ss)))"
proof (induction j)
  case 0
  then show ?case by simp
next
  case (Suc j)
  then have j: "j < length ss" by simp
  have t: "take (Suc j) ss = take j ss @ [ss ! j]" using j by (rule take_Suc_conv_app_nth)
  have w: "wf_sub c t h (kid (ss ! j)) (skey (ss ! j)) (hi_at ss j hi) (bs_at t h ss j bs)"
    using kids j by (simp add: kids_ok_nth)
  have lt: "fst x < fst y"
    if "x \<in> set (kids_recs t h (take j ss))" "y \<in> set (recs_of t h (kid (ss ! j)))" for x y
  proof -
    have "key_le (skey (ss ! j)) (fst y)" using wf_recs_range [OF w that(2)] by simp
    from kids_before_below [OF ok kids j this that(1)] show ?thesis .
  qed
  have "sorted_wrt (<) (map fst (kids_recs t h (take j ss)))" using Suc by simp
  moreover have "sorted_wrt (<) (map fst (recs_of t h (kid (ss ! j))))" using each j by simp
  ultimately show ?case using lt by (auto simp: t sorted_wrt_append)
qed

lemma recs_sorted:
  "wf_sub c t h p lo hi bs \<Longrightarrow> sorted_wrt (<) (map fst (recs_of t h p))"
proof (induction h arbitrary: p lo hi bs)
  case 0
  then show ?case by (auto simp: wf_sub_0 recs_0 leaf_ok_def intro: lrecs_sorted)
next
  case (Suc h)
  from Suc.prems obtain n where n: "heap t p = Some n" "inner_ok c lo hi (slots n)"
      "kids_ok c t h (slots n) hi (tl bs)"
    by (auto simp: wf_sub_Suc)
  have each: "sorted_wrt (<) (map fst (recs_of t h (kid s)))" if "s \<in> set (slots n)" for s
  proof -
    from that obtain j where "j < length (slots n)" "s = slots n ! j" by (auto simp: in_set_conv_nth)
    then show ?thesis using n(3) Suc.IH by (auto simp: kids_ok_nth)
  qed
  from kids_recs_take_sorted [OF n(2,3) each, of "length (slots n)"]
  show ?case using n(1) by (simp add: recs_Suc)
qed

lemma inv_sorted: "inv c t h \<Longrightarrow> sorted_wrt (<) (map fst (recs_of t h (root t)))"
  by (auto simp: inv_def intro: recs_sorted)

lemma upsert_keys_present:
  "sorted_wrt (<) (map fst xs) \<Longrightarrow> k \<in> fst ` set xs \<Longrightarrow> map fst (upsert k v xs) = map fst xs"
proof (induction xs)
  case Nil
  then show ?case by simp
next
  case (Cons x xs)
  obtain a b where x: "x = (a, b)" by (cases x)
  show ?case
  proof (cases "a < k")
    case True
    then show ?thesis using Cons x by auto
  next
    case False
    have "a = k"
    proof (rule ccontr)
      assume "a \<noteq> k"
      then have "k \<in> fst ` set xs" using Cons.prems(2) x by auto
      then have "a < k" using Cons.prems(1) x by auto
      then show False using False by simp
    qed
    then show ?thesis using x by simp
  qed
qed

lemma upsert_length_absent:
  "k \<notin> fst ` set xs \<Longrightarrow> length (upsert k v xs) = Suc (length xs)"
  by (induction xs) (auto split: if_splits)

lemma map_of_key_iff: "(k \<in> fst ` set xs) = (map_of xs k \<noteq> None)"
  by (simp add: map_of_eq_None_iff)

subsection \<open>The left edge of the next subtree\<close>

lemma sp_0 [simp]: "sp t 0 p = {p}"
  by (simp add: sp_def)

lemma sp_Suc:
  "heap t p = Some n \<Longrightarrow> slots n = s # ss \<Longrightarrow> sp t (Suc h) p = insert p (sp t h (kid s))"
  by (auto simp: sp_def lspine.simps)

lemma sp_self [simp]: "p \<in> sp t h p"
  by (cases h) (auto simp: sp_def lspine.simps)

lemma sp_sub_fp: "sp t h p \<subseteq> fp t h p"
proof (induction h arbitrary: p)
  case 0
  then show ?case by simp
next
  case (Suc h)
  show ?case
  proof (cases "heap t p")
    case None
    then show ?thesis by (auto simp: sp_def lspine.simps fp.simps)
  next
    case (Some n)
    show ?thesis
    proof (cases "slots n")
      case Nil
      then show ?thesis using Some by (auto simp: sp_def lspine.simps fp.simps)
    next
      case (Cons s ss)
      have "sp t h (kid s) \<subseteq> fp t h (kid s)" by (rule Suc.IH)
      then show ?thesis using Some Cons by (auto simp: sp_Suc fp_Suc)
    qed
  qed
qed

lemma lspine_frame_sp:
  "(\<And>x. x \<in> sp t h p \<Longrightarrow> heap t' x = heap t x) \<Longrightarrow> lspine t' h p = lspine t h p"
proof (induction h arbitrary: p)
  case 0
  then show ?case by simp
next
  case (Suc h)
  have q: "heap t' p = heap t p" by (rule Suc.prems) simp
  show ?case
  proof (cases "heap t p")
    case None
    then show ?thesis using q by (simp add: lspine.simps)
  next
    case (Some n)
    show ?thesis
    proof (cases "slots n")
      case Nil
      then show ?thesis using q Some by (simp add: lspine.simps)
    next
      case (Cons s ss)
      have "lspine t' h (kid s) = lspine t h (kid s)"
      proof (rule Suc.IH)
        fix x assume "x \<in> sp t h (kid s)"
        then have "x \<in> sp t (Suc h) p" using Some Cons by (simp add: sp_Suc)
        then show "heap t' x = heap t x" by (rule Suc.prems)
      qed
      then show ?thesis using q Some Cons by (simp add: lspine.simps)
    qed
  qed
qed

lemma nbr_frame:
  "(\<And>x. x \<in> sp t h p \<Longrightarrow> heap t' x = heap t x) \<Longrightarrow> nbr t' h p k = nbr t h p k"
proof (induction h arbitrary: p)
  case 0
  then show ?case by simp
next
  case (Suc h)
  have q: "heap t' p = heap t p" by (rule Suc.prems) simp
  show ?case
  proof (cases "heap t p")
    case None
    then show ?thesis using q by simp
  next
    case (Some n)
    show ?thesis
    proof (cases "slots n")
      case Nil
      then show ?thesis using q Some by simp
    next
      case (Cons s ss)
      have "nbr t' h (kid s) k = nbr t h (kid s) k"
      proof (rule Suc.IH)
        fix x assume "x \<in> sp t h (kid s)"
        then have "x \<in> sp t (Suc h) p" using Some Cons by (simp add: sp_Suc)
        then show "heap t' x = heap t x" by (rule Suc.prems)
      qed
      then show ?thesis using q Some Cons by simp
    qed
  qed
qed

lemma nbr_defined: "nbr t h p k \<Longrightarrow> x \<in> sp t h p \<Longrightarrow> heap t x \<noteq> None"
proof (induction h arbitrary: p)
  case 0
  then show ?case by simp
next
  case (Suc h)
  from Suc.prems(1) obtain n s ss where n: "heap t p = Some n" "slots n = s # ss" "nbr t h (kid s) k"
    by (auto split: option.splits list.splits)
  from Suc.prems(2) have "x = p \<or> x \<in> sp t h (kid s)" using n by (simp add: sp_Suc)
  then show ?case using n Suc.IH [OF n(3)] by auto
qed

lemma wf_nbr: "wf_sub c t h p (Some k) hi bs \<Longrightarrow> nbr t h p k"
proof (induction h arbitrary: p hi bs)
  case 0
  then show ?case by (auto simp: wf_sub_0)
next
  case (Suc h)
  from Suc.prems obtain n where n: "heap t p = Some n" "node_ok n hi (hd bs)"
      "inner_ok c (Some k) hi (slots n)" "kids_ok c t h (slots n) hi (tl bs)"
    by (auto simp: wf_sub_Suc)
  from inner_okD(1) [OF n(3)] obtain s ss where s: "slots n = s # ss" by (cases "slots n") auto
  have k: "skey s = Some k" using inner_okD(3) [OF n(3)] s by simp
  have h: "hi_gt hi k" using inner_okD(6) [OF n(3), of s k] s k by simp
  have "wf_sub c t h (kid s) (Some k) (case ss of [] \<Rightarrow> hi | s' # _ \<Rightarrow> skey s')
          (case ss of [] \<Rightarrow> tl bs | s' # _ \<Rightarrow> lspine t h (kid s'))"
    using n(4) s k by (simp add: kids_ok_Cons)
  then have "nbr t h (kid s) k" by (rule Suc.IH)
  then show ?case using n(1,2) s k h by (simp add: node_ok_def)
qed

lemma right_ctx_child:
  assumes wf: "wf_sub c t (Suc h) p lo hi bs" and n: "heap t p = Some n"
      and i: "i < length (slots n)" and cx: "right_ctx t (Suc h) p hi bs"
  shows "right_ctx t h (kid (slots n ! i)) (hi_at (slots n) i hi) (bs_at t h (slots n) i (tl bs))"
proof (cases "Suc i < length (slots n)")
  case True
  define q' where "q' = kid (slots n ! Suc i)"
  from wf n have io: "inner_ok c lo hi (slots n)" and ko: "kids_ok c t h (slots n) hi (tl bs)"
      and ka: "kids_apart t h (slots n)"
    by (auto simp: wf_sub_Suc)
  have "skey (slots n ! Suc i) \<noteq> None"
    using inner_okD(4) [OF io] True by (intro sorted_keys_Some) auto
  then obtain k where k: "skey (slots n ! Suc i) = Some k" by auto
  have "wf_sub c t h q' (Some k) (hi_at (slots n) (Suc i) hi) (bs_at t h (slots n) (Suc i) (tl bs))"
    using ko [unfolded kids_ok_nth, rule_format, OF True] k by (simp add: q'_def)
  then have nb: "nbr t h q' k" by (rule wf_nbr)
  have "fp t h q' \<inter> fp t h (kid (slots n ! i)) = {}"
    using ka True by (simp add: kids_apart_nth q'_def)
  then have dj: "sp t h q' \<inter> fp t h (kid (slots n ! i)) = {}" using sp_sub_fp [of t h q'] by auto
  show ?thesis
    using True k nb dj by (simp add: right_ctx_def hi_at_def bs_at_def q'_def)
next
  case False
  then have e: "hi_at (slots n) i hi = hi" "bs_at t h (slots n) i (tl bs) = tl bs"
    by (simp_all add: hi_at_def bs_at_def)
  show ?thesis
  proof (cases hi)
    case None
    then show ?thesis unfolding e by (simp add: right_ctx_def)
  next
    case (Some k)
    from cx Some obtain p' where p': "bs = lspine t (Suc h) p'" "nbr t (Suc h) p' k"
        "sp t (Suc h) p' \<inter> fp t (Suc h) p = {}"
      by (auto simp: right_ctx_def split: option.splits)
    from p'(2) obtain n' s ss where n': "heap t p' = Some n'" "slots n' = s # ss"
        "nbr t h (kid s) k"
      by (auto split: option.splits list.splits)
    have tl: "tl bs = lspine t h (kid s)" using p'(1) n' by (simp add: lspine_Suc)
    have "sp t h (kid s) \<subseteq> sp t (Suc h) p'" using n' by (auto simp: sp_Suc)
    moreover have "fp t h (kid (slots n ! i)) \<subseteq> fp t (Suc h) p"
      using nth_kid_in_fp [OF n i] by auto
    ultimately have "sp t h (kid s) \<inter> fp t h (kid (slots n ! i)) = {}" using p'(3) by blast
    then show ?thesis using Some tl n'(3) unfolding e by (simp add: right_ctx_def)
  qed
qed

subsection \<open>The iterator\<close>

lemma skip_deleted_spec:
  "skip_deleted ss pos e = Some p \<Longrightarrow>
     pos \<le> p \<and> (\<forall>i. pos \<le> i \<and> i < p \<longrightarrow> i < length ss \<and> sdel (ss ! i)) \<and>
     (if p < e then p < length ss \<and> \<not> sdel (ss ! p) else p = max pos e)"
proof (induction ss pos e rule: skip_deleted.induct)
  case (1 ss pos e)
  show ?case
  proof (cases "pos < e \<and> pos < length ss \<and> sdel (ss ! pos)")
    case True
    then have "skip_deleted ss (Suc pos) e = Some p"
      using "1.prems" by (simp add: skip_deleted.simps [of ss pos e])
    with True "1.IH" have IH0: "Suc pos \<le> p \<and> (\<forall>i. Suc pos \<le> i \<and> i < p \<longrightarrow> i < length ss \<and> sdel (ss ! i)) \<and>
     (if p < e then p < length ss \<and> \<not> sdel (ss ! p) else p = max (Suc pos) e)" by blast
    from True have "max (Suc pos) e = e" by simp
    with IH0 have IH: "Suc pos \<le> p \<and> (\<forall>i. Suc pos \<le> i \<and> i < p \<longrightarrow> i < length ss \<and> sdel (ss ! i)) \<and> (if p < e then p < length ss \<and> \<not> sdel (ss ! p) else p = e)" by (auto split: if_splits)
    have "\<And>i. pos \<le> i \<Longrightarrow> i < p \<Longrightarrow> i < length ss \<and> sdel (ss ! i)"
    proof -
      fix i assume "pos \<le> i" "i < p"
      then consider "i = pos" | "Suc pos \<le> i" by linarith
      then show "i < length ss \<and> sdel (ss ! i)" using True IH \<open>i < p\<close> by cases auto
    qed
    moreover have "pos \<le> p" using IH by simp
    moreover have "(if p < e then p < length ss \<and> \<not> sdel (ss ! p) else p = max pos e)"
      using IH True by (auto simp: max_def split: if_splits)
    ultimately show ?thesis by blast
  next
    case False
    then show ?thesis using "1.prems"
      by (auto simp: skip_deleted.simps [of ss pos e] max_def split: if_splits)
  qed
qed

lemma skip_deleted_total:
  "e \<le> length ss \<Longrightarrow> \<exists>p. skip_deleted ss pos e = Some p"
proof (induction ss pos e rule: skip_deleted.induct)
  case (1 ss pos e)
  then show ?case
    by (cases "pos < e \<and> sdel (ss ! pos)") (auto simp: skip_deleted.simps [of ss pos e])
qed

lemma SearchEndPositionFor_s_locks:
  "SearchEndPositionFor (m\<lparr>s_locks := x\<rparr>) ek = SearchEndPositionFor m ek"
  by (simp add: SearchEndPositionFor_def IsRightmostOf_def SearchRecord_def
      cong: option.case_cong prod.case_cong if_cong)

lemma GetNextNodeForRead_distinct:
  assumes "heap t p = Some n" "next_ptr n = Some q" "heap t q = Some m" "q \<noteq> p"
  shows "GetNextNodeForRead p t =
           Some (q, set_node p (n\<lparr>s_locks := s_locks n - 1\<rparr>)
                      (set_node q (m\<lparr>s_locks := Suc (s_locks m)\<rparr>) t))"
  using assms
  by (simp add: GetNextNodeForRead_def AcquireSharedLock_def ReleaseSharedLock_def set_node_def)

text \<open>
  Claim C8, as the iterator of record_iterator.hpp runs it.  \<open>HasNext\<close> first skips
  the slots marked deleted from the current position.  If the position it reaches is
  before the end position, the slot there is not deleted and the answer is true, the
  tree untouched.  Otherwise, in the last node of the range, it gives back one shared
  lock of the node and answers false; the iterator has no epoch guard among its
  members and the guard count of the tree stays as it was.  Otherwise it moves to the
  right sibling under lock coupling, puts the position to 0, takes the end position
  and the last-node flag from \<open>SearchEndPositionFor\<close> on the sibling against the end
  key, and goes round the loop again.
\<close>

theorem HasNext_protocol:
  assumes n: "heap t (it_node it) = Some n"
      and e: "it_end_pos it \<le> length (slots n)"
  shows "\<exists>pos. skip_deleted (slots n) (it_pos it) (it_end_pos it) = Some pos \<and>
           it_pos it \<le> pos \<and> (\<forall>i. it_pos it \<le> i \<and> i < pos \<longrightarrow> sdel (slots n ! i)) \<and>
           (if pos < it_end_pos it then
              \<not> sdel (slots n ! pos) \<and> HasNext it t = Some (True, it\<lparr>it_pos := pos\<rparr>, t)
            else if it_is_end it then
              HasNext it t =
                Some (False, it\<lparr>it_pos := pos\<rparr>,
                      set_node (it_node it) (n\<lparr>s_locks := s_locks n - 1\<rparr>) t)
            else
              (\<forall>q m. next_ptr n = Some q \<and> heap t q = Some m \<and> q \<noteq> it_node it \<longrightarrow>
                 HasNext it t =
                   HasNext (it\<lparr>it_node := q, it_pos := 0,
                               it_end_pos := snd (SearchEndPositionFor m (it_end_key it)),
                               it_is_end := fst (SearchEndPositionFor m (it_end_key it))\<rparr>)
                     (lock_coupled (it_node it) n q m t)))"
proof -
  from e obtain pos where pos: "skip_deleted (slots n) (it_pos it) (it_end_pos it) = Some pos"
    using skip_deleted_total by blast
  note sp = skip_deleted_spec [OF pos]
  have A: "it_pos it \<le> pos \<and> (\<forall>i. it_pos it \<le> i \<and> i < pos \<longrightarrow> sdel (slots n ! i))"
    using sp by blast
  have B: "pos < it_end_pos it \<Longrightarrow>
             \<not> sdel (slots n ! pos) \<and> HasNext it t = Some (True, it\<lparr>it_pos := pos\<rparr>, t)"
    using sp n pos by (simp add: HasNext.simps [of it t])
  have C: "\<not> pos < it_end_pos it \<Longrightarrow> it_is_end it \<Longrightarrow>
             HasNext it t = Some (False, it\<lparr>it_pos := pos\<rparr>,
                      set_node (it_node it) (n\<lparr>s_locks := s_locks n - 1\<rparr>) t)"
    using n pos by (simp add: HasNext.simps [of it t] ReleaseSharedLock_def)
  have D: "HasNext it t =
             HasNext (it\<lparr>it_node := q, it_pos := 0,
                         it_end_pos := snd (SearchEndPositionFor m (it_end_key it)),
                         it_is_end := fst (SearchEndPositionFor m (it_end_key it))\<rparr>)
               (lock_coupled (it_node it) n q m t)"
    if "\<not> pos < it_end_pos it" "\<not> it_is_end it"
       "next_ptr n = Some q" "heap t q = Some m" "q \<noteq> it_node it" for q m
  proof -
    have g: "GetNextNodeForRead (it_node it) t = Some (q, lock_coupled (it_node it) n q m t)"
      unfolding lock_coupled_def using n that by (rule_tac GetNextNodeForRead_distinct) auto
    have h: "heap (lock_coupled (it_node it) n q m t) q = Some (m\<lparr>s_locks := Suc (s_locks m)\<rparr>)"
      using that by (simp add: lock_coupled_def set_node_def)
    show ?thesis
      using n pos that(1,2) g h
      by (simp add: HasNext.simps [of it t] SearchEndPositionFor_s_locks split: prod.splits)
  qed
  show ?thesis
    using pos A B C D by (intro exI [of _ pos]) auto
qed

text \<open>
  Claim C8 as stated also has the epoch guard released when \<open>HasNext\<close> answers false.
  On the last leaf of a two-leaf chain, with one guard live, \<open>HasNext\<close> answers false
  and the guard is still live.
\<close>

theorem HasNext_guard_counterexample:
  "HasNext (C8_it 1 0 1 True) C8_tree =
     Some (False, C8_it 1 1 1 True, set_node 1 (C8_leaf1\<lparr>s_locks := 0\<rparr>) C8_tree) \<and>
   guards (set_node 1 (C8_leaf1\<lparr>s_locks := 0\<rparr>) C8_tree) = 1 \<and> guards C8_tree = 1"
  by (simp add: HasNext.simps C8_it_def C8_tree_def C8_leaf1_def skip_deleted.simps
      ReleaseSharedLock_def set_node_def)

theorem HasNext_protocol_witness:
  "heap C8_tree 0 = Some C8_leaf0 \<and> 2 \<le> length (slots C8_leaf0) \<and>
   HasNext (C8_it 0 0 2 False) C8_tree = Some (True, C8_it 0 1 2 False, C8_tree) \<and>
   heap C8_tree 1 = Some C8_leaf1 \<and> 1 \<le> length (slots C8_leaf1) \<and>
   HasNext (C8_it 1 0 1 True) C8_tree =
     Some (False, C8_it 1 1 1 True, set_node 1 (C8_leaf1\<lparr>s_locks := 0\<rparr>) C8_tree) \<and>
   HasNext (C8_it 0 2 2 False) C8_tree =
     HasNext (C8_it 1 0 1 True) (lock_coupled 0 C8_leaf0 1 C8_leaf1 C8_tree)"
proof -
  have h0: "heap C8_tree 0 = Some C8_leaf0" and h1: "heap C8_tree 1 = Some C8_leaf1"
    by (simp_all add: C8_tree_def)
  have l0: "2 \<le> length (slots C8_leaf0)" and l1: "1 \<le> length (slots C8_leaf1)"
    by (simp_all add: C8_leaf0_def C8_leaf1_def)
  have s0: "skip_deleted (slots C8_leaf0) 0 2 = Some 1"
    by (simp add: skip_deleted.simps C8_leaf0_def)
  have s1: "skip_deleted (slots C8_leaf1) 0 1 = Some 1"
    by (simp add: skip_deleted.simps C8_leaf1_def)
  have s2: "skip_deleted (slots C8_leaf0) 2 2 = Some 2"
    by (simp add: skip_deleted.simps C8_leaf0_def)
  have a: "HasNext (C8_it 0 0 2 False) C8_tree = Some (True, C8_it 0 1 2 False, C8_tree)"
    using HasNext_protocol [of C8_tree "C8_it 0 0 2 False" C8_leaf0] h0 l0 s0
    by (simp add: C8_it_def)
  have b: "HasNext (C8_it 1 0 1 True) C8_tree =
     Some (False, C8_it 1 1 1 True, set_node 1 (C8_leaf1\<lparr>s_locks := 0\<rparr>) C8_tree)"
    using HasNext_protocol [of C8_tree "C8_it 1 0 1 True" C8_leaf1] h1 l1 s1
    by (simp add: C8_it_def) (simp add: C8_leaf1_def)
  have c: "HasNext (C8_it 0 2 2 False) C8_tree =
     HasNext (C8_it 1 0 1 True) (lock_coupled 0 C8_leaf0 1 C8_leaf1 C8_tree)"
    using HasNext_protocol [of C8_tree "C8_it 0 2 2 False" C8_leaf0] h0 h1 l0 s2
    by (simp add: C8_it_def) (simp add: C8_leaf0_def C8_leaf1_def SearchEndPositionFor_def IsRightmostOf_def)
  show ?thesis using h0 h1 l0 l1 a b c by simp
qed

subsection \<open>Return codes of the public operations\<close>

text \<open>
  Claim C10.  \<open>Bulkload\<close> on an empty vector of entries returns the success code and
  the tree it was given: the store, the root, the allocator and the reclaimer's list
  are all as before.
\<close>

theorem Bulkload_empty: "Bulkload c t [] thread_num = Some (kSuccess, t)"
  by (simp add: Bulkload_def)

text \<open>
  Claim C7.  Whatever a public operation returns is a code of the public interface:
  \<open>Write\<close> and \<open>Bulkload\<close> return success, \<open>Insert\<close> success or key-present,
  \<open>Update\<close> and \<open>Delete\<close> success or key-absent (\<open>Read\<close> and \<open>Scan\<close> return a payload
  and an iterator, no code).  The codes of the nodes (need-split, need-merge,
  need-retry, abort-merge, completed) are values of another type and stay inside
  \<open>Write\<close>, \<open>Insert\<close>, \<open>Delete\<close>, \<open>CompleteSplit\<close> and \<open>Merge\<close>.
\<close>

theorem public_return_codes:
  "(Write c t k v = Some (rc, t') \<longrightarrow> rc = kSuccess) \<and>
   (Insert c t k v = Some (rc, out, ni, t') \<longrightarrow> rc = kSuccess \<or> rc = kKeyExist) \<and>
   (Update t k v = Some (rc, t') \<longrightarrow> rc = kSuccess \<or> rc = kKeyNotExist) \<and>
   (Delete c t k = Some (rc, t') \<longrightarrow> rc = kSuccess \<or> rc = kKeyNotExist) \<and>
   (Bulkload c t es n = Some (rc, t') \<longrightarrow> rc = kSuccess)"
proof (intro conjI impI)
  assume "Write c t k v = Some (rc, t')"
  then show "rc = kSuccess"
    by (auto simp: Write_def Let_def split: option.splits prod.splits if_splits)
next
  assume "Insert c t k v = Some (rc, out, ni, t')"
  then show "rc = kSuccess \<or> rc = kKeyExist"
    by (auto simp: Insert_def Let_def split: option.splits prod.splits if_splits)
next
  assume "Update t k v = Some (rc, t')"
  then show "rc = kSuccess \<or> rc = kKeyNotExist"
    by (auto simp: Update_def Node_Update_def split: option.splits prod.splits if_splits)
next
  assume "Delete c t k = Some (rc, t')"
  then show "rc = kSuccess \<or> rc = kKeyNotExist"
    by (auto simp: Delete_def split: option.splits prod.splits if_splits)
next
  assume "Bulkload c t es n = Some (rc, t')"
  then show "rc = kSuccess"
    by (auto simp: Bulkload_def Let_def split: option.splits prod.splits if_splits list.splits)
qed

theorem public_return_codes_witness:
  "Write C7_cfg (C7_tree [] 0) 1 10 =
     Some (kSuccess, C7_tree [Slot (Some 1) (Val 10) False] 262144) \<and>
   Insert C7_cfg (C7_tree [] 0) 1 10 =
     Some (kSuccess, None, (0, 262144, 0), C7_tree [Slot (Some 1) (Val 10) False] 262144) \<and>
   Update (C7_tree [Slot (Some 1) (Val 10) False] 0) 1 11 =
     Some (kSuccess, C7_tree [Slot (Some 1) (Val 11) False] 262144) \<and>
   Delete C7_cfg (C7_tree [Slot (Some 1) (Val 10) False] 0) 1 =
     Some (kSuccess, C7_tree [Slot (Some 1) (Val 10) True] 262144) \<and>
   Bulkload C7_cfg (C7_tree [] 0) [(1, 10)] 1 = Some (kSuccess, C7_loaded)"
proof -
  have w: "Write C7_cfg (C7_tree [] 0) 1 10 =
             Some (kSuccess, C7_tree [Slot (Some 1) (Val 10) False] 262144)"
    by (simp add: tree_defs node_defs loop_simps C7_defs)
  have i: "Insert C7_cfg (C7_tree [] 0) 1 10 =
             Some (kSuccess, None, (0, 262144, 0), C7_tree [Slot (Some 1) (Val 10) False] 262144)"
    by (simp add: tree_defs node_defs loop_simps C7_defs)
  have u: "Update (C7_tree [Slot (Some 1) (Val 10) False] 0) 1 11 =
             Some (kSuccess, C7_tree [Slot (Some 1) (Val 11) False] 262144)"
    by (simp add: tree_defs node_defs loop_simps C7_defs)
  have d: "Delete C7_cfg (C7_tree [Slot (Some 1) (Val 10) False] 0) 1 =
             Some (kSuccess, C7_tree [Slot (Some 1) (Val 10) True] 262144)"
    by (simp add: tree_defs node_defs loop_simps C7_defs)
  have b: "Bulkload C7_cfg (C7_tree [] 0) [(1, 10)] 1 = Some (kSuccess, C7_loaded)"
    by (simp add: tree_defs node_defs loop_simps C7_defs)
  note th = public_return_codes
    [of C7_cfg "C7_tree [] 0" 1 10 kSuccess "C7_tree [Slot (Some 1) (Val 10) False] 262144"
        None "(0, 262144, 0)"]
  from th w i u d b show ?thesis by simp
qed

subsection \<open>Root changes\<close>




subsection \<open>Write and Insert\<close>

text \<open>
  Claim C2.  On a well-formed tree \<open>Write\<close> returns the success code, for every key
  and payload, and the tree it leaves is well formed again (one level higher when
  the root was split).  Its records are those of the tree before with the record
  put in: the key now maps to the payload and every other key is as before; when the
  key was stored, the keys of the tree are the same, in the same places; when it
  was not, there is one record more.
\<close>

theorem Write_upsert:
  "inv c t h \<Longrightarrow>
   \<exists>t' h'. Write c t k v = Some (kSuccess, t') \<and> inv c t' h' \<and>
     recs_of t' h' (root t') = upsert k v (recs_of t h (root t)) \<and>
     map_of (recs_of t' h' (root t')) = (map_of (recs_of t h (root t)))(k \<mapsto> v) \<and>
     (map_of (recs_of t h (root t)) k \<noteq> None \<longrightarrow>
        map fst (recs_of t' h' (root t')) = map fst (recs_of t h (root t))) \<and>
     (map_of (recs_of t h (root t)) k = None \<longrightarrow>
        length (recs_of t' h' (root t')) = Suc (length (recs_of t h (root t))))"
proof -
  assume iv: "inv c t h"
  from Write_inv [OF iv, of k v] obtain t' h' where
    w: "Write c t k v = Some (kSuccess, t')" "inv c t' h'"
      "recs_of t' h' (root t') = upsert k v (recs_of t h (root t))"
    by blast
  note so = inv_sorted [OF iv]
  have a: "map_of (recs_of t' h' (root t')) = (map_of (recs_of t h (root t)))(k \<mapsto> v)"
    unfolding w(3) by (rule map_of_upsert)
  have b: "map_of (recs_of t h (root t)) k \<noteq> None \<longrightarrow>
      map fst (recs_of t' h' (root t')) = map fst (recs_of t h (root t))"
  proof
    assume "map_of (recs_of t h (root t)) k \<noteq> None"
    then have "k \<in> fst ` set (recs_of t h (root t))" by (simp add: map_of_eq_None_iff)
    with so show "map fst (recs_of t' h' (root t')) = map fst (recs_of t h (root t))"
      unfolding w(3) by (rule upsert_keys_present)
  qed
  have d: "map_of (recs_of t h (root t)) k = None \<longrightarrow>
      length (recs_of t' h' (root t')) = Suc (length (recs_of t h (root t)))"
  proof
    assume "map_of (recs_of t h (root t)) k = None"
    then have "k \<notin> fst ` set (recs_of t h (root t))" by (simp add: map_of_eq_None_iff)
    then show "length (recs_of t' h' (root t')) = Suc (length (recs_of t h (root t)))"
      unfolding w(3) by (rule upsert_length_absent)
  qed
  show ?thesis
    by (rule exI [of _ t'], rule exI [of _ h']) (intro conjI w a b d)
qed

theorem Write_upsert_witness:
  "inv C7_cfg (C7_tree [Slot (Some 1) (Val 10) False, Slot (Some 2) (Val 20) False] 0) 0 \<and>
   (\<exists>t' h'. Write C7_cfg (C7_tree [Slot (Some 1) (Val 10) False, Slot (Some 2) (Val 20) False] 0)
               3 30 = Some (kSuccess, t') \<and>
            inv C7_cfg t' h' \<and> recs_of t' h' (root t') = [(1, 10), (2, 20), (3, 30)]) \<and>
   (\<exists>t' h'. Write C7_cfg (C7_tree [Slot (Some 1) (Val 10) False, Slot (Some 2) (Val 20) False] 0)
               2 21 = Some (kSuccess, t') \<and>
            inv C7_cfg t' h' \<and> recs_of t' h' (root t') = [(1, 10), (2, 21)])"
proof -
  let ?t = "C7_tree [Slot (Some 1) (Val 10) False, Slot (Some 2) (Val 20) False] 0"
  have iv: "inv C7_cfg ?t 0"
    by (auto simp: inv_def wf_sub.simps C7_defs leaf_ok_def node_ok_def is_child_def olt_def
        hi_gt_def key_le_def)
  have r: "recs_of ?t 0 (root ?t) = [(1, 10), (2, 20)]"
    by (simp add: C7_defs recs_of.simps List.map_filter_def slot_rec_def)
  from Write_upsert [OF iv, of 3 30] Write_upsert [OF iv, of 2 21] iv show ?thesis
    unfolding r by auto
qed

text \<open>
  Claim C3.  On a well-formed tree, \<open>Insert\<close> of a key that is stored returns the
  key-exists code with the stored payload, the leaf of the key and the version of
  this leaf, and the tree is the one it was given.  \<open>Insert\<close> of a key that is not
  stored returns the success code; the tree it leaves is well formed and holds the
  new record; the node information names the leaf that holds the record and the
  version of this leaf after the insertion.
\<close>

theorem Insert_conditional:
  "inv c t h \<Longrightarrow>
   (\<forall>old. map_of (recs_of t h (root t)) k = Some old \<longrightarrow>
      (\<exists>leaf n. Insert c t k v = Some (kKeyExist, Some old, (leaf, ver n, ver n), t) \<and>
         heap t leaf = Some n \<and> leaf_with k old n)) \<and>
   (map_of (recs_of t h (root t)) k = None \<longrightarrow>
      (\<exists>t' h' leaf n.
         Insert c t k v = Some (kSuccess, None, (leaf, ver n, GetPreviousVersion (ver n)), t') \<and>
         inv c t' h' \<and> recs_of t' h' (root t') = upsert k v (recs_of t h (root t)) \<and>
         map_of (recs_of t' h' (root t')) = (map_of (recs_of t h (root t)))(k \<mapsto> v) \<and>
         heap t' leaf = Some n \<and> leaf_with k v n))"
proof -
  assume iv: "inv c t h"
  have a: "\<exists>leaf n. Insert c t k v = Some (kKeyExist, Some old, (leaf, ver n, ver n), t) \<and>
         heap t leaf = Some n \<and> leaf_with k old n"
    if "map_of (recs_of t h (root t)) k = Some old" for old
    using iv that by (rule Insert_present)
  have b: "\<exists>t' h' leaf n.
         Insert c t k v = Some (kSuccess, None, (leaf, ver n, GetPreviousVersion (ver n)), t') \<and>
         inv c t' h' \<and> recs_of t' h' (root t') = upsert k v (recs_of t h (root t)) \<and>
         map_of (recs_of t' h' (root t')) = (map_of (recs_of t h (root t)))(k \<mapsto> v) \<and>
         heap t' leaf = Some n \<and> leaf_with k v n"
    if ab: "map_of (recs_of t h (root t)) k = None"
  proof -
    from Insert_absent [OF iv ab, of v] obtain t' h' leaf n where
      i: "Insert c t k v = Some (kSuccess, None, (leaf, ver n, GetPreviousVersion (ver n)), t')"
        "inv c t' h'" "recs_of t' h' (root t') = upsert k v (recs_of t h (root t))"
        "heap t' leaf = Some n" "leaf_with k v n"
      by blast
    have "map_of (recs_of t' h' (root t')) = (map_of (recs_of t h (root t)))(k \<mapsto> v)"
      unfolding i(3) by (rule map_of_upsert)
    with i show ?thesis by blast
  qed
  show ?thesis by (intro conjI allI impI) (erule a, erule b)
qed

theorem Insert_conditional_witness:
  "inv C7_cfg (C7_tree [Slot (Some 1) (Val 10) False, Slot (Some 2) (Val 20) False] 0) 0 \<and>
   Insert C7_cfg (C7_tree [Slot (Some 1) (Val 10) False, Slot (Some 2) (Val 20) False] 0) 2 21 =
     Some (kKeyExist, Some 20, (0, 0, 0),
           C7_tree [Slot (Some 1) (Val 10) False, Slot (Some 2) (Val 20) False] 0) \<and>
   (\<exists>t' h' leaf n.
      Insert C7_cfg (C7_tree [Slot (Some 1) (Val 10) False, Slot (Some 2) (Val 20) False] 0) 3 30 =
        Some (kSuccess, None, (leaf, ver n, GetPreviousVersion (ver n)), t') \<and>
      inv C7_cfg t' h' \<and> recs_of t' h' (root t') = [(1, 10), (2, 20), (3, 30)] \<and>
      heap t' leaf = Some n \<and> leaf_with 3 30 n)"
proof -
  let ?t = "C7_tree [Slot (Some 1) (Val 10) False, Slot (Some 2) (Val 20) False] 0"
  have iv: "inv C7_cfg ?t 0"
    by (auto simp: inv_def wf_sub.simps C7_defs leaf_ok_def node_ok_def is_child_def olt_def
        hi_gt_def key_le_def)
  have r: "recs_of ?t 0 (root ?t) = [(1, 10), (2, 20)]"
    by (simp add: C7_defs recs_of.simps List.map_filter_def slot_rec_def)
  have e: "Insert C7_cfg ?t 2 21 = Some (kKeyExist, Some 20, (0, 0, 0), ?t)"
    by (simp add: tree_defs node_defs loop_simps C7_defs)
  from Insert_conditional [OF iv, of 3 30] have
    "\<exists>t' h' leaf n.
      Insert C7_cfg ?t 3 30 = Some (kSuccess, None, (leaf, ver n, GetPreviousVersion (ver n)), t') \<and>
      inv C7_cfg t' h' \<and> recs_of t' h' (root t') = [(1, 10), (2, 20), (3, 30)] \<and>
      heap t' leaf = Some n \<and> leaf_with 3 30 n"
    unfolding r by auto
  with iv e show ?thesis by blast
qed

end
